(* ===== verification/Prelude.thy ===== *)
theory Prelude
  imports Main "HOL-Library.Word"
begin

text \<open>
  Shared vocabulary of the development: the C integer types as fixed-width words, the
  lemmas on power-of-two masks and on wrap-around subtraction that the ring buffers use,
  reachable states of a step relation, and the simplification collections the component
  theories extend.
\<close>

unbundle bit_operations_syntax

type_synonym u8 = "8 word"
type_synonym u16 = "16 word"
type_synonym u32 = "32 word"
type_synonym u64 = "64 word"
type_synonym size_t = "64 word"

named_theorems ring_defs \<open>operations of the ring buffer\<close>
named_theorems pool_defs \<open>operations of the object pool\<close>
named_theorems bpf_defs \<open>BPF programs\<close>

section \<open>Reachable states\<close>

inductive reach :: "('s \<Rightarrow> bool) \<Rightarrow> ('s \<Rightarrow> 's \<Rightarrow> bool) \<Rightarrow> 's \<Rightarrow> bool"
  for init :: "'s \<Rightarrow> bool" and step :: "'s \<Rightarrow> 's \<Rightarrow> bool" where
  reach_init: "init s \<Longrightarrow> reach init step s"
| reach_step: "reach init step s \<Longrightarrow> step s t \<Longrightarrow> reach init step t"

section \<open>Powers of two\<close>

lemma nat_and_pred_0_power:
  "0 < n \<Longrightarrow> n AND (n - 1) = (0::nat) \<Longrightarrow> \<exists>k. n = 2 ^ k"
proof (induction n rule: less_induct)
  case (less n)
  show ?case
  proof (cases "even n")
    case True
    then obtain m where m: "n = 2 * m" by blast
    with less.prems have m0: "0 < m" by simp
    have "(n - 1) div 2 = m - 1" using m m0 by simp
    moreover have "n div 2 = m" using m by simp
    moreover have "of_bool (odd n \<and> odd (n - 1)) + 2 * ((n div 2) AND ((n - 1) div 2)) = 0"
      using less.prems(2) by (subst (asm) and_nat_rec) simp
    ultimately have "m AND (m - 1) = 0" by simp
    with m m0 less.IH [of m] obtain k where "m = 2 ^ k" by auto
    with m show ?thesis by (metis power_Suc)
  next
    case False
    then obtain m where m: "n = 2 * m + 1" by (elim oddE)
    have "of_bool (odd n \<and> odd (n - 1)) + 2 * ((n div 2) AND ((n - 1) div 2)) = 0"
      using less.prems(2) by (subst (asm) and_nat_rec) simp
    with m have "n = 1" by simp
    then show ?thesis by (metis power_0)
  qed
qed

text \<open>
  \<open>pow2 C\<close> is the check of the \<open>static_assert\<close>s of the ring and the pool:
  \<open>(Capacity & (Capacity - 1)) == 0\<close>. It lets 0 through.
\<close>

definition pow2 :: "size_t \<Rightarrow> bool" where
  "pow2 C \<longleftrightarrow> C AND (C - 1) = 0"

lemma pow2_cases:
  assumes "pow2 C" and "C \<noteq> 0"
  obtains k where "k < 64" and "C = 2 ^ k" and "unat C = 2 ^ k"
proof -
  have "unat C \<noteq> 0" using assms(2) by (simp add: unat_eq_zero)
  then have pos: "0 < unat C" by simp
  have "unat (C AND (C - 1)) = unat C AND unat (C - 1)"
    by (rule unsigned_and_eq)
  moreover have "unat (C - 1) = unat C - 1"
    using assms(2) by (simp add: unat_minus_one)
  ultimately have "unat C AND (unat C - 1) = 0"
    using assms(1) by (simp add: pow2_def)
  then obtain k where k: "unat C = 2 ^ k"
    using nat_and_pred_0_power [OF pos] by blast
  have "(2::nat) ^ k < 2 ^ 64" using k unsigned_less [of C, where 'a = nat] by simp
  then have "k < 64" by (rule power_less_imp_less_exp [rotated]) simp
  moreover have "C = 2 ^ k"
    using arg_cong [OF k, of "of_nat :: nat \<Rightarrow> size_t"] by simp
  ultimately show thesis using that k by blast
qed

lemma unat_and_mask:
  assumes "pow2 C" and "C \<noteq> 0"
  shows "unat (x AND (C - 1)) = unat (x :: size_t) mod unat C"
proof -
  obtain k where k: "C = 2 ^ k" "unat C = 2 ^ k"
    using pow2_cases [OF assms] .
  have "x AND (C - 1) = take_bit k x"
    using k(1) by (simp add: take_bit_eq_mask mask_eq_exp_minus_1)
  then show ?thesis
    using k(2) by (simp add: unsigned_take_bit_eq take_bit_nat_def)
qed

lemma unat_mod_pow2_add:
  assumes "pow2 C" and "C \<noteq> 0"
  shows "unat ((x :: size_t) + of_nat i) mod unat C = (unat x + i) mod unat C"
proof -
  obtain k where k: "k < 64" "unat C = 2 ^ k"
    using pow2_cases [OF assms] .
  have "(2::nat) ^ k dvd 2 ^ 64" using k(1) by (intro le_imp_power_dvd) simp
  then show ?thesis
    by (simp add: k(2) unat_word_ariths unat_of_nat mod_mod_cancel mod_add_right_eq)
qed

lemma mod_add_neq:
  fixes i j m t :: nat
  assumes "i < j" and "j - i < m"
  shows "(t + i) mod m \<noteq> (t + j) mod m"
proof
  assume "(t + i) mod m = (t + j) mod m"
  then have "m dvd (t + j) - (t + i)"
    using assms(1) by (metis mod_eq_dvd_iff_nat add_left_mono less_imp_le)
  then have "m dvd j - i" by simp
  with assms show False by (auto dest: dvd_imp_le)
qed

lemma unat_size_t_less: "unat (x :: size_t) < 2 ^ 64"
  by (rule order_less_le_trans [OF unsigned_less]) simp

lemma unat_of_nat_size: "n < 2 ^ 64 \<Longrightarrow> unat (of_nat n :: size_t) = n"
  by (simp add: unat_of_nat)

section \<open>Distances between wrapping counters\<close>

lemma unat_sub_Suc:
  fixes h t c :: "'a::len word"
  assumes "unat (h - t) < unat c"
  shows "unat (h + 1 - t) = Suc (unat (h - t))"
proof -
  have "unat (h - t) < 2 ^ LENGTH('a) - 1"
    using assms unsigned_less [of c, where 'a = nat] by linarith
  then have "unat ((h - t) + 1) = Suc (unat (h - t))"
    by (simp add: unat_word_ariths)
  then show ?thesis by (simp add: algebra_simps)
qed

lemma unat_sub_pred:
  fixes h t :: "'a::len word"
  assumes "h \<noteq> t"
  shows "unat (h - (t + 1)) = unat (h - t) - 1"
proof -
  have "h - t \<noteq> 0" using assms by simp
  then have "unat (h - t - 1) = unat (h - t) - 1" by (rule unat_minus_one)
  then show ?thesis by (simp add: algebra_simps)
qed

lemma unat_sub_add_of_nat:
  fixes h t :: "'a::len word"
  assumes "unat (h - t) + n < 2 ^ LENGTH('a)"
  shows "unat (h + of_nat n - t) = unat (h - t) + n"
proof -
  have n: "n < 2 ^ LENGTH('a)" using assms by simp
  have "unat ((h - t) + of_nat n) = unat (h - t) + n"
    using assms n by (simp add: unat_word_ariths unat_of_nat)
  then show ?thesis by (simp add: algebra_simps)
qed

lemma unat_sub_sub_of_nat:
  fixes h t :: "'a::len word"
  assumes "n \<le> unat (h - t)"
  shows "unat (h - (t + of_nat n)) = unat (h - t) - n"
proof -
  have "n < 2 ^ LENGTH('a)" using assms unsigned_less [of "h - t", where 'a = nat] by linarith
  then have "unat (of_nat n :: 'a word) = n" by (simp add: unat_of_nat)
  moreover from this have "(of_nat n :: 'a word) \<le> h - t"
    using assms by (simp add: word_le_nat_alt)
  ultimately have "unat ((h - t) - of_nat n) = unat (h - t) - n"
    by (simp add: unat_sub)
  then show ?thesis by (simp add: algebra_simps)
qed

lemma unat_Suc_of_less:
  fixes x y :: "'a::len word"
  assumes "x < y"
  shows "unat (x + 1) = Suc (unat x)"
proof -
  have "unat x < unat y" using assms by (simp add: word_less_nat_alt)
  then have "Suc (unat x) < 2 ^ LENGTH('a)"
    using unsigned_less [of y, where 'a = nat] by linarith
  then show ?thesis by (simp add: unat_word_ariths)
qed

end
