(* ===== verification/Interfaces.thy ===== *)
theory Interfaces
  imports Prelude
begin

text \<open>
  The contracts the components rely on, as locales. Each one is interpreted in the theory
  of the component that provides it.
  \<^item> \<open>bounded_fifo\<close>: what a client of the ring may assume; the pool and the packet
    processor use it for their free list and their packet queue.
  \<^item> \<open>burst_fifo\<close>: the same with the burst operations.
  \<^item> \<open>step_invariant\<close>: an invariant that holds at the start and is kept by every step
    holds in every reachable state; used by each of the concurrent components.
\<close>

section \<open>Bounded first-in first-out queue\<close>

text \<open>Iterating the single-item operations, as the client loops do.\<close>

primrec enq_list :: "('q \<Rightarrow> 'a \<Rightarrow> bool \<times> 'q) \<Rightarrow> 'q \<Rightarrow> 'a list \<Rightarrow> 'q" where
  "enq_list enq q [] = q"
| "enq_list enq q (x # xs) = enq_list enq (snd (enq q x)) xs"

primrec deq_list :: "('q \<Rightarrow> 'a option \<times> 'q) \<Rightarrow> 'q \<Rightarrow> nat \<Rightarrow> 'a list \<times> 'q" where
  "deq_list deq q 0 = ([], q)"
| "deq_list deq q (Suc n) =
     (case deq q of
        (None, q') \<Rightarrow> ([], q')
      | (Some x, q') \<Rightarrow> (let (xs, q'') = deq_list deq q' n in (x # xs, q'')))"

lemma enq_list_snoc: "enq_list enq q (xs @ [x]) = snd (enq (enq_list enq q xs) x)"
  by (induction xs arbitrary: q) auto

locale bounded_fifo =
  fixes enq :: "'q \<Rightarrow> 'a \<Rightarrow> bool \<times> 'q"
    and deq :: "'q \<Rightarrow> 'a option \<times> 'q"
    and items :: "'q \<Rightarrow> 'a list"
    and wf :: "'q \<Rightarrow> bool"
    and cap :: nat
  assumes items_bound: "wf q \<Longrightarrow> length (items q) \<le> cap"
    and enq_room: "wf q \<Longrightarrow> length (items q) < cap \<Longrightarrow>
          \<exists>q'. enq q x = (True, q') \<and> wf q' \<and> items q' = items q @ [x]"
    and enq_full: "wf q \<Longrightarrow> length (items q) = cap \<Longrightarrow> enq q x = (False, q)"
    and deq_empty: "wf q \<Longrightarrow> items q = [] \<Longrightarrow> deq q = (None, q)"
    and deq_item: "wf q \<Longrightarrow> items q = x # xs \<Longrightarrow>
          \<exists>q'. deq q = (Some x, q') \<and> wf q' \<and> items q' = xs"
begin

lemma enq_wf: "wf q \<Longrightarrow> wf (snd (enq q x))"
  using enq_room [of q x] enq_full [of q x] items_bound [of q]
  by (cases "length (items q) < cap") auto

lemma enq_items:
  "wf q \<Longrightarrow> items (snd (enq q x)) = (if length (items q) < cap then items q @ [x] else items q)"
  using enq_room [of q x] enq_full [of q x] items_bound [of q]
  by (cases "length (items q) < cap") auto

lemma enq_result: "wf q \<Longrightarrow> fst (enq q x) \<longleftrightarrow> length (items q) < cap"
  using enq_room [of q x] enq_full [of q x] items_bound [of q]
  by (cases "length (items q) < cap") auto

lemma deq_wf: "wf q \<Longrightarrow> wf (snd (deq q))"
  using deq_empty [of q] deq_item [of q] by (cases "items q") fastforce+

lemma deq_items: "wf q \<Longrightarrow> items (snd (deq q)) = tl (items q)"
  using deq_empty [of q] deq_item [of q] by (cases "items q") fastforce+

lemma deq_result:
  "wf q \<Longrightarrow> fst (deq q) = (case items q of [] \<Rightarrow> None | x # xs \<Rightarrow> Some x)"
  using deq_empty [of q] deq_item [of q] by (cases "items q") fastforce+

lemma enq_list_room:
  "wf q \<Longrightarrow> length (items q) + length xs \<le> cap \<Longrightarrow>
     wf (enq_list enq q xs) \<and> items (enq_list enq q xs) = items q @ xs"
proof (induction xs arbitrary: q)
  case (Cons x xs)
  have "wf (snd (enq q x))" and "items (snd (enq q x)) = items q @ [x]"
    using Cons.prems by (simp_all add: enq_wf enq_items)
  with Cons.IH [of "snd (enq q x)"] Cons.prems(2) show ?case by simp
qed simp

lemma deq_list_items:
  "wf q \<Longrightarrow> \<exists>q'. deq_list deq q n = (take n (items q), q') \<and> wf q' \<and> items q' = drop n (items q)"
proof (induction n arbitrary: q)
  case (Suc n)
  show ?case
  proof (cases "items q")
    case Nil
    with Suc.prems show ?thesis by (simp add: deq_empty)
  next
    case (Cons x xs)
    then obtain q1 where q1: "deq q = (Some x, q1)" "wf q1" "items q1 = xs"
      using deq_item [OF Suc.prems] by blast
    from Suc.IH [OF q1(2)] q1 Cons show ?thesis by auto
  qed
qed simp

text \<open>Anything enqueued into an empty queue with room comes out again, in order.\<close>

lemma enq_deq_roundtrip:
  assumes "wf q" and "items q = []" and "length xs \<le> cap"
  shows "fst (deq_list deq (enq_list enq q xs) (length xs)) = xs"
  using enq_list_room [of q xs] deq_list_items [of "enq_list enq q xs" "length xs"] assms
  by auto

end

text \<open>
  The burst operations promise to act as the single-item ones repeated. \<open>deqb\<close> writes its
  items over the front of the caller's array.
\<close>

locale burst_fifo = bounded_fifo +
  fixes enqb :: "'a \<Rightarrow> 'b list \<Rightarrow> size_t \<Rightarrow> size_t \<times> 'a"
    and deqb :: "'a \<Rightarrow> 'b list \<Rightarrow> size_t \<Rightarrow> size_t \<times> 'b list \<times> 'a"
  assumes enqb_iterates: "wf q \<Longrightarrow> unat n \<le> length xs \<Longrightarrow>
          \<exists>k q'. enqb q xs n = (k, q') \<and> unat k = min (unat n) (cap - length (items q)) \<and>
            q' = enq_list enq q (take (unat k) xs)"
    and deqb_iterates: "wf q \<Longrightarrow> unat n \<le> length xs \<Longrightarrow>
          \<exists>k ys q'. deqb q xs n = (k, ys @ drop (unat k) xs, q') \<and>
            unat k = min (unat n) (length (items q)) \<and> deq_list deq q (unat k) = (ys, q')"
begin

lemma enqb_items:
  assumes "wf q" and "unat n \<le> length xs"
  shows "\<exists>k q'. enqb q xs n = (k, q') \<and> unat k = min (unat n) (cap - length (items q)) \<and>
     wf q' \<and> items q' = items q @ take (unat k) xs"
proof -
  obtain k q' where k: "enqb q xs n = (k, q')" "unat k = min (unat n) (cap - length (items q))"
    "q' = enq_list enq q (take (unat k) xs)"
    using enqb_iterates [OF assms] by blast
  have "length (items q) + length (take (unat k) xs) \<le> cap"
    using k(2) items_bound [OF assms(1)] by simp
  from enq_list_room [OF assms(1) this] k show ?thesis by blast
qed

lemma deqb_items:
  assumes "wf q" and "unat n \<le> length xs"
  shows "\<exists>k q'. deqb q xs n = (k, take (unat k) (items q) @ drop (unat k) xs, q') \<and>
     unat k = min (unat n) (length (items q)) \<and> wf q' \<and> items q' = drop (unat k) (items q)"
proof -
  obtain k ys q' where k: "deqb q xs n = (k, ys @ drop (unat k) xs, q')"
    "unat k = min (unat n) (length (items q))" "deq_list deq q (unat k) = (ys, q')"
    using deqb_iterates [OF assms] by blast
  with deq_list_items [OF assms(1), of "unat k"] show ?thesis by auto
qed

end

section \<open>Invariants of step relations\<close>

locale step_invariant =
  fixes init :: "'s \<Rightarrow> bool"
    and step :: "'s \<Rightarrow> 's \<Rightarrow> bool"
    and inv :: "'s \<Rightarrow> bool"
  assumes init_inv: "init s \<Longrightarrow> inv s"
    and step_inv: "inv s \<Longrightarrow> step s t \<Longrightarrow> inv t"
begin

lemma reach_inv: "reach init step s \<Longrightarrow> inv s"
  by (induction rule: reach.induct) (auto intro: init_inv step_inv)

lemma reach_induct_inv:
  assumes "reach init step s"
    and "\<And>s. init s \<Longrightarrow> P s"
    and "\<And>s t. inv s \<Longrightarrow> P s \<Longrightarrow> step s t \<Longrightarrow> P t"
  shows "P s"
  using assms(1) by (induction rule: reach.induct) (auto intro: assms reach_inv)

end

end
