(* ===== verification/Spsc_Ring.thy ===== *)
theory Spsc_Ring
  imports Interfaces
begin

text \<open>
  \<open>src/src/dpdk_sim/spsc_ring.h\<close>, class \<open>SpscRing<T, Capacity>\<close>. The record has the
  class's three members \<open>head_\<close>, \<open>tail_\<close> and \<open>data_\<close>; the template
  argument \<open>Capacity\<close> is the first argument \<open>C\<close> of every operation. The two indices are 64-bit counters that wrap. This theory treats each call
  as one step, as a single thread sees it; \<open>Spsc_Concurrent\<close> splits the calls into their
  loads and stores.
\<close>

section \<open>Definitions\<close>

record 'a SpscRing =
  ring_head :: size_t
  ring_tail :: size_t
  ring_data :: "'a list"

definition MASK :: "size_t \<Rightarrow> size_t" where
  "MASK C = C - 1"

text \<open>The array index \<open>x & MASK\<close>.\<close>

definition slot :: "size_t \<Rightarrow> size_t \<Rightarrow> nat" where
  "slot C x = unat (x AND MASK C)"

definition SpscRing_init :: "size_t \<Rightarrow> 'a \<Rightarrow> 'a SpscRing" where
  "SpscRing_init C zero = \<lparr>ring_head = 0, ring_tail = 0, ring_data = replicate (unat C) zero\<rparr>"

definition enqueue :: "size_t \<Rightarrow> 'a SpscRing \<Rightarrow> 'a \<Rightarrow> bool \<times> 'a SpscRing" where
  "enqueue C r item =
     (let h = ring_head r; t = ring_tail r in
      if C \<le> h - t then (False, r)
      else (True, r\<lparr>ring_data := (ring_data r)[slot C h := item], ring_head := h + 1\<rparr>))"

text \<open>\<open>None\<close> is the result false, which leaves the caller's variable alone.\<close>

definition dequeue :: "size_t \<Rightarrow> 'a SpscRing \<Rightarrow> 'a option \<times> 'a SpscRing" where
  "dequeue C r =
     (let t = ring_tail r; h = ring_head r in
      if t = h then (None, r)
      else (Some (ring_data r ! slot C t), r\<lparr>ring_tail := t + 1\<rparr>))"

definition enqueue_burst :: "size_t \<Rightarrow> 'a SpscRing \<Rightarrow> 'a list \<Rightarrow> size_t \<Rightarrow> size_t \<times> 'a SpscRing" where
  "enqueue_burst C r its n =
     (let h = ring_head r; t = ring_tail r;
          free = C - (h - t);
          cnt = (if n < free then n else free)
      in (cnt, r\<lparr>ring_data := fold (\<lambda>i d. d[slot C (h + of_nat i) := its ! i]) [0..<unat cnt] (ring_data r),
                 ring_head := h + cnt\<rparr>))"

text \<open>The caller's array is passed in and returned with its first \<open>cnt\<close> entries overwritten.\<close>

definition dequeue_burst ::
  "size_t \<Rightarrow> 'a SpscRing \<Rightarrow> 'a list \<Rightarrow> size_t \<Rightarrow> size_t \<times> 'a list \<times> 'a SpscRing" where
  "dequeue_burst C r its n =
     (let t = ring_tail r; h = ring_head r;
          avail = h - t;
          cnt = (if n < avail then n else avail)
      in (cnt,
          fold (\<lambda>i b. b[i := ring_data r ! slot C (t + of_nat i)]) [0..<unat cnt] its,
          r\<lparr>ring_tail := t + cnt\<rparr>))"

definition ring_size :: "'a SpscRing \<Rightarrow> size_t" where
  "ring_size r = ring_head r - ring_tail r"

definition ring_empty :: "'a SpscRing \<Rightarrow> bool" where
  "ring_empty r \<longleftrightarrow> ring_size r = 0"

definition ring_full :: "size_t \<Rightarrow> 'a SpscRing \<Rightarrow> bool" where
  "ring_full C r \<longleftrightarrow> C \<le> ring_size r"

definition ring_capacity :: "size_t \<Rightarrow> size_t" where
  "ring_capacity C = C"

declare enqueue_def [ring_defs] dequeue_def [ring_defs] enqueue_burst_def [ring_defs]
  dequeue_burst_def [ring_defs] ring_size_def [ring_defs] ring_empty_def [ring_defs]
  ring_full_def [ring_defs] ring_capacity_def [ring_defs]

section \<open>Invariant and abstraction\<close>

definition ring_wf :: "size_t \<Rightarrow> 'a SpscRing \<Rightarrow> bool" where
  "ring_wf C r \<longleftrightarrow> pow2 C \<and> length (ring_data r) = unat C \<and> ring_head r - ring_tail r \<le> C"

text \<open>The items from the oldest to the newest.\<close>

definition ring_items :: "size_t \<Rightarrow> 'a SpscRing \<Rightarrow> 'a list" where
  "ring_items C r =
     map (\<lambda>i. ring_data r ! slot C (ring_tail r + of_nat i)) [0..<unat (ring_head r - ring_tail r)]"

section \<open>Indices\<close>

lemma slot_less: "pow2 C \<Longrightarrow> C \<noteq> 0 \<Longrightarrow> slot C x < unat C"
  by (simp add: slot_def MASK_def unat_and_mask unat_gt_0)

lemma slot_add:
  "pow2 C \<Longrightarrow> C \<noteq> 0 \<Longrightarrow> slot C (x + of_nat i) = (unat x + i) mod unat C"
  by (simp add: slot_def MASK_def unat_and_mask unat_mod_pow2_add)

lemma slot_neq:
  assumes "pow2 C" and "C \<noteq> 0" and "i < j" and "j - i < unat C"
  shows "slot C (x + of_nat i) \<noteq> slot C (x + of_nat j)"
  using assms by (simp add: slot_add mod_add_neq)

lemma slot_neq_of_dist:
  assumes "pow2 C" and "i < unat d" and "unat d < unat C"
  shows "slot C (x + of_nat i) \<noteq> slot C (x + d)"
proof -
  have "C \<noteq> 0" using assms(3) by auto
  with slot_neq [OF assms(1) this, of i "unat d" x] assms show ?thesis by simp
qed

lemma ring_wf_unat: "ring_wf C r \<Longrightarrow> unat (ring_head r - ring_tail r) \<le> unat C"
  by (simp add: ring_wf_def word_le_nat_alt)

lemma length_ring_items [simp]: "length (ring_items C r) = unat (ring_head r - ring_tail r)"
  by (simp add: ring_items_def)

lemma ring_items_nth:
  "i < unat (ring_head r - ring_tail r) \<Longrightarrow> ring_items C r ! i = ring_data r ! slot C (ring_tail r + of_nat i)"
  by (simp add: ring_items_def)

section \<open>Single-item operations\<close>

lemma ring_init_wf: "pow2 C \<Longrightarrow> ring_wf C (SpscRing_init C z)"
  by (simp add: ring_wf_def SpscRing_init_def)

lemma ring_init_items: "ring_items C (SpscRing_init C z) = []"
  by (simp add: ring_items_def SpscRing_init_def)

lemma enqueue_room:
  assumes wf: "ring_wf C r" and room: "unat (ring_head r - ring_tail r) < unat C"
  shows "\<exists>r'. enqueue C r x = (True, r') \<and> ring_wf C r' \<and> ring_items C r' = ring_items C r @ [x]"
proof -
  let ?h = "ring_head r" and ?t = "ring_tail r"
  define r' where "r' = r\<lparr>ring_data := (ring_data r)[slot C ?h := x], ring_head := ?h + 1\<rparr>"
  have C: "pow2 C" "C \<noteq> 0" "length (ring_data r) = unat C"
    using wf room by (auto simp: ring_wf_def)
  have dist: "unat (?h + 1 - ?t) = Suc (unat (?h - ?t))"
    using room by (rule unat_sub_Suc)
  have "enqueue C r x = (True, r')"
    using room by (simp add: enqueue_def r'_def word_le_nat_alt Let_def)
  moreover have "ring_wf C r'"
    using C room dist by (simp add: ring_wf_def r'_def word_le_nat_alt)
  moreover have "ring_items C r' = ring_items C r @ [x]"
  proof (rule nth_equalityI)
    show "length (ring_items C r') = length (ring_items C r @ [x])"
      by (simp add: r'_def dist)
    fix i assume "i < length (ring_items C r')"
    then have i: "i < Suc (unat (?h - ?t))" by (simp add: r'_def dist)
    show "ring_items C r' ! i = (ring_items C r @ [x]) ! i"
    proof (cases "i = unat (?h - ?t)")
      case True
      then show ?thesis
        using C slot_less [OF C(1,2), of ?h] i dist
        by (simp add: ring_items_nth r'_def nth_append)
    next
      case False
      with i have less: "i < unat (?h - ?t)" by simp
      then have "slot C (?t + of_nat i) \<noteq> slot C (?t + (?h - ?t))"
        using slot_neq_of_dist [OF C(1) _ room] by blast
      with less dist show ?thesis
        by (simp add: ring_items_nth r'_def nth_append)
    qed
  qed
  ultimately show ?thesis by blast
qed

lemma enqueue_full:
  "unat C \<le> unat (ring_head r - ring_tail r) \<Longrightarrow> enqueue C r x = (False, r)"
  by (simp add: enqueue_def word_le_nat_alt)

lemma dequeue_item:
  assumes wf: "ring_wf C r" and its: "ring_items C r = x # xs"
  shows "\<exists>r'. dequeue C r = (Some x, r') \<and> ring_wf C r' \<and> ring_items C r' = xs"
proof -
  let ?h = "ring_head r" and ?t = "ring_tail r"
  define r' where "r' = r\<lparr>ring_tail := ?t + 1\<rparr>"
  have "length (ring_items C r) > 0" using its by simp
  then have ne: "?h \<noteq> ?t" and pos: "0 < unat (?h - ?t)" by auto
  have dist: "unat (?h - (?t + 1)) = unat (?h - ?t) - 1" using ne by (rule unat_sub_pred)
  have "ring_data r ! slot C ?t = x"
    using ring_items_nth [OF pos, of C] its by simp
  then have "dequeue C r = (Some x, r')"
    using ne by (simp add: dequeue_def r'_def)
  moreover have "ring_wf C r'"
    using wf dist by (auto simp: ring_wf_def r'_def word_le_nat_alt)
  moreover have "ring_items C r' = xs"
  proof (rule nth_equalityI)
    have "length (ring_items C r) = Suc (length xs)" using its by simp
    then show len: "length (ring_items C r') = length xs" by (simp add: r'_def dist)
    fix i assume i: "i < length (ring_items C r')"
    then have "i < unat (?h - ?t) - 1" by (simp add: r'_def dist)
    then have "ring_items C r ! Suc i = ring_items C r' ! i"
      by (simp add: ring_items_nth r'_def dist add.assoc)
    then show "ring_items C r' ! i = xs ! i" using its by simp
  qed
  ultimately show ?thesis by blast
qed

lemma dequeue_empty: "ring_items C r = [] \<Longrightarrow> dequeue C r = (None, r)"
  by (simp add: dequeue_def ring_items_def unat_eq_zero)

interpretation ring: bounded_fifo "enqueue C" "dequeue C" "ring_items C" "ring_wf C" "unat C"
  for C :: size_t
proof unfold_locales
  fix q :: "'a SpscRing" and x xs
  assume wf: "ring_wf C q"
  show "length (ring_items C q) \<le> unat C" using ring_wf_unat [OF wf] by simp
  show "length (ring_items C q) < unat C \<Longrightarrow>
      \<exists>q'. enqueue C q x = (True, q') \<and> ring_wf C q' \<and> ring_items C q' = ring_items C q @ [x]"
    using enqueue_room [OF wf] by simp
  show "length (ring_items C q) = unat C \<Longrightarrow> enqueue C q x = (False, q)"
    by (simp add: enqueue_full)
  show "ring_items C q = [] \<Longrightarrow> dequeue C q = (None, q)" by (rule dequeue_empty)
  show "ring_items C q = x # xs \<Longrightarrow>
      \<exists>q'. dequeue C q = (Some x, q') \<and> ring_wf C q' \<and> ring_items C q' = xs"
    by (rule dequeue_item [OF wf])
qed

section \<open>Burst operations\<close>

text \<open>
  A burst is the iteration of the single-item operation: the same final state, not only the
  same contents.
\<close>

lemma enqueue_burst_loop:
  assumes wf: "ring_wf C r" and k: "unat (ring_head r - ring_tail r) + k \<le> unat C"
    and len: "k \<le> length its"
  shows "enq_list (enqueue C) r (take k its) =
    r\<lparr>ring_data := fold (\<lambda>i d. d[slot C (ring_head r + of_nat i) := its ! i]) [0..<k] (ring_data r),
      ring_head := ring_head r + of_nat k\<rparr>"
  using k len
proof (induction k)
  case (Suc k)
  let ?h = "ring_head r" and ?t = "ring_tail r"
  let ?d = "fold (\<lambda>i d. d[slot C (?h + of_nat i) := its ! i]) [0..<k] (ring_data r)"
  have "unat (?h - ?t) + k < 2 ^ 64"
    using Suc.prems(1) unsigned_less [of C, where 'a = nat] by simp
  then have dist: "unat (?h + of_nat k - ?t) = unat (?h - ?t) + k"
    by (simp add: unat_sub_add_of_nat)
  have "take (Suc k) its = take k its @ [its ! k]"
    using Suc.prems(2) by (simp add: take_Suc_conv_app_nth)
  then have "enq_list (enqueue C) r (take (Suc k) its)
      = snd (enqueue C (enq_list (enqueue C) r (take k its)) (its ! k))"
    by (simp add: enq_list_snoc)
  also have "\<dots> = snd (enqueue C (r\<lparr>ring_data := ?d, ring_head := ?h + of_nat k\<rparr>) (its ! k))"
    using Suc by simp
  also have "\<dots> = r\<lparr>ring_data := ?d[slot C (?h + of_nat k) := its ! k], ring_head := ?h + of_nat k + 1\<rparr>"
    using Suc.prems(1) dist by (simp add: enqueue_def Let_def word_le_nat_alt)
  finally show ?case by (simp add: algebra_simps)
qed simp

lemma enqueue_burst_count:
  assumes "ring_wf C r"
  shows "unat (fst (enqueue_burst C r its n))
           = min (unat n) (unat C - unat (ring_head r - ring_tail r))"
proof -
  have "unat (C - (ring_head r - ring_tail r)) = unat C - unat (ring_head r - ring_tail r)"
    using assms by (intro unat_sub) (simp add: ring_wf_def)
  then show ?thesis
    by (simp add: enqueue_burst_def Let_def word_less_nat_alt min_def)
qed

lemma enqueue_burst_iterates:
  assumes "ring_wf C r" and "unat n \<le> length its"
  shows "snd (enqueue_burst C r its n)
           = enq_list (enqueue C) r (take (unat (fst (enqueue_burst C r its n))) its)"
proof -
  let ?k = "unat (fst (enqueue_burst C r its n))"
  have "unat (ring_head r - ring_tail r) + ?k \<le> unat C" and "?k \<le> length its"
    using enqueue_burst_count [OF assms(1), of its n] ring_wf_unat [OF assms(1)] assms(2) by auto
  from enqueue_burst_loop [OF assms(1) this] show ?thesis
    by (simp add: enqueue_burst_def Let_def)
qed

lemma dequeue_burst_loop:
  "k \<le> unat (ring_head r - ring_tail r) \<Longrightarrow>
     deq_list (dequeue C) r k = (take k (ring_items C r), r\<lparr>ring_tail := ring_tail r + of_nat k\<rparr>)"
proof (induction k arbitrary: r)
  case (Suc k)
  let ?r = "r\<lparr>ring_tail := ring_tail r + 1\<rparr>"
  have ne: "ring_head r \<noteq> ring_tail r" using Suc.prems by auto
  then have dist: "unat (ring_head r - (ring_tail r + 1)) = unat (ring_head r - ring_tail r) - 1"
    by (rule unat_sub_pred)
  have "take (Suc k) (ring_items C r) = ring_data r ! slot C (ring_tail r) # take k (ring_items C ?r)"
    using Suc.prems dist
    by (intro nth_equalityI) (auto simp: ring_items_nth nth_Cons add.assoc split: nat.split)
  with ne Suc.IH [of ?r] Suc.prems dist show ?case
    by (simp add: dequeue_def Let_def add.assoc)
qed simp

lemma fold_update_prefix:
  "k \<le> length b \<Longrightarrow> fold (\<lambda>i b. b[i := f i]) [0..<k] b = map f [0..<k] @ drop k b"
proof (induction k)
  case (Suc k)
  then have "drop k b = b ! k # drop (Suc k) b" by (simp add: Cons_nth_drop_Suc)
  with Suc show ?case by (simp add: list_update_append)
qed simp

lemma dequeue_burst_count:
  "unat (fst (dequeue_burst C r its n)) = min (unat n) (unat (ring_head r - ring_tail r))"
  by (simp add: dequeue_burst_def Let_def word_less_nat_alt min_def)

lemma dequeue_burst_iterates:
  assumes "unat n \<le> length its"
  shows "dequeue_burst C r its n =
     (let k = min (unat n) (unat (ring_head r - ring_tail r));
          (xs, r') = deq_list (dequeue C) r k
      in (of_nat k, xs @ drop k its, r'))"
proof -
  let ?k = "min (unat n) (unat (ring_head r - ring_tail r))"
  have k: "?k = unat (if n < ring_head r - ring_tail r then n else ring_head r - ring_tail r)"
    by (simp add: word_less_nat_alt min_def)
  have "take ?k (ring_items C r) = map (\<lambda>i. ring_data r ! slot C (ring_tail r + of_nat i)) [0..<?k]"
    by (simp add: ring_items_def take_map)
  then show ?thesis
    using assms dequeue_burst_loop [of ?k r C]
    by (simp add: dequeue_burst_def Let_def fold_update_prefix word_less_nat_alt min_def)
qed

interpretation ring: burst_fifo "enqueue C" "dequeue C" "ring_items C" "ring_wf C" "unat C"
  "enqueue_burst C" "dequeue_burst C" for C :: size_t
proof unfold_locales
  fix q :: "'a SpscRing" and xs :: "'a list" and n :: size_t
  assume wf: "ring_wf C q" and n: "unat n \<le> length xs"
  let ?k = "min (unat n) (unat C - length (ring_items C q))"
  have k: "unat (fst (enqueue_burst C q xs n)) = ?k"
    using enqueue_burst_count [OF wf] by simp
  show "\<exists>k q'. enqueue_burst C q xs n = (k, q') \<and> unat k = ?k \<and>
      q' = enq_list (enqueue C) q (take (unat k) xs)"
    using enqueue_burst_iterates [OF wf n] k by (metis prod.collapse)
  show "\<exists>k ys q'. dequeue_burst C q xs n = (k, ys @ drop (unat k) xs, q') \<and>
      unat k = min (unat n) (length (ring_items C q)) \<and> deq_list (dequeue C) q (unat k) = (ys, q')"
  proof -
    let ?m = "min (unat n) (unat (ring_head q - ring_tail q))"
    have "unat (of_nat ?m :: size_t) = ?m"
      using unsigned_less [of n, where 'a = nat] by (simp add: unat_of_nat min_def)
    then show ?thesis
      using dequeue_burst_iterates [OF n, of C q]
      by (auto simp: Let_def split: prod.splits)
  qed
qed

section \<open>Specification: a bounded queue\<close>

text \<open>
  Calls on the ring with what they return, and the same calls on a plain list of bounded
  length. A burst call passes its whole array, so the count is the array's length.
\<close>

datatype 'a ring_op =
    Op_enqueue 'a
  | Op_dequeue
  | Op_enqueue_burst "'a list"
  | Op_dequeue_burst "'a list"
  | Op_size
  | Op_empty
  | Op_full

datatype 'a ring_out =
    Out_bool bool
  | Out_item "'a option"
  | Out_count nat
  | Out_burst nat "'a list"

fun ring_op_ok :: "'a ring_op \<Rightarrow> bool" where
  "ring_op_ok (Op_enqueue_burst its) = (length its < 2 ^ 64)"
| "ring_op_ok (Op_dequeue_burst its) = (length its < 2 ^ 64)"
| "ring_op_ok _ = True"

fun ring_exec :: "size_t \<Rightarrow> 'a ring_op \<Rightarrow> 'a SpscRing \<Rightarrow> 'a ring_out \<times> 'a SpscRing" where
  "ring_exec C (Op_enqueue x) r = (let (ok, r') = enqueue C r x in (Out_bool ok, r'))"
| "ring_exec C Op_dequeue r = (let (x, r') = dequeue C r in (Out_item x, r'))"
| "ring_exec C (Op_enqueue_burst its) r =
     (let (k, r') = enqueue_burst C r its (of_nat (length its)) in (Out_count (unat k), r'))"
| "ring_exec C (Op_dequeue_burst its) r =
     (let (k, its', r') = dequeue_burst C r its (of_nat (length its)) in (Out_burst (unat k) its', r'))"
| "ring_exec C Op_size r = (Out_count (unat (ring_size r)), r)"
| "ring_exec C Op_empty r = (Out_bool (ring_empty r), r)"
| "ring_exec C Op_full r = (Out_bool (ring_full C r), r)"

fun queue_exec :: "nat \<Rightarrow> 'a ring_op \<Rightarrow> 'a list \<Rightarrow> 'a ring_out \<times> 'a list" where
  "queue_exec c (Op_enqueue x) q =
     (if length q < c then (Out_bool True, q @ [x]) else (Out_bool False, q))"
| "queue_exec c Op_dequeue q =
     (case q of [] \<Rightarrow> (Out_item None, []) | x # xs \<Rightarrow> (Out_item (Some x), xs))"
| "queue_exec c (Op_enqueue_burst its) q =
     (let k = min (length its) (c - length q) in (Out_count k, q @ take k its))"
| "queue_exec c (Op_dequeue_burst its) q =
     (let k = min (length its) (length q) in (Out_burst k (take k q @ drop k its), drop k q))"
| "queue_exec c Op_size q = (Out_count (length q), q)"
| "queue_exec c Op_empty q = (Out_bool (q = []), q)"
| "queue_exec c Op_full q = (Out_bool (c \<le> length q), q)"

primrec run_ops :: "('o \<Rightarrow> 's \<Rightarrow> 'r \<times> 's) \<Rightarrow> 'o list \<Rightarrow> 's \<Rightarrow> 'r list \<times> 's" where
  "run_ops ex [] s = ([], s)"
| "run_ops ex (op # ops) s =
     (let (out, s') = ex op s; (outs, s'') = run_ops ex ops s' in (out # outs, s''))"

lemma ring_exec_refines:
  assumes wf: "ring_wf C r" and ok: "ring_op_ok op"
  shows "ring_wf C (snd (ring_exec C op r)) \<and>
    queue_exec (unat C) op (ring_items C r) =
      (fst (ring_exec C op r), ring_items C (snd (ring_exec C op r)))"
proof (cases op)
  case (Op_enqueue x)
  with wf enqueue_room [OF wf, of x] enqueue_full [of C r x] show ?thesis
    by (cases "unat (ring_head r - ring_tail r) < unat C") auto
next
  case Op_dequeue
  show ?thesis
  proof (cases "ring_items C r")
    case Nil
    with Op_dequeue wf show ?thesis by (simp add: dequeue_empty)
  next
    case (Cons x xs)
    with Op_dequeue dequeue_item [OF wf Cons] show ?thesis by auto
  qed
next
  case (Op_enqueue_burst its)
  with ok have n: "unat (of_nat (length its) :: size_t) = length its"
    by (simp add: unat_of_nat_size)
  with Op_enqueue_burst ring.enqb_items [OF wf, of "of_nat (length its)" its] show ?thesis
    by (auto simp: Let_def)
next
  case (Op_dequeue_burst its)
  with ok have n: "unat (of_nat (length its) :: size_t) = length its"
    by (simp add: unat_of_nat_size)
  with Op_dequeue_burst ring.deqb_items [OF wf, of "of_nat (length its)" its] show ?thesis
    by (auto simp: Let_def)
next
  case Op_empty
  with wf show ?thesis
    by (auto simp: ring_empty_def ring_size_def ring_items_def unat_eq_zero)
qed (use wf in \<open>auto simp: ring_size_def ring_full_def word_le_nat_alt\<close>)

lemma ring_run_refines:
  "ring_wf C r \<Longrightarrow> list_all ring_op_ok ops \<Longrightarrow>
     queue_outs = fst (run_ops (queue_exec (unat C)) ops (ring_items C r)) \<Longrightarrow>
     fst (run_ops (ring_exec C) ops r) = queue_outs \<and>
     ring_wf C (snd (run_ops (ring_exec C) ops r)) \<and>
     ring_items C (snd (run_ops (ring_exec C) ops r))
       = snd (run_ops (queue_exec (unat C)) ops (ring_items C r))"
proof (induction ops arbitrary: r queue_outs)
  case (Cons op ops)
  then have op: "ring_wf C (snd (ring_exec C op r))"
    "queue_exec (unat C) op (ring_items C r) =
       (fst (ring_exec C op r), ring_items C (snd (ring_exec C op r)))"
    using ring_exec_refines [of C r op] by auto
  with Cons.IH [OF op(1) _ refl] Cons.prems show ?case
    by (auto simp: Let_def split: prod.splits)
qed simp

section \<open>Properties\<close>

text \<open>
  C1. Refinement. From any well-formed ring, with the two 64-bit indices anywhere,
  including about to wrap, every sequence of calls returns exactly what a bounded
  first-in first-out queue of \<open>Capacity\<close> items returns: the single and the burst
  operations, the full and empty results, the partial counts and the size queries; and the
  ring is again well-formed and holds what the queue holds.
\<close>

theorem ring_refines_queue:
  assumes "ring_wf C r" and "list_all ring_op_ok ops"
  shows "fst (run_ops (ring_exec C) ops r)
           = fst (run_ops (queue_exec (unat C)) ops (ring_items C r)) \<and>
         ring_wf C (snd (run_ops (ring_exec C) ops r)) \<and>
         ring_items C (snd (run_ops (ring_exec C) ops r))
           = snd (run_ops (queue_exec (unat C)) ops (ring_items C r))"
  using ring_run_refines [OF assms refl] .

theorem ring_refines_queue_witness:
  "let r = \<lparr>ring_head = 1, ring_tail = - 1, ring_data = [7, 0, 0, 5]\<rparr> :: nat SpscRing;
       ops = [Op_dequeue, Op_enqueue_burst [8, 9, 10], Op_dequeue, Op_full]
   in ring_wf 4 r \<and> ring_items 4 r = [5, 7] \<and>
      fst (run_ops (ring_exec 4) ops r) = [Out_item (Some 5), Out_count 3, Out_item (Some 7), Out_bool False]"
proof -
  define r where "r = (\<lparr>ring_head = 1, ring_tail = - 1, ring_data = [7, 0, 0, 5]\<rparr> :: nat SpscRing)"
  have wf: "ring_wf 4 r" by (simp add: ring_wf_def r_def pow2_def)
  have its: "ring_items 4 r = [5, 7]"
    by (simp add: ring_items_def r_def slot_def MASK_def upt_rec)
  have "list_all ring_op_ok [Op_dequeue, Op_enqueue_burst [8, 9, 10 :: nat], Op_dequeue, Op_full]"
    by simp
  from ring_refines_queue [OF wf this] wf its show ?thesis
    unfolding r_def [symmetric] Let_def by simp
qed

text \<open>
  C26. Equivalence of the burst operations with the single ones. \<open>enqueue_burst\<close> leaves the
  ring in the very state that enqueuing the accepted items one by one leaves it in, and
  accepts as many as fit; \<open>dequeue_burst\<close> hands out what that many \<open>dequeue\<close> calls hand
  out, leaves the rest of the caller's array alone and ends in the same state.
\<close>

theorem burst_equals_singles:
  assumes "ring_wf C r" and "unat n \<le> length its"
  shows "(let (k, r') = enqueue_burst C r its n
          in unat k = min (unat n) (unat C - unat (ring_size r)) \<and>
             r' = enq_list (enqueue C) r (take (unat k) its)) \<and>
         (let (k, out, r') = dequeue_burst C r its n
          in unat k = min (unat n) (unat (ring_size r)) \<and>
             deq_list (dequeue C) r (unat k) = (take (unat k) out, r') \<and>
             drop (unat k) out = drop (unat k) its)"
proof
  show "let (k, r') = enqueue_burst C r its n
        in unat k = min (unat n) (unat C - unat (ring_size r)) \<and>
           r' = enq_list (enqueue C) r (take (unat k) its)"
    using ring.enqb_iterates [OF assms] by (auto simp: ring_size_def)
  obtain k ys r' where d: "dequeue_burst C r its n = (k, ys @ drop (unat k) its, r')"
    "unat k = min (unat n) (length (ring_items C r))" "deq_list (dequeue C) r (unat k) = (ys, r')"
    using ring.deqb_iterates [OF assms] by blast
  then have "length ys = unat k"
    using ring.deq_list_items [OF assms(1), of "unat k"] by auto
  with d show "let (k, out, r') = dequeue_burst C r its n
        in unat k = min (unat n) (unat (ring_size r)) \<and>
           deq_list (dequeue C) r (unat k) = (take (unat k) out, r') \<and>
           drop (unat k) out = drop (unat k) its"
    by (simp add: ring_size_def)
qed

theorem burst_equals_singles_witness:
  "let r = SpscRing_init 8 0 :: nat SpscRing
   in ring_wf 8 r \<and> snd (enqueue_burst 8 r [1, 2, 3] 2) = enq_list (enqueue 8) r [1, 2]"
proof -
  have wf: "ring_wf 8 (SpscRing_init 8 0 :: nat SpscRing)"
    by (rule ring_init_wf) (simp add: pow2_def)
  have "unat (2 :: size_t) \<le> length [1, 2, 3 :: nat]" by simp
  from burst_equals_singles [OF wf this] wf show ?thesis
    by (auto simp: Let_def SpscRing_init_def ring_size_def split: prod.splits)
qed

end
