(* ===== verification/Spsc_Concurrent.thy ===== *)
theory Spsc_Concurrent
  imports Spsc_Ring
begin

text \<open>
  The ring of \<open>src/src/dpdk_sim/spsc_ring.h\<close> with one producer thread and one consumer thread
  running at the same time. Every load, store and array access of \<open>enqueue\<close>, \<open>dequeue\<close>,
  \<open>enqueue_burst\<close> and \<open>dequeue_burst\<close> is a step of its own, and the steps of the two
  threads interleave freely. An acquire load of the other thread's index may return an old
  value: any value the index has held since the one seen last. The two lists \<open>published\<close> and
  \<open>taken\<close> record history only; no step reads them to decide what the code does, except as the
  index values a load may return.
\<close>

section \<open>Definitions\<close>

datatype 'a put_call = Enqueue 'a | EnqueueBurst "'a list" size_t
datatype get_call = Dequeue | DequeueBurst size_t

datatype 'a producer =
    P_idle
  | P_head "'a put_call" size_t
    \<comment> \<open>own index loaded, the other's not yet\<close>
  | P_write "'a list" size_t size_t nat
    \<comment> \<open>items, index, count, and the number of items stored so far\<close>

datatype 'a consumer =
    C_idle
  | C_tail get_call size_t
  | C_read size_t size_t "'a list"
    \<comment> \<open>index, count, and the items read so far\<close>

record 'a spsc =
  ring :: "'a SpscRing"
  producer :: "'a producer"
  consumer :: "'a consumer"
  seen_tail :: nat
  seen_head :: nat
  published :: "'a list"
  taken :: "'a list"

definition spsc_init :: "size_t \<Rightarrow> 'a \<Rightarrow> 'a spsc" where
  "spsc_init C z = \<lparr>ring = SpscRing_init C z, producer = P_idle, consumer = C_idle,
     seen_tail = 0, seen_head = 0, published = [], taken = []\<rparr>"

fun put_ok :: "'a put_call \<Rightarrow> bool" where
  "put_ok (Enqueue x) = True"
| "put_ok (EnqueueBurst its n) = (unat n \<le> length its)"

fun put_check :: "size_t \<Rightarrow> 'a put_call \<Rightarrow> size_t \<Rightarrow> size_t \<Rightarrow> 'a producer" where
  "put_check C (Enqueue x) h t = (if C \<le> h - t then P_idle else P_write [x] h 1 0)"
| "put_check C (EnqueueBurst its n) h t =
     (let free = C - (h - t) in P_write its h (if n < free then n else free) 0)"

fun get_check :: "get_call \<Rightarrow> size_t \<Rightarrow> size_t \<Rightarrow> 'a consumer" where
  "get_check Dequeue t h = (if t = h then C_idle else C_read t 1 [])"
| "get_check (DequeueBurst n) t h =
     (let avail = h - t in C_read t (if n < avail then n else avail) [])"

inductive spsc_step :: "size_t \<Rightarrow> 'a spsc \<Rightarrow> 'a spsc \<Rightarrow> bool" for C :: size_t where
  put_start: "producer s = P_idle \<Longrightarrow> put_ok c \<Longrightarrow>
     spsc_step C s (s\<lparr>producer := P_head c (ring_head (ring s))\<rparr>)"
| put_load: "producer s = P_head c h \<Longrightarrow> seen_tail s \<le> v \<Longrightarrow> v \<le> length (taken s) \<Longrightarrow>
     spsc_step C s (s\<lparr>producer := put_check C c h (of_nat v), seen_tail := v\<rparr>)"
| put_store: "producer s = P_write its h cnt i \<Longrightarrow> i < unat cnt \<Longrightarrow>
     spsc_step C s (s\<lparr>ring := (ring s)\<lparr>ring_data :=
                        (ring_data (ring s))[slot C (h + of_nat i) := its ! i]\<rparr>,
                      producer := P_write its h cnt (Suc i)\<rparr>)"
| put_publish: "producer s = P_write its h cnt (unat cnt) \<Longrightarrow>
     spsc_step C s (s\<lparr>ring := (ring s)\<lparr>ring_head := h + cnt\<rparr>, producer := P_idle,
                      published := published s @ take (unat cnt) its\<rparr>)"
| get_start: "consumer s = C_idle \<Longrightarrow>
     spsc_step C s (s\<lparr>consumer := C_tail g (ring_tail (ring s))\<rparr>)"
| get_load: "consumer s = C_tail g t \<Longrightarrow> seen_head s \<le> v \<Longrightarrow> v \<le> length (published s) \<Longrightarrow>
     spsc_step C s (s\<lparr>consumer := get_check g t (of_nat v), seen_head := v\<rparr>)"
| get_read: "consumer s = C_read t cnt buf \<Longrightarrow> length buf < unat cnt \<Longrightarrow>
     spsc_step C s (s\<lparr>consumer := C_read t cnt
                        (buf @ [ring_data (ring s) ! slot C (t + of_nat (length buf))])\<rparr>)"
| get_publish: "consumer s = C_read t cnt buf \<Longrightarrow> length buf = unat cnt \<Longrightarrow>
     spsc_step C s (s\<lparr>ring := (ring s)\<lparr>ring_tail := t + cnt\<rparr>, consumer := C_idle,
                      taken := taken s @ buf\<rparr>)"

text \<open>
  \<open>size\<close>: the difference of two relaxed loads, which returned the value the head had after \<open>i\<close>
  items were published and the value the tail had after \<open>j\<close> items were taken.
\<close>

definition size_load :: "nat \<Rightarrow> nat \<Rightarrow> size_t" where
  "size_load i j = of_nat i - of_nat j"

text \<open>The array cell a thread is about to write or read.\<close>

fun writing :: "size_t \<Rightarrow> 'a producer \<Rightarrow> nat option" where
  "writing C (P_write its h cnt i) = (if i < unat cnt then Some (slot C (h + of_nat i)) else None)"
| "writing C _ = None"

fun reading :: "size_t \<Rightarrow> 'a consumer \<Rightarrow> nat option" where
  "reading C (C_read t cnt buf) =
     (if length buf < unat cnt then Some (slot C (t + of_nat (length buf))) else None)"
| "reading C _ = None"

section \<open>Invariant\<close>

fun producer_inv :: "size_t \<Rightarrow> 'a spsc \<Rightarrow> 'a producer \<Rightarrow> bool" where
  "producer_inv C s P_idle = True"
| "producer_inv C s (P_head c h) = (h = of_nat (length (published s)) \<and> put_ok c)"
| "producer_inv C s (P_write its h cnt i) =
     (h = of_nat (length (published s)) \<and> i \<le> unat cnt \<and> unat cnt \<le> length its \<and>
      length (published s) + unat cnt \<le> seen_tail s + unat C \<and>
      (\<forall>j<i. ring_data (ring s) ! slot C (of_nat (length (published s) + j)) = its ! j))"

fun consumer_inv :: "'a spsc \<Rightarrow> 'a consumer \<Rightarrow> bool" where
  "consumer_inv s C_idle = True"
| "consumer_inv s (C_tail g t) = (t = of_nat (length (taken s)))"
| "consumer_inv s (C_read t cnt buf) =
     (t = of_nat (length (taken s)) \<and> length buf \<le> unat cnt \<and>
      length (taken s) + unat cnt \<le> seen_head s \<and>
      take (length buf) (drop (length (taken s)) (published s)) = buf)"

definition spsc_inv :: "size_t \<Rightarrow> 'a spsc \<Rightarrow> bool" where
  "spsc_inv C s \<longleftrightarrow>
     pow2 C \<and> length (ring_data (ring s)) = unat C \<and>
     ring_head (ring s) = of_nat (length (published s)) \<and>
     ring_tail (ring s) = of_nat (length (taken s)) \<and>
     seen_tail s \<le> length (taken s) \<and> length (published s) \<le> seen_tail s + unat C \<and>
     length (taken s) \<le> seen_head s \<and> seen_head s \<le> length (published s) \<and>
     take (length (taken s)) (published s) = taken s \<and>
     (\<forall>i. length (taken s) \<le> i \<and> i < length (published s) \<longrightarrow>
        ring_data (ring s) ! slot C (of_nat i) = published s ! i) \<and>
     producer_inv C s (producer s) \<and> consumer_inv s (consumer s)"

lemma slot_of_nat_neq:
  assumes "pow2 C" and "i < j" and "j < i + unat C"
  shows "slot C (of_nat i) \<noteq> slot C (of_nat j)"
proof -
  have "C \<noteq> 0" using assms by auto
  with slot_neq [OF assms(1) this assms(2), of 0] assms(2,3) show ?thesis by simp
qed

lemma slot_of_nat_less: "pow2 C \<Longrightarrow> 0 < unat C \<Longrightarrow> slot C (of_nat i) < unat C"
  by (rule slot_less) (auto simp: unat_gt_0)

lemma spsc_init_inv: "pow2 C \<Longrightarrow> spsc_inv C (spsc_init C z)"
  by (simp add: spsc_inv_def spsc_init_def SpscRing_init_def)

text \<open>What a thread may conclude from the two indices it has loaded.\<close>

lemma put_dist:
  fixes C :: size_t
  assumes "length (published s) \<le> v + unat C" and "v \<le> length (published s)"
  shows "unat (of_nat (length (published s)) - of_nat v :: size_t) = length (published s) - v"
proof -
  have "(of_nat (length (published s)) - of_nat v :: size_t) = of_nat (length (published s) - v)"
    using assms(2) by simp
  moreover have "length (published s) - v < 2 ^ 64"
    using assms(1) unat_size_t_less [of C] by linarith
  ultimately show ?thesis by (simp add: unat_of_nat)
qed

lemma put_check_inv:
  assumes "put_ok c" and "length (published s) \<le> v + unat C" and "v \<le> length (published s)"
    and "h = of_nat (length (published s))"
  shows "producer_inv C (s\<lparr>producer := p, seen_tail := v\<rparr>) (put_check C c h (of_nat v))"
proof -
  let ?d = "of_nat (length (published s)) - of_nat v :: size_t"
  have d: "unat ?d = length (published s) - v" using put_dist [OF assms(2,3)] .
  then have "unat (C - ?d) = unat C - (length (published s) - v)"
    using assms(2) by (subst unat_sub) (auto simp: word_le_nat_alt)
  with d assms show ?thesis
    by (cases c) (auto simp: Let_def word_le_nat_alt word_less_nat_alt)
qed

lemma get_check_inv:
  fixes C :: size_t
  assumes "length (taken s) \<le> v" and "v \<le> length (published s)"
    and "length (published s) \<le> length (taken s) + unat C"
    and "t = of_nat (length (taken s))"
  shows "consumer_inv (s\<lparr>consumer := p, seen_head := v\<rparr>) (get_check g t (of_nat v))"
proof -
  have "(of_nat v - of_nat (length (taken s)) :: size_t) = of_nat (v - length (taken s))"
    using assms(1) by simp
  moreover have "v - length (taken s) < 2 ^ 64"
    using assms(2,3) unat_size_t_less [of C] by linarith
  ultimately have d: "unat (of_nat v - of_nat (length (taken s)) :: size_t) = v - length (taken s)"
    by (simp add: unat_of_nat)
  show ?thesis
  proof (cases g)
    case Dequeue
    have "length (taken s) < v" if "of_nat (length (taken s)) \<noteq> (of_nat v :: size_t)"
      using that assms(1) by (metis le_neq_implies_less)
    with Dequeue assms show ?thesis by auto
  next
    case (DequeueBurst n)
    with d assms show ?thesis by (auto simp: Let_def word_less_nat_alt)
  qed
qed

lemma spsc_inv_cell:
  "spsc_inv C s \<Longrightarrow> length (taken s) \<le> i \<Longrightarrow> i < length (published s) \<Longrightarrow>
     ring_data (ring s) ! slot C (of_nat i) = published s ! i"
  by (simp add: spsc_inv_def)

text \<open>The steps that store to the ring or read a cell of it.\<close>

lemma put_store_inv:
  assumes inv: "spsc_inv C s" and pc: "producer s = P_write its h cnt i" and i: "i < unat cnt"
  shows "spsc_inv C (s\<lparr>ring := (ring s)\<lparr>ring_data :=
            (ring_data (ring s))[slot C (h + of_nat i) := its ! i]\<rparr>,
          producer := P_write its h cnt (Suc i)\<rparr>)"
proof -
  let ?E = "length (published s)" and ?D = "length (taken s)"
  let ?w = "slot C (of_nat (?E + i))"
  have C: "pow2 C" "length (ring_data (ring s)) = unat C" and h: "h = of_nat ?E"
    and room: "?E + unat cnt \<le> ?D + unat C" and DE: "?D \<le> ?E"
    and stored: "\<forall>j<i. ring_data (ring s) ! slot C (of_nat (?E + j)) = its ! j"
    using inv pc by (auto simp: spsc_inv_def)
  have bound: "?w < unat C" using C room i DE by (intro slot_of_nat_less) auto
  have old: "slot C (of_nat j) \<noteq> ?w" if "?D \<le> j" "j < ?E + i" for j
    using that room i by (intro slot_of_nat_neq [OF C(1)]) auto
  have new: "?w \<noteq> slot C (of_nat (?E + j))" if "j < i" for j
    using old [of "?E + j"] that DE by auto
  have "\<forall>j<Suc i. (ring_data (ring s))[?w := its ! i] ! slot C (of_nat (?E + j)) = its ! j"
    using stored new C(2) bound by (auto simp: less_Suc_eq simp del: of_nat_add)
  moreover have "(ring_data (ring s))[?w := its ! i] ! slot C (of_nat j) = published s ! j"
    if "?D \<le> j" "j < ?E" for j
    using old [of j] spsc_inv_cell [OF inv that] that by (metis nth_list_update_neq trans_less_add1)
  moreover have "consumer_inv (s\<lparr>ring := (ring s)\<lparr>ring_data := (ring_data (ring s))[?w := its ! i]\<rparr>,
      producer := P_write its h cnt (Suc i)\<rparr>) (consumer s)"
    using inv by (cases "consumer s") (auto simp: spsc_inv_def)
  ultimately show ?thesis
    using inv pc i h by (simp add: spsc_inv_def)
qed

lemma put_publish_inv:
  assumes inv: "spsc_inv C s" and pc: "producer s = P_write its h cnt (unat cnt)"
  shows "spsc_inv C (s\<lparr>ring := (ring s)\<lparr>ring_head := h + cnt\<rparr>, producer := P_idle,
          published := published s @ take (unat cnt) its\<rparr>)"
proof -
  let ?E = "length (published s)" and ?D = "length (taken s)"
  have stored: "\<forall>j<unat cnt. ring_data (ring s) ! slot C (of_nat (?E + j)) = its ! j"
    and bounds: "?D \<le> ?E" "unat cnt \<le> length its"
    using inv pc by (auto simp: spsc_inv_def)
  have "ring_data (ring s) ! slot C (of_nat i) = (published s @ take (unat cnt) its) ! i"
    if "?D \<le> i" "i < ?E + unat cnt" for i
    using that stored [rule_format, of "i - ?E"] spsc_inv_cell [OF inv, of i]
    by (auto simp: nth_append)
  moreover have "consumer_inv (s\<lparr>ring := (ring s)\<lparr>ring_head := h + cnt\<rparr>, producer := P_idle,
          published := published s @ take (unat cnt) its\<rparr>) (consumer s)"
    using inv by (cases "consumer s") (auto simp: spsc_inv_def)
  ultimately show ?thesis
    using inv pc bounds by (auto simp: spsc_inv_def)
qed

lemma get_read_inv:
  assumes inv: "spsc_inv C s" and pc: "consumer s = C_read t cnt buf" and n: "length buf < unat cnt"
  shows "spsc_inv C (s\<lparr>consumer := C_read t cnt
           (buf @ [ring_data (ring s) ! slot C (t + of_nat (length buf))])\<rparr>)"
proof -
  let ?i = "length (taken s) + length buf"
  have "?i < length (published s)" using inv pc n by (auto simp: spsc_inv_def)
  moreover from this have "ring_data (ring s) ! slot C (of_nat ?i) = published s ! ?i"
    by (intro spsc_inv_cell [OF inv]) auto
  moreover have "take (length buf) (drop (length (taken s)) (published s)) = buf"
    using inv pc by (simp add: spsc_inv_def)
  ultimately have "buf @ [ring_data (ring s) ! slot C (of_nat ?i)]
      = take (Suc (length buf)) (drop (length (taken s)) (published s))"
    by (simp add: take_Suc_conv_app_nth)
  then show ?thesis
    using inv pc n by (auto simp: spsc_inv_def elim!: producer_inv.elims)
qed

lemma get_publish_inv:
  assumes inv: "spsc_inv C s" and pc: "consumer s = C_read t cnt buf" and n: "length buf = unat cnt"
  shows "spsc_inv C (s\<lparr>ring := (ring s)\<lparr>ring_tail := t + cnt\<rparr>, consumer := C_idle,
          taken := taken s @ buf\<rparr>)"
proof -
  have "take (length (taken s) + unat cnt) (published s) = taken s @ buf"
    using inv pc n by (simp add: spsc_inv_def take_add)
  with inv pc n show ?thesis
    by (auto simp: spsc_inv_def elim!: producer_inv.elims)
qed

text \<open>The steps that only load an index.\<close>

lemma put_start_inv:
  "spsc_inv C s \<Longrightarrow> put_ok c \<Longrightarrow> spsc_inv C (s\<lparr>producer := P_head c (ring_head (ring s))\<rparr>)"
  by (auto simp: spsc_inv_def elim!: consumer_inv.elims)

lemma get_start_inv:
  "spsc_inv C s \<Longrightarrow> spsc_inv C (s\<lparr>consumer := C_tail g (ring_tail (ring s))\<rparr>)"
  by (cases "producer s") (auto simp: spsc_inv_def)

lemma put_load_inv:
  assumes inv: "spsc_inv C s" and pc: "producer s = P_head c h"
    and v: "seen_tail s \<le> v" "v \<le> length (taken s)"
  shows "spsc_inv C (s\<lparr>producer := put_check C c h (of_nat v), seen_tail := v\<rparr>)"
proof -
  have "producer_inv C (s\<lparr>producer := put_check C c h (of_nat v), seen_tail := v\<rparr>)
          (put_check C c h (of_nat v))"
    using inv pc v by (intro put_check_inv) (auto simp: spsc_inv_def)
  then show ?thesis
    using inv v by (cases "consumer s") (auto simp: spsc_inv_def)
qed

lemma get_load_inv:
  assumes inv: "spsc_inv C s" and pc: "consumer s = C_tail g t"
    and v: "seen_head s \<le> v" "v \<le> length (published s)"
  shows "spsc_inv C (s\<lparr>consumer := get_check g t (of_nat v), seen_head := v\<rparr>)"
proof -
  have "consumer_inv (s\<lparr>consumer := get_check g t (of_nat v), seen_head := v\<rparr>)
          (get_check g t (of_nat v))"
    using inv pc v by (intro get_check_inv [where C = C]) (auto simp: spsc_inv_def)
  then show ?thesis
    using inv v by (cases "producer s") (auto simp: spsc_inv_def)
qed

lemmas spsc_step_invs = put_start_inv put_load_inv put_store_inv put_publish_inv
  get_start_inv get_load_inv get_read_inv get_publish_inv

lemma spsc_step_inv: "spsc_inv C s \<Longrightarrow> spsc_step C s s' \<Longrightarrow> spsc_inv C s'"
  by (erule spsc_step.cases) (auto intro: spsc_step_invs)

interpretation spsc: step_invariant "\<lambda>s. pow2 C \<and> (\<exists>z. s = spsc_init C z)" "spsc_step C" "spsc_inv C"
  for C :: size_t
  by unfold_locales (auto intro: spsc_init_inv spsc_step_inv)

definition spsc_reachable :: "size_t \<Rightarrow> 'a spsc \<Rightarrow> bool" where
  "spsc_reachable C s \<longleftrightarrow> reach (\<lambda>s. pow2 C \<and> (\<exists>z. s = spsc_init C z)) (spsc_step C) s"

lemma spsc_reachable_inv: "spsc_reachable C s \<Longrightarrow> spsc_inv C s"
  unfolding spsc_reachable_def by (rule spsc.reach_inv)

lemma spsc_reachable_init: "pow2 C \<Longrightarrow> spsc_reachable C (spsc_init C z)"
  unfolding spsc_reachable_def by (rule reach_init) auto

lemma spsc_reachable_step: "spsc_reachable C s \<Longrightarrow> spsc_step C s t \<Longrightarrow> spsc_reachable C t"
  unfolding spsc_reachable_def by (rule reach_step)

lemma spsc_inv_no_race:
  assumes inv: "spsc_inv C s" and w: "writing C (producer s) = Some w"
    and r: "reading C (consumer s) = Some r"
  shows "w \<noteq> r"
proof -
  let ?E = "length (published s)" and ?D = "length (taken s)"
  obtain its h cnt i where P: "producer s = P_write its h cnt i" "i < unat cnt"
    "w = slot C (h + of_nat i)"
    using w by (cases "producer s") (auto split: if_splits)
  obtain t cnt' buf where Q: "consumer s = C_read t cnt' buf" "length buf < unat cnt'"
    "r = slot C (t + of_nat (length buf))"
    using r by (cases "consumer s") (auto split: if_splits)
  have "w = slot C (of_nat (?E + i))" and "r = slot C (of_nat (?D + length buf))"
    and "?D + length buf < ?E + i" and "?E + i < ?D + length buf + unat C"
    using inv P Q by (auto simp: spsc_inv_def)
  then show ?thesis
    using inv slot_of_nat_neq [of C "?D + length buf" "?E + i"] by (auto simp: spsc_inv_def)
qed

section \<open>Properties\<close>

text \<open>
  C2. One producer and one consumer, any interleaving of their loads and stores, stale
  index loads included: what the consumer has taken is always a prefix of what the producer
  has published, so nothing is lost, duplicated or reordered, and at most \<open>Capacity\<close> items
  are in between; a consumer in the middle of a call has read exactly the next items.
\<close>

theorem spsc_fifo:
  assumes "spsc_reachable C s"
  shows "(\<exists>rest. published s = taken s @ rest \<and> length rest \<le> unat C) \<and>
         (\<forall>t cnt buf. consumer s = C_read t cnt buf \<longrightarrow>
            (\<exists>rest. published s = taken s @ buf @ rest))"
proof
  note inv = spsc_reachable_inv [OF assms]
  have split: "published s = taken s @ drop (length (taken s)) (published s)"
    using inv by (metis append_take_drop_id spsc_inv_def)
  have "length (drop (length (taken s)) (published s)) \<le> unat C"
    using inv by (auto simp: spsc_inv_def)
  with split show "\<exists>rest. published s = taken s @ rest \<and> length rest \<le> unat C" by blast
  show "\<forall>t cnt buf. consumer s = C_read t cnt buf \<longrightarrow> (\<exists>rest. published s = taken s @ buf @ rest)"
  proof (intro allI impI)
    fix t cnt buf assume "consumer s = C_read t cnt buf"
    then have "take (length buf) (drop (length (taken s)) (published s)) = buf"
      using inv by (simp add: spsc_inv_def)
    then have "drop (length (taken s)) (published s)
        = buf @ drop (length buf) (drop (length (taken s)) (published s))"
      by (metis append_take_drop_id)
    with split show "\<exists>rest. published s = taken s @ buf @ rest" by metis
  qed
qed

text \<open>A run: an \<open>enqueue\<close>, the loads of a \<open>dequeue\<close>, then its read or a second \<open>enqueue\<close>.\<close>

definition spsc_ex :: "nat list \<Rightarrow> nat producer \<Rightarrow> nat spsc" where
  "spsc_ex buf pc = \<lparr>ring = \<lparr>ring_head = 1, ring_tail = 0, ring_data = [7, 0]\<rparr>, producer = pc,
     consumer = C_read 0 1 buf, seen_tail = 0, seen_head = 1, published = [7], taken = []\<rparr>"

lemma spsc_ex_run: "(spsc_step 2)\<^sup>*\<^sup>* (spsc_init 2 0) (spsc_ex [] P_idle)"
proof -
  let ?s0 = "\<lparr>ring = \<lparr>ring_head = 0, ring_tail = 0, ring_data = [0, 0]\<rparr>, producer = P_idle,
     consumer = C_idle, seen_tail = 0, seen_head = 0, published = [], taken = []\<rparr> :: nat spsc"
  let ?s1 = "?s0\<lparr>producer := P_head (Enqueue 7) 0\<rparr>"
  let ?s2 = "?s0\<lparr>producer := P_write [7] 0 1 0\<rparr>"
  let ?s3 = "?s0\<lparr>producer := P_write [7] 0 1 1, ring := \<lparr>ring_head = 0, ring_tail = 0, ring_data = [7, 0]\<rparr>\<rparr>"
  let ?s4 = "?s0\<lparr>ring := \<lparr>ring_head = 1, ring_tail = 0, ring_data = [7, 0]\<rparr>, published := [7]\<rparr>"
  let ?s5 = "?s4\<lparr>consumer := C_tail Dequeue 0\<rparr>"
  note defs = slot_def MASK_def spsc_ex_def
  have "replicate 2 (0::nat) = [0, 0]" by (simp add: numeral_2_eq_2)
  then have s0: "spsc_init 2 0 = ?s0" by (simp add: spsc_init_def SpscRing_init_def)
  have s1: "spsc_step 2 ?s0 ?s1" using put_start [of ?s0 "Enqueue 7" 2] by simp
  have s2: "spsc_step 2 ?s1 ?s2" using put_load [of ?s1 "Enqueue 7" 0 0 2] by simp
  have s3: "spsc_step 2 ?s2 ?s3" using put_store [of ?s2 "[7]" 0 1 0 2] by (simp add: defs)
  have s4: "spsc_step 2 ?s3 ?s4" using put_publish [of ?s3 "[7]" 0 1 2] by simp
  have s5: "spsc_step 2 ?s4 ?s5" using get_start [of ?s4 2 Dequeue] by simp
  have s6: "spsc_step 2 ?s5 (spsc_ex [] P_idle)"
    using get_load [of ?s5 Dequeue 0 1 2] by (simp add: defs)
  note step = rtranclp.rtrancl_into_rtrancl [where r = "spsc_step 2"]
  show ?thesis
    unfolding s0 by (rule step [OF step [OF step [OF step [OF step [OF step [OF rtranclp.rtrancl_refl s1] s2] s3] s4] s5] s6])
qed

lemma spsc_reachable_steps: "(spsc_step C)\<^sup>*\<^sup>* s t \<Longrightarrow> spsc_reachable C s \<Longrightarrow> spsc_reachable C t"
  by (induction rule: rtranclp_induct) (auto intro: spsc_reachable_step)

lemma spsc_ex_start: "spsc_reachable 2 (spsc_ex [] P_idle)"
  by (rule spsc_reachable_steps [OF spsc_ex_run spsc_reachable_init]) (simp add: pow2_def)

lemma spsc_ex_read: "spsc_reachable 2 (spsc_ex [7] P_idle)"
  using spsc_reachable_step [OF spsc_ex_start get_read [of "spsc_ex [] P_idle" 0 1 "[]" 2]]
  by (simp add: spsc_ex_def slot_def MASK_def)

lemma spsc_ex_write: "spsc_reachable 2 (spsc_ex [] (P_write [8] 1 1 0))"
proof -
  have "spsc_step 2 (spsc_ex [] P_idle) (spsc_ex [] (P_head (Enqueue 8) 1))"
    using put_start [of "spsc_ex [] P_idle" "Enqueue 8" 2] by (simp add: spsc_ex_def)
  moreover have "spsc_step 2 (spsc_ex [] (P_head (Enqueue 8) 1)) (spsc_ex [] (P_write [8] 1 1 0))"
    using put_load [of "spsc_ex [] (P_head (Enqueue 8) 1)" "Enqueue 8" 1 0 2]
    by (simp add: spsc_ex_def word_le_nat_alt)
  ultimately show ?thesis using spsc_ex_start spsc_reachable_step by metis
qed

theorem spsc_fifo_witness:
  "spsc_reachable 2 (spsc_ex [7] P_idle) \<and> consumer (spsc_ex [7] P_idle) = C_read 0 1 [7] \<and>
   (\<exists>rest. published (spsc_ex [7] P_idle) = taken (spsc_ex [7] P_idle) @ [7] @ rest)"
  using spsc_ex_read spsc_fifo [OF spsc_ex_read] by (simp add: spsc_ex_def)

text \<open>
  C23. The two threads never touch the same array cell at the same time: when the producer
  is about to store an item and the consumer about to read one, the cells differ, and both
  are inside the array.
\<close>

theorem spsc_no_data_race:
  assumes "spsc_reachable C s" and "writing C (producer s) = Some w"
    and "reading C (consumer s) = Some r"
  shows "w \<noteq> r \<and> w < unat C \<and> r < unat C"
proof -
  note inv = spsc_reachable_inv [OF assms(1)]
  have "w \<noteq> r" using spsc_inv_no_race [OF inv assms(2,3)] .
  moreover have C: "pow2 C" using inv by (simp add: spsc_inv_def)
  moreover have "C \<noteq> 0"
    using inv assms(3) by (cases "consumer s") (auto simp: spsc_inv_def split: if_splits)
  ultimately show ?thesis
    using assms(2,3) slot_less [OF C]
    by (cases "producer s"; cases "consumer s") (auto split: if_splits)
qed

theorem spsc_no_data_race_witness:
  "let s = spsc_ex [] (P_write [8] 1 1 0)
   in spsc_reachable 2 s \<and> writing 2 (producer s) = Some 1 \<and> reading 2 (consumer s) = Some 0 \<and>
      (1::nat) \<noteq> 0 \<and> (1::nat) < unat (2 :: size_t)"
proof -
  let ?s = "spsc_ex [] (P_write [8] 1 1 0)"
  have "writing 2 (producer ?s) = Some 1" and "reading 2 (consumer ?s) = Some 0"
    by (simp_all add: spsc_ex_def slot_def MASK_def)
  with spsc_no_data_race [OF spsc_ex_write this] spsc_ex_write show ?thesis by simp
qed

text \<open>
  C24. What \<open>size\<close> returns to the two threads of the ring. To the producer it is at least the
  number of items in the ring and never more than \<open>Capacity\<close>; to the consumer it is at most the
  number of items in the ring: each may rely on it for its own next call.
\<close>

theorem size_by_thread:
  assumes "spsc_reachable C s"
  shows "(\<forall>v. seen_tail s \<le> v \<and> v \<le> length (taken s) \<longrightarrow>
        ring_size (ring s) \<le> size_load (length (published s)) v \<and> size_load (length (published s)) v \<le> C) \<and>
     (\<forall>v. seen_head s \<le> v \<and> v \<le> length (published s) \<longrightarrow> size_load v (length (taken s)) \<le> ring_size (ring s))"
proof -
  note inv = spsc_reachable_inv [OF assms]
  let ?n = "length (published s)" and ?m = "length (taken s)"
  have le: "seen_tail s \<le> ?m" "?n \<le> seen_tail s + unat C" "?m \<le> seen_head s" "seen_head s \<le> ?n"
    using inv by (simp_all add: spsc_inv_def)
  have size: "ring_size (ring s) = size_load ?n ?m" using inv by (simp add: spsc_inv_def ring_size_def size_load_def)
  have diff: "unat (size_load i j) = i - j" if "j \<le> i" "i \<le> j + unat C" for i j
  proof -
    have "size_load i j = of_nat (i - j)" using that(1) by (simp add: size_load_def)
    moreover have "i - j < 2 ^ 64" using that(2) unat_size_t_less [of C] by linarith
    ultimately show ?thesis by (simp add: unat_of_nat)
  qed
  show ?thesis unfolding size word_le_nat_alt using le diff by auto
qed

theorem size_by_thread_witness:
  "ring_size (ring (spsc_ex [] P_idle)) \<le> size_load 1 0 \<and> size_load 1 0 \<le> (2 :: size_t)"
  using size_by_thread [OF spsc_ex_start] by (simp add: spsc_ex_def)


end
