(* ===== verification/Memory_Pool.thy ===== *)
theory Memory_Pool
  imports Spsc_Ring "HOL-Library.Multiset"
begin

text \<open>
  \<open>src/src/dpdk_sim/memory_pool.h\<close>, class \<open>MemoryPool<T, PoolSize>\<close>. A pointer is null or the
  address of a block of \<open>storage_\<close>, named by the block's index. The pool never reads or
  writes the blocks, so the record holds the free list and the counter; what the blocks
  contain is part of the packet processor's state. \<open>PoolSize\<close> is the argument \<open>P\<close>.
\<close>

section \<open>Definitions\<close>

datatype ptr = Null | Slot nat

record MemoryPool =
  free_ring :: "ptr SpscRing"
  total_allocs_ctr :: size_t

definition MemoryPool_ctor :: "size_t \<Rightarrow> MemoryPool" where
  "MemoryPool_ctor P =
     \<lparr>free_ring = fold (\<lambda>i r. snd (enqueue P r (Slot i))) [0..<unat P] (SpscRing_init P Null),
      total_allocs_ctr = 0\<rparr>"

definition alloc :: "size_t \<Rightarrow> MemoryPool \<Rightarrow> ptr \<times> MemoryPool" where
  "alloc P p =
     (case dequeue P (free_ring p) of
        (Some obj, r) \<Rightarrow> (obj, p\<lparr>free_ring := r, total_allocs_ctr := total_allocs_ctr p + 1\<rparr>)
      | (None, r) \<Rightarrow> (Null, p\<lparr>free_ring := r\<rparr>))"

definition pool_free :: "size_t \<Rightarrow> MemoryPool \<Rightarrow> ptr \<Rightarrow> MemoryPool" where
  "pool_free P p obj = p\<lparr>free_ring := snd (enqueue P (free_ring p) obj)\<rparr>"

function alloc_burst_loop ::
  "size_t \<Rightarrow> MemoryPool \<Rightarrow> ptr list \<Rightarrow> size_t \<Rightarrow> size_t \<Rightarrow> size_t \<times> ptr list \<times> MemoryPool" where
  "alloc_burst_loop P p objs got n =
     (if got < n then
        (case dequeue P (free_ring p) of
           (None, r) \<Rightarrow> (got, objs, p\<lparr>free_ring := r\<rparr>)
         | (Some obj, r) \<Rightarrow>
             alloc_burst_loop P (p\<lparr>free_ring := r, total_allocs_ctr := total_allocs_ctr p + 1\<rparr>)
               (objs[unat got := obj]) (got + 1) n)
      else (got, objs, p))"
  by pat_completeness auto
termination
  by (relation "measure (\<lambda>(P, p, objs, got, n). unat n - unat got)")
     (auto simp: unat_Suc_of_less word_less_nat_alt intro!: diff_less_mono2)

definition alloc_burst ::
  "size_t \<Rightarrow> MemoryPool \<Rightarrow> ptr list \<Rightarrow> size_t \<Rightarrow> size_t \<times> ptr list \<times> MemoryPool" where
  "alloc_burst P p objs n = alloc_burst_loop P p objs 0 n"

definition free_burst :: "size_t \<Rightarrow> MemoryPool \<Rightarrow> ptr list \<Rightarrow> size_t \<Rightarrow> MemoryPool" where
  "free_burst P p objs n = p\<lparr>free_ring := snd (enqueue_burst P (free_ring p) objs n)\<rparr>"

definition available :: "MemoryPool \<Rightarrow> size_t" where
  "available p = ring_size (free_ring p)"

definition in_use :: "size_t \<Rightarrow> MemoryPool \<Rightarrow> size_t" where
  "in_use P p = P - available p"

definition total_allocs :: "MemoryPool \<Rightarrow> size_t" where
  "total_allocs p = total_allocs_ctr p"

definition pool_capacity :: "size_t \<Rightarrow> size_t" where
  "pool_capacity P = P"

declare alloc_def [pool_defs] pool_free_def [pool_defs] alloc_burst_def [pool_defs]
  free_burst_def [pool_defs] available_def [pool_defs] in_use_def [pool_defs]
  total_allocs_def [pool_defs] pool_capacity_def [pool_defs]
declare alloc_burst_loop.simps [simp del]

section \<open>Who holds which block\<close>

abbreviation free_list :: "size_t \<Rightarrow> MemoryPool \<Rightarrow> ptr list" where
  "free_list P p \<equiv> ring_items P (free_ring p)"

definition all_slots :: "size_t \<Rightarrow> ptr list" where
  "all_slots P = map Slot [0..<unat P]"

text \<open>
  Every block is either in the free list or held by exactly one client; \<open>held\<close> is the
  multiset of pointers handed out and not yet returned.
\<close>

definition pool_inv :: "size_t \<Rightarrow> MemoryPool \<Rightarrow> ptr multiset \<Rightarrow> bool" where
  "pool_inv P p held \<longleftrightarrow>
     ring_wf P (free_ring p) \<and> mset (free_list P p) + held = mset (all_slots P)"

text \<open>
  A client that returns only what it holds: the operations it may call and what it holds
  afterwards. \<open>None\<close> marks a call outside this discipline.
\<close>

datatype pool_op = Alloc | Free ptr | AllocBurst size_t | FreeBurst "ptr list"

fun pool_step :: "size_t \<Rightarrow> MemoryPool \<times> ptr multiset \<Rightarrow> pool_op \<Rightarrow> (MemoryPool \<times> ptr multiset) option" where
  "pool_step P (p, held) Alloc =
     (let (obj, p') = alloc P p in Some (p', if obj = Null then held else add_mset obj held))"
| "pool_step P (p, held) (Free obj) =
     (if obj \<in># held then Some (pool_free P p obj, held - {#obj#}) else None)"
| "pool_step P (p, held) (AllocBurst n) =
     (let (got, objs, p') = alloc_burst P p (replicate (unat n) Null) n
      in Some (p', held + mset (take (unat got) objs)))"
| "pool_step P (p, held) (FreeBurst objs) =
     (if mset objs \<subseteq># held \<and> length objs < 2 ^ 64
      then Some (free_burst P p objs (of_nat (length objs)), held - mset objs) else None)"

fun pool_run :: "size_t \<Rightarrow> MemoryPool \<times> ptr multiset \<Rightarrow> pool_op list \<Rightarrow> (MemoryPool \<times> ptr multiset) option" where
  "pool_run P s [] = Some s"
| "pool_run P s (op # ops) = (case pool_step P s op of None \<Rightarrow> None | Some s' \<Rightarrow> pool_run P s' ops)"

section \<open>Lemmas\<close>

lemma all_slots_props [simp]:
  "length (all_slots P) = unat P" "distinct (all_slots P)" "Null \<notin> set (all_slots P)"
  by (auto simp: all_slots_def distinct_map inj_on_def)

lemma fold_enqueue:
  "fold (\<lambda>i r. snd (enqueue P r (f i))) is r = enq_list (enqueue P) r (map f is)"
  by (induction "is" arbitrary: r) auto

lemma MemoryPool_ctor_free:
  assumes "pow2 P"
  shows "ring_wf P (free_ring (MemoryPool_ctor P)) \<and> free_list P (MemoryPool_ctor P) = all_slots P"
  using ring.enq_list_room [OF ring_init_wf [OF assms], of Null "all_slots P"]
  by (simp add: MemoryPool_ctor_def fold_enqueue ring_init_items all_slots_def)

lemma pool_ctor_inv: "pow2 P \<Longrightarrow> pool_inv P (MemoryPool_ctor P) {#}"
  using MemoryPool_ctor_free by (simp add: pool_inv_def)

lemma pool_inv_size: "pool_inv P p held \<Longrightarrow> length (free_list P p) + size held = unat P"
  unfolding pool_inv_def by (metis all_slots_props(1) size_mset size_union)

lemma pool_inv_count: "pool_inv P p held \<Longrightarrow> count_list (free_list P p) x + count held x \<le> 1"
proof -
  assume "pool_inv P p held"
  then have "count (mset (free_list P p) + held) x = count (mset (all_slots P)) x"
    by (simp add: pool_inv_def)
  also have "\<dots> \<le> 1" using all_slots_props(2) [of P]
    by (metis distinct_count_atmost_1 le_numeral_extra(1,4))
  finally show ?thesis by (simp add: count_mset)
qed

lemma alloc_exhausted: "free_list P p = [] \<Longrightarrow> alloc P p = (Null, p)"
  by (simp add: alloc_def dequeue_empty)

lemma alloc_item:
  assumes "ring_wf P (free_ring p)" and "free_list P p = x # xs"
  shows "\<exists>p'. alloc P p = (x, p') \<and> ring_wf P (free_ring p') \<and> free_list P p' = xs \<and>
    total_allocs_ctr p' = total_allocs_ctr p + 1"
  using dequeue_item [OF assms] by (auto simp: alloc_def)

lemma pool_free_room:
  assumes "ring_wf P (free_ring p)" and "length (free_list P p) < unat P"
  shows "ring_wf P (free_ring (pool_free P p x)) \<and>
    free_list P (pool_free P p x) = free_list P p @ [x]"
  using assms by (simp add: pool_free_def ring.enq_wf ring.enq_items)

lemma free_burst_room:
  assumes "ring_wf P (free_ring p)" and "length (free_list P p) + unat n \<le> unat P"
    and "unat n \<le> length objs"
  shows "ring_wf P (free_ring (free_burst P p objs n)) \<and>
    free_list P (free_burst P p objs n) = free_list P p @ take (unat n) objs"
  using ring.enqb_items [OF assms(1,3)] assms(2) by (auto simp: free_burst_def min_def)

lemma alloc_burst_loop_items:
  assumes "ring_wf P (free_ring p)" and "got \<le> n" and "unat n \<le> length objs"
  shows "\<exists>p' k. k = min (unat n - unat got) (length (free_list P p)) \<and>
     alloc_burst_loop P p objs got n =
       (got + of_nat k,
        take (unat got) objs @ take k (free_list P p) @ drop (unat got + k) objs, p') \<and>
     ring_wf P (free_ring p') \<and> free_list P p' = drop k (free_list P p) \<and>
     total_allocs_ctr p' = total_allocs_ctr p + of_nat k"
  using assms
proof (induction P p objs got n rule: alloc_burst_loop.induct)
  case (1 P p objs got n)
  show ?case
  proof (cases "got < n")
    case False
    with "1.prems"(2) have "got = n" by simp
    with "1.prems" show ?thesis by (simp add: alloc_burst_loop.simps [of P p objs n n])
  next
    case less: True
    then have got: "unat (got + 1) = Suc (unat got)" "unat got < unat n"
      by (simp_all add: unat_Suc_of_less word_less_nat_alt)
    show ?thesis
    proof (cases "free_list P p")
      case Nil
      with less show ?thesis
        using "1.prems" by (simp add: alloc_burst_loop.simps [of P p objs got n] dequeue_empty)
    next
      case (Cons x xs)
      obtain r where r: "dequeue P (free_ring p) = (Some x, r)" "ring_wf P r" "ring_items P r = xs"
        using dequeue_item [OF "1.prems"(1) Cons] by blast
      let ?p = "p\<lparr>free_ring := r, total_allocs_ctr := total_allocs_ctr p + 1\<rparr>"
      let ?o = "objs[unat got := x]" and ?k = "min (unat n - Suc (unat got)) (length xs)"
      have "got + 1 \<le> n" using got by (simp add: word_le_nat_alt)
      with "1.IH" [OF less r(1) [symmetric] refl] r "1.prems"(3) obtain p' where
        p': "alloc_burst_loop P ?p ?o (got + 1) n = (got + 1 + of_nat ?k,
               take (Suc (unat got)) ?o @ take ?k xs @ drop (Suc (unat got) + ?k) ?o, p')"
            "ring_wf P (free_ring p')" "free_list P p' = drop ?k xs"
            "total_allocs_ctr p' = total_allocs_ctr p + 1 + of_nat ?k"
        by (auto simp: got)
      have "min (unat n - unat got) (length (free_list P p)) = Suc ?k"
        using got Cons by auto
      moreover have "take (Suc (unat got)) ?o = take (unat got) objs @ [x]"
        using got "1.prems"(3) by (simp add: take_Suc_conv_app_nth)
      ultimately show ?thesis
        using less r p' Cons
        by (simp add: alloc_burst_loop.simps [of P p objs got n] algebra_simps)
    qed
  qed
qed

lemma alloc_burst_items:
  assumes "ring_wf P (free_ring p)" and "unat n \<le> length objs"
  shows "\<exists>got p'. unat got = min (unat n) (length (free_list P p)) \<and>
     alloc_burst P p objs n = (got, take (unat got) (free_list P p) @ drop (unat got) objs, p') \<and>
     ring_wf P (free_ring p') \<and> free_list P p' = drop (unat got) (free_list P p) \<and>
     total_allocs_ctr p' = total_allocs_ctr p + got"
proof -
  let ?k = "min (unat n) (length (free_list P p))"
  have "unat (of_nat ?k :: size_t) = ?k"
    using unat_size_t_less [of n] by (intro unat_of_nat_size) linarith
  with alloc_burst_loop_items [OF assms(1), of 0 n objs] assms(2) show ?thesis
    by (auto simp: alloc_burst_def)
qed

lemma mset_take_drop: "mset (take k xs) + mset (drop k xs) = mset xs"
  by (metis append_take_drop_id mset_append)

lemma pool_step_inv:
  assumes inv: "pool_inv P p held" and step: "pool_step P (p, held) op = Some (p', held')"
  shows "pool_inv P p' held'"
proof (cases op)
  case Alloc
  show ?thesis
  proof (cases "free_list P p")
    case Nil
    with inv step Alloc show ?thesis by (auto simp: alloc_exhausted)
  next
    case (Cons x xs)
    then have "x \<noteq> Null"
      using inv all_slots_props(3) [of P] unfolding pool_inv_def
      by (metis mset_eq_setD set_mset_mset union_iff list.set_intros(1) set_mset_union UnI1)
    with alloc_item [of P p x xs] Cons inv step Alloc show ?thesis
      by (auto simp: pool_inv_def)
  qed
next
  case (Free obj)
  then have held: "obj \<in># held" and p': "p' = pool_free P p obj" "held' = held - {#obj#}"
    using step by (auto split: if_splits)
  then have "0 < size held" by (auto simp: nonempty_has_size [symmetric])
  then have "length (free_list P p) < unat P" using pool_inv_size [OF inv] by linarith
  moreover obtain rest where "held = add_mset obj rest" using held by (rule multi_member_split [THEN exE])
  ultimately show ?thesis
    using pool_free_room [of P p obj] inv p' by (auto simp: pool_inv_def)
next
  case (AllocBurst n)
  obtain got p1 where b: "unat got = min (unat n) (length (free_list P p))"
    "alloc_burst P p (replicate (unat n) Null) n =
       (got, take (unat got) (free_list P p) @ drop (unat got) (replicate (unat n) Null), p1)"
    "ring_wf P (free_ring p1)" "free_list P p1 = drop (unat got) (free_list P p)"
    using alloc_burst_items [of P p n "replicate (unat n) Null"] inv by (auto simp: pool_inv_def)
  then have "p' = p1" and "held' = held + mset (take (unat got) (free_list P p))"
    using step AllocBurst by auto
  then show ?thesis
    using inv b mset_take_drop [of "unat got" "free_list P p"] by (simp add: pool_inv_def ac_simps)
next
  case (FreeBurst objs)
  then have held: "mset objs \<subseteq># held" "length objs < 2 ^ 64"
    and p': "p' = free_burst P p objs (of_nat (length objs))" "held' = held - mset objs"
    using step by (auto split: if_splits)
  then have "length (free_list P p) + length objs \<le> unat P"
    using pool_inv_size [OF inv] size_mset_mono [OF held(1)] by simp
  with free_burst_room [of P p "of_nat (length objs)" objs] inv held p' show ?thesis
    by (auto simp: pool_inv_def unat_of_nat)
qed

lemma pool_run_inv:
  "pool_inv P p held \<Longrightarrow> pool_run P (p, held) ops = Some (p', held') \<Longrightarrow> pool_inv P p' held'"
proof (induction ops arbitrary: p held)
  case (Cons op ops)
  then obtain p1 h1 where "pool_step P (p, held) op = Some (p1, h1)"
    "pool_run P (p1, h1) ops = Some (p', held')"
    by (auto split: option.splits)
  with Cons show ?case by (blast intro: pool_step_inv)
qed simp

lemma unat_available: "unat (available p) = length (free_list P p)"
  by (simp add: available_def ring_size_def)

lemma pool_inv_in_use: "pool_inv P p held \<Longrightarrow> unat (in_use P p) = size held"
proof -
  assume inv: "pool_inv P p held"
  then have "available p \<le> P"
    by (simp add: pool_inv_def ring_wf_def available_def ring_size_def)
  then have "unat (in_use P p) = unat P - unat (available p)"
    by (simp add: in_use_def unat_sub)
  with pool_inv_size [OF inv] unat_available [of p P] show ?thesis by simp
qed

lemma alloc_fresh:
  assumes inv: "pool_inv P p held"
  shows "if size held < unat P
         then \<exists>i. fst (alloc P p) = Slot i \<and> i < unat P \<and> Slot i \<notin># held
         else fst (alloc P p) = Null"
proof (cases "free_list P p")
  case Nil
  with pool_inv_size [OF inv] show ?thesis by (simp add: alloc_exhausted)
next
  case (Cons x xs)
  then have "x \<in> set (all_slots P)"
    using inv unfolding pool_inv_def
    by (metis list.set_intros(1) set_mset_mset set_mset_union UnI1)
  moreover have "x \<notin># held"
    using pool_inv_count [OF inv, of x] Cons by (auto simp: count_eq_zero_iff)
  ultimately show ?thesis
    using alloc_item [of P p x xs] Cons inv pool_inv_size [OF inv]
    by (auto simp: pool_inv_def all_slots_def)
qed

section \<open>Properties\<close>

text \<open>
  C11. Whatever sequence of \<open>alloc\<close>, \<open>free\<close>, \<open>alloc_burst\<close> and \<open>free_burst\<close> a client that
  returns only blocks it holds performs on a fresh pool, every block of the pool is in
  exactly one place, the free list or the client's hands, and the counters say so:
  \<open>available\<close> is the length of the free list and \<open>in_use\<close> the number of blocks held. In
  particular no \<open>free\<close> is ever lost to a full free list.
\<close>

theorem pool_exclusive_ownership:
  assumes "pow2 P"
    and "pool_run P (MemoryPool_ctor P, {#}) ops = Some (p, held)"
  shows "mset (free_list P p) + held = mset (all_slots P) \<and>
         unat (available p) = length (free_list P p) \<and>
         unat (in_use P p) = size held"
  using pool_run_inv [OF pool_ctor_inv [OF assms(1)] assms(2)] unat_available pool_inv_in_use
  by (auto simp: pool_inv_def)

theorem pool_exclusive_ownership_witness:
  "\<exists>p held. pool_run 4 (MemoryPool_ctor 4, {#}) [Alloc, Alloc, Free (Slot 0)] = Some (p, held) \<and>
     mset (free_list 4 p) + held = mset (all_slots 4) \<and> unat (in_use 4 p) = size held"
proof -
  have p2: "pow2 4" by (simp add: pow2_def)
  have "pool_run 4 (MemoryPool_ctor 4, {#}) [Alloc, Alloc, Free (Slot 0)] \<noteq> None"
    by code_simp
  then obtain p held where
    run: "pool_run 4 (MemoryPool_ctor 4, {#}) [Alloc, Alloc, Free (Slot 0)] = Some (p, held)"
    by auto
  from pool_exclusive_ownership [OF p2 run] run show ?thesis by blast
qed

end
