(* ===== verification/Packet_Processor.thy ===== *)
theory Packet_Processor
  imports Memory_Pool
begin

text \<open>
  \<open>src/src/dpdk_sim/packet_processor.h\<close>: packets, statistics and the class
  \<open>BatchProcessor<RingSize, PoolSize>\<close> (arguments \<open>R\<close> and \<open>P\<close>). \<open>bp_mem\<close> is the packet
  stored in each block of the pool. The per-packet callback is code of the caller: it is an
  argument, a function of the caller's own state \<open>'w\<close>, of the pointer and of the packet
  memory, which it may write.
\<close>

section \<open>Definitions\<close>

record Packet =
  pkt_src_ip :: u32
  pkt_dst_ip :: u32
  pkt_src_port :: u16
  pkt_dst_port :: u16
  pkt_proto :: u8
  pkt_len :: u32
  pkt_timestamp_ns :: u64
  pkt_data :: "u8 list"

definition Packet_init :: Packet where
  "Packet_init = \<lparr>pkt_src_ip = 0, pkt_dst_ip = 0, pkt_src_port = 0, pkt_dst_port = 0,
     pkt_proto = 0, pkt_len = 0, pkt_timestamp_ns = 0, pkt_data = replicate 64 0\<rparr>"

definition BURST_SIZE :: size_t where
  "BURST_SIZE = 32"

record ProcessorStats =
  pkts_processed :: u64
  pkts_dropped :: u64
  bytes_processed :: u64
  bursts :: u64

type_synonym packet_mem = "nat \<Rightarrow> Packet"
type_synonym 'w PacketHandler = "'w \<Rightarrow> nat \<Rightarrow> packet_mem \<Rightarrow> 'w \<times> packet_mem"

record 'w BatchProcessor =
  bp_ring :: "ptr SpscRing"
  bp_pool :: MemoryPool
  bp_mem :: packet_mem
  bp_handler :: "'w PacketHandler option"
  bp_stats :: ProcessorStats

datatype bp_error = Invalid_argument string

definition BatchProcessor_ctor ::
  "size_t \<Rightarrow> size_t \<Rightarrow> packet_mem \<Rightarrow> 'w PacketHandler option \<Rightarrow> bp_error + 'w BatchProcessor" where
  "BatchProcessor_ctor R P mem handler =
     (case handler of
        None \<Rightarrow> Inl (Invalid_argument ''BatchProcessor: handler must not be null'')
      | Some f \<Rightarrow>
          Inr \<lparr>bp_ring = SpscRing_init R Null, bp_pool = MemoryPool_ctor P, bp_mem = mem,
               bp_handler = Some f,
               bp_stats = \<lparr>pkts_processed = 0, pkts_dropped = 0, bytes_processed = 0, bursts = 0\<rparr>\<rparr>)"

definition send :: "size_t \<Rightarrow> size_t \<Rightarrow> 'w BatchProcessor \<Rightarrow> ptr \<Rightarrow> bool \<times> 'w BatchProcessor" where
  "send R P bp pkt =
     (case enqueue R (bp_ring bp) pkt of
        (False, r) \<Rightarrow>
          (False, bp\<lparr>bp_ring := r,
                     bp_stats := (bp_stats bp)\<lparr>pkts_dropped := pkts_dropped (bp_stats bp) + 1\<rparr>,
                     bp_pool := pool_free P (bp_pool bp) pkt\<rparr>)
      | (True, r) \<Rightarrow> (True, bp\<lparr>bp_ring := r\<rparr>))"

definition alloc_packet :: "size_t \<Rightarrow> 'w BatchProcessor \<Rightarrow> ptr \<times> 'w BatchProcessor" where
  "alloc_packet P bp = (let (obj, p) = alloc P (bp_pool bp) in (obj, bp\<lparr>bp_pool := p\<rparr>))"

text \<open>
  The loop over the burst: call the handler, then add the packet's length as it is after
  the call. \<open>None\<close> is the undefined behaviour of reading the length through a null pointer.
\<close>

fun process_loop ::
  "'w PacketHandler option \<Rightarrow> ptr list \<Rightarrow> 'w \<Rightarrow> packet_mem \<Rightarrow> u64 \<Rightarrow> ('w \<times> packet_mem \<times> u64) option" where
  "process_loop handler [] w mem bytes = Some (w, mem, bytes)"
| "process_loop handler (Null # ps) w mem bytes = None"
| "process_loop handler (Slot a # ps) w mem bytes =
     (let (w', mem') = (case handler of None \<Rightarrow> (w, mem) | Some f \<Rightarrow> f w a mem)
      in process_loop handler ps w' mem' (bytes + ucast (pkt_len (mem' a))))"

definition process_burst ::
  "size_t \<Rightarrow> size_t \<Rightarrow> 'w BatchProcessor \<Rightarrow> 'w \<Rightarrow> (size_t \<times> 'w \<times> 'w BatchProcessor) option" where
  "process_burst R P bp w =
     (let (n, burst, r) = dequeue_burst R (bp_ring bp) (replicate (unat BURST_SIZE) Null) BURST_SIZE
      in if n = 0 then Some (0, w, bp\<lparr>bp_ring := r\<rparr>)
         else (case process_loop (bp_handler bp) (take (unat n) burst) w (bp_mem bp)
                      (bytes_processed (bp_stats bp)) of
                 None \<Rightarrow> None
               | Some (w', mem', bytes') \<Rightarrow>
                   Some (n, w', bp\<lparr>bp_ring := r, bp_mem := mem',
                     bp_stats := (bp_stats bp)\<lparr>bytes_processed := bytes',
                       pkts_processed := pkts_processed (bp_stats bp) + n,
                       bursts := bursts (bp_stats bp) + 1\<rparr>,
                     bp_pool := free_burst P (bp_pool bp) burst n\<rparr>)))"

definition bp_ring_empty :: "'w BatchProcessor \<Rightarrow> bool" where
  "bp_ring_empty bp = ring_empty (bp_ring bp)"

section \<open>Where every packet is\<close>

abbreviation queued :: "size_t \<Rightarrow> 'w BatchProcessor \<Rightarrow> ptr list" where
  "queued R bp \<equiv> ring_items R (bp_ring bp)"

text \<open>
  Every block is in the pool's free list, in the packet queue, or held by the producer
  (\<open>held\<close>: allocated and not yet sent).
\<close>

definition bp_inv :: "size_t \<Rightarrow> size_t \<Rightarrow> 'w BatchProcessor \<Rightarrow> ptr multiset \<Rightarrow> bool" where
  "bp_inv R P bp held \<longleftrightarrow>
     ring_wf R (bp_ring bp) \<and> pool_inv P (bp_pool bp) (held + mset (queued R bp))"

text \<open>A client that sends only packets it has allocated and not yet sent.\<close>

datatype bp_op = Alloc_packet | Send ptr | Process_burst

record 'w bp_world =
  w_proc :: "'w BatchProcessor"
  w_held :: "ptr multiset"
  w_outer :: 'w
  w_sent :: nat

fun bp_step :: "size_t \<Rightarrow> size_t \<Rightarrow> 'w bp_world \<Rightarrow> bp_op \<Rightarrow> 'w bp_world option" where
  "bp_step R P s Alloc_packet =
     (let (obj, bp) = alloc_packet P (w_proc s)
      in Some (s\<lparr>w_proc := bp, w_held := (if obj = Null then w_held s else add_mset obj (w_held s))\<rparr>))"
| "bp_step R P s (Send pkt) =
     (if pkt \<in># w_held s
      then let (ok, bp) = send R P (w_proc s) pkt
           in Some (s\<lparr>w_proc := bp, w_held := w_held s - {#pkt#}, w_sent := Suc (w_sent s)\<rparr>)
      else None)"
| "bp_step R P s Process_burst =
     (case process_burst R P (w_proc s) (w_outer s) of
        None \<Rightarrow> None
      | Some (n, w, bp) \<Rightarrow> Some (s\<lparr>w_proc := bp, w_outer := w\<rparr>))"

fun bp_run :: "size_t \<Rightarrow> size_t \<Rightarrow> 'w bp_world \<Rightarrow> bp_op list \<Rightarrow> 'w bp_world option" where
  "bp_run R P s [] = Some s"
| "bp_run R P s (op # ops) = (case bp_step R P s op of None \<Rightarrow> None | Some s' \<Rightarrow> bp_run R P s' ops)"

section \<open>Lemmas\<close>

lemma BURST_SIZE_unat [simp]: "unat BURST_SIZE = 32"
  by (simp add: BURST_SIZE_def)

lemma bp_ctor_inv:
  assumes "pow2 R" and "pow2 P" and "BatchProcessor_ctor R P mem h = Inr bp"
  shows "bp_inv R P bp {#} \<and> queued R bp = []"
  using assms pool_ctor_inv [OF assms(2)]
  by (auto simp: BatchProcessor_ctor_def bp_inv_def ring_init_wf ring_init_items
      split: option.splits)

lemma bp_inv_slots:
  assumes "bp_inv R P bp held" and "x \<in># held + mset (queued R bp)"
  shows "\<exists>i. x = Slot i \<and> i < unat P"
proof -
  have "x \<in> set (all_slots P)"
    using assms unfolding bp_inv_def pool_inv_def
    by (metis set_mset_mset set_mset_union UnI2)
  then show ?thesis by (auto simp: all_slots_def)
qed

lemma alloc_packet_inv:
  assumes inv: "bp_inv R P bp held" and a: "alloc_packet P bp = (obj, bp')"
  shows "bp_inv R P bp' (if obj = Null then held else add_mset obj held) \<and> bp_ring bp' = bp_ring bp"
proof -
  obtain p' where p': "alloc P (bp_pool bp) = (obj, p')" "bp' = bp\<lparr>bp_pool := p'\<rparr>"
    using a by (auto simp: alloc_packet_def split: prod.splits)
  have "pool_step P (bp_pool bp, held + mset (queued R bp)) Alloc
      = Some (p', if obj = Null then held + mset (queued R bp)
                  else add_mset obj (held + mset (queued R bp)))"
    using p'(1) by simp
  with inv p'(2) show ?thesis
    using pool_step_inv [of P "bp_pool bp" "held + mset (queued R bp)" Alloc]
    by (auto simp: bp_inv_def split: if_splits)
qed

lemma send_inv:
  assumes inv: "bp_inv R P bp held" and pkt: "pkt \<in># held" and s: "send R P bp pkt = (ok, bp')"
  shows "bp_inv R P bp' (held - {#pkt#}) \<and>
    (if ok then queued R bp' = queued R bp @ [pkt] \<and> bp_stats bp' = bp_stats bp
     else queued R bp' = queued R bp \<and>
       bp_stats bp' = (bp_stats bp)\<lparr>pkts_dropped := pkts_dropped (bp_stats bp) + 1\<rparr>)"
proof -
  obtain rest where rest: "held = add_mset pkt rest"
    using pkt by (rule multi_member_split [THEN exE])
  have wf: "ring_wf R (bp_ring bp)" using inv by (simp add: bp_inv_def)
  show ?thesis
  proof (cases "length (queued R bp) < unat R")
    case True
    then obtain r where "enqueue R (bp_ring bp) pkt = (True, r)" "ring_wf R r"
      "ring_items R r = queued R bp @ [pkt]"
      using ring.enq_room [OF wf] by blast
    with inv s rest show ?thesis by (auto simp: send_def bp_inv_def)
  next
    case False
    then have "enqueue R (bp_ring bp) pkt = (False, bp_ring bp)"
      by (intro enqueue_full) simp
    then have bp': "ok = False" "bp' = bp\<lparr>bp_stats := (bp_stats bp)\<lparr>pkts_dropped := pkts_dropped (bp_stats bp) + 1\<rparr>,
        bp_pool := pool_free P (bp_pool bp) pkt\<rparr>"
      using s by (auto simp: send_def)
    have "pool_step P (bp_pool bp, held + mset (queued R bp)) (Free pkt)
      = Some (pool_free P (bp_pool bp) pkt, rest + mset (queued R bp))"
      by (simp add: rest)
    with inv wf bp' rest show ?thesis
      using pool_step_inv [of P "bp_pool bp" "held + mset (queued R bp)" "Free pkt"]
      by (auto simp: bp_inv_def)
  qed
qed

lemma process_loop_total:
  "set ps \<subseteq> range Slot \<Longrightarrow> \<exists>res. process_loop h ps w mem b = Some res"
  by (induction h ps w mem b rule: process_loop.induct) (auto simp: Let_def split: prod.splits)

lemma burst_zero: "min (32::nat) (length xs) = 0 \<Longrightarrow> xs = []"
  by (cases xs) auto

lemma process_burst_eq:
  assumes inv: "bp_inv R P bp held"
  shows "\<exists>k r w' mem' bytes'. unat k = min 32 (length (queued R bp)) \<and>
     process_loop (bp_handler bp) (take (unat k) (queued R bp)) w (bp_mem bp)
       (bytes_processed (bp_stats bp)) = Some (w', mem', bytes') \<and>
     ring_wf R r \<and> ring_items R r = drop (unat k) (queued R bp) \<and>
     process_burst R P bp w = Some (k, w',
       if k = 0 then bp\<lparr>bp_ring := r\<rparr>
       else bp\<lparr>bp_ring := r, bp_mem := mem',
              bp_stats := (bp_stats bp)\<lparr>bytes_processed := bytes',
                pkts_processed := pkts_processed (bp_stats bp) + k,
                bursts := bursts (bp_stats bp) + 1\<rparr>,
              bp_pool := free_burst P (bp_pool bp)
                (take (unat k) (queued R bp) @ replicate (32 - unat k) Null) k\<rparr>)"
proof -
  have wf: "ring_wf R (bp_ring bp)" using inv by (simp add: bp_inv_def)
  obtain k r where d: "unat k = min 32 (length (queued R bp))" "ring_wf R r"
    "ring_items R r = drop (unat k) (queued R bp)"
    "dequeue_burst R (bp_ring bp) (replicate 32 Null) BURST_SIZE
       = (k, take (unat k) (queued R bp) @ drop (unat k) (replicate 32 Null), r)"
    using ring.deqb_items [OF wf, of BURST_SIZE "replicate 32 Null"] by (auto simp del: drop_replicate)
  have "set (take (unat k) (queued R bp)) \<subseteq> range Slot"
    using bp_inv_slots [OF inv] by (auto dest!: in_set_takeD)
  then obtain w' mem' bytes' where l: "process_loop (bp_handler bp) (take (unat k) (queued R bp)) w
      (bp_mem bp) (bytes_processed (bp_stats bp)) = Some (w', mem', bytes')"
    using process_loop_total by (metis prod_cases3)
  have len: "length (take (unat k) (queued R bp)) = unat k" using d(1) by simp
  show ?thesis
  proof (cases "k = 0")
    case True
    with d(1) have "queued R bp = []" by (intro burst_zero) simp_all
    with True d l show ?thesis by (auto simp: process_burst_def)
  next
    case False
    have "take (unat k) (take (unat k) (queued R bp) @ replicate (32 - unat k) Null)
        = take (unat k) (queued R bp)"
      using len by simp
    then have "process_burst R P bp w = Some (k, w', bp\<lparr>bp_ring := r, bp_mem := mem',
        bp_stats := (bp_stats bp)\<lparr>bytes_processed := bytes',
          pkts_processed := pkts_processed (bp_stats bp) + k, bursts := bursts (bp_stats bp) + 1\<rparr>,
        bp_pool := free_burst P (bp_pool bp)
          (take (unat k) (queued R bp) @ replicate (32 - unat k) Null) k\<rparr>)"
      using False d(4) l by (simp add: process_burst_def)
    with False d(1-3) l show ?thesis by (intro exI [of _ k] exI [of _ r] exI [of _ w'] exI [of _ mem'] exI [of _ bytes']) simp
  qed
qed

lemma process_burst_inv:
  assumes inv: "bp_inv R P bp held"
  shows "\<exists>k w' bp'. process_burst R P bp w = Some (k, w', bp') \<and>
     unat k = min 32 (length (queued R bp)) \<and> bp_inv R P bp' held \<and>
     queued R bp' = drop (unat k) (queued R bp) \<and>
     free_list P (bp_pool bp') = free_list P (bp_pool bp) @ take (unat k) (queued R bp) \<and>
     process_loop (bp_handler bp) (take (unat k) (queued R bp)) w (bp_mem bp)
       (bytes_processed (bp_stats bp)) = Some (w', bp_mem bp', bytes_processed (bp_stats bp')) \<and>
     pkts_processed (bp_stats bp') = pkts_processed (bp_stats bp) + k \<and>
     pkts_dropped (bp_stats bp') = pkts_dropped (bp_stats bp) \<and>
     bursts (bp_stats bp') = bursts (bp_stats bp) + (if k = 0 then 0 else 1) \<and>
     bp_handler bp' = bp_handler bp"
proof -
  let ?q = "queued R bp"
  obtain k r w' mem' bytes' where b: "unat k = min 32 (length ?q)"
    "process_loop (bp_handler bp) (take (unat k) ?q) w (bp_mem bp)
       (bytes_processed (bp_stats bp)) = Some (w', mem', bytes')"
    "ring_wf R r" "ring_items R r = drop (unat k) ?q"
    and res: "process_burst R P bp w = Some (k, w',
       if k = 0 then bp\<lparr>bp_ring := r\<rparr>
       else bp\<lparr>bp_ring := r, bp_mem := mem',
              bp_stats := (bp_stats bp)\<lparr>bytes_processed := bytes',
                pkts_processed := pkts_processed (bp_stats bp) + k,
                bursts := bursts (bp_stats bp) + 1\<rparr>,
              bp_pool := free_burst P (bp_pool bp) (take (unat k) ?q @ replicate (32 - unat k) Null) k\<rparr>)"
    using process_burst_eq [OF inv, of w] by blast
  show ?thesis
  proof (cases "k = 0")
    case True
    with b(1) have "?q = []" by (intro burst_zero) simp_all
    with True b res inv show ?thesis by (auto simp: bp_inv_def)
  next
    case False
    let ?burst = "take (unat k) ?q @ replicate (32 - unat k) Null"
    have pool: "ring_wf P (free_ring (bp_pool bp))"
      and room: "length (free_list P (bp_pool bp)) + unat k \<le> unat P"
      using inv b(1) pool_inv_size [of P "bp_pool bp" "held + mset ?q"]
      by (auto simp: bp_inv_def pool_inv_def)
    have "take (unat k) ?burst = take (unat k) ?q" using b(1) by simp
    with free_burst_room [OF pool room, of ?burst] b(1)
    have fb: "ring_wf P (free_ring (free_burst P (bp_pool bp) ?burst k))"
      "free_list P (free_burst P (bp_pool bp) ?burst k) = free_list P (bp_pool bp) @ take (unat k) ?q"
      by auto
    have "mset (take (unat k) ?q) + mset (drop (unat k) ?q) = mset ?q" by (rule mset_take_drop)
    then have "pool_inv P (free_burst P (bp_pool bp) ?burst k) (held + mset (drop (unat k) ?q))"
      using inv fb by (simp add: bp_inv_def pool_inv_def ac_simps)
    with False b res fb show ?thesis by (auto simp: bp_inv_def)
  qed
qed

text \<open>What a run keeps: every block accounted for, and every sent packet counted once.\<close>

definition bp_world_inv :: "size_t \<Rightarrow> size_t \<Rightarrow> 'w bp_world \<Rightarrow> bool" where
  "bp_world_inv R P s \<longleftrightarrow>
     bp_inv R P (w_proc s) (w_held s) \<and>
     of_nat (w_sent s) = pkts_processed (bp_stats (w_proc s)) + pkts_dropped (bp_stats (w_proc s))
                         + of_nat (length (queued R (w_proc s)))"

lemma alloc_packet_stats: "alloc_packet P bp = (obj, bp') \<Longrightarrow> bp_stats bp' = bp_stats bp"
  by (auto simp: alloc_packet_def split: prod.splits)

lemma bp_step_world_inv:
  assumes inv: "bp_world_inv R P s" and step: "bp_step R P s op = Some s'"
  shows "bp_world_inv R P s'"
proof (cases op)
  case Alloc_packet
  obtain obj bp where a: "alloc_packet P (w_proc s) = (obj, bp)" by fastforce
  with alloc_packet_inv [OF _ a, of R "w_held s"] alloc_packet_stats [OF a] inv step Alloc_packet
  show ?thesis by (auto simp: bp_world_inv_def)
next
  case (Send pkt)
  then have pkt: "pkt \<in># w_held s" using step by (auto split: if_splits)
  obtain ok bp where b: "send R P (w_proc s) pkt = (ok, bp)" by fastforce
  from send_inv [OF _ pkt b] inv step Send pkt b show ?thesis
    by (cases ok) (auto simp: bp_world_inv_def simp del: length_ring_items)
next
  case Process_burst
  have "bp_inv R P (w_proc s) (w_held s)" using inv by (simp add: bp_world_inv_def)
  from process_burst_inv [OF this, of "w_outer s"] obtain k w' bp' where
    b: "process_burst R P (w_proc s) (w_outer s) = Some (k, w', bp')"
       "unat k = min 32 (length (queued R (w_proc s)))" "bp_inv R P bp' (w_held s)"
       "queued R bp' = drop (unat k) (queued R (w_proc s))"
       "pkts_processed (bp_stats bp') = pkts_processed (bp_stats (w_proc s)) + k"
       "pkts_dropped (bp_stats bp') = pkts_dropped (bp_stats (w_proc s))"
    by blast
  have "length (queued R (w_proc s)) = unat k + length (queued R bp')" using b(2,4) by simp
  then have "(of_nat (length (queued R (w_proc s))) :: u64) = k + of_nat (length (queued R bp'))"
    by (simp del: length_ring_items)
  with inv step Process_burst b(1,3,5,6) show ?thesis
    by (auto simp: bp_world_inv_def simp del: length_ring_items)
qed

lemma bp_run_world_inv:
  "bp_world_inv R P s \<Longrightarrow> bp_run R P s ops = Some s' \<Longrightarrow> bp_world_inv R P s'"
proof (induction ops arbitrary: s)
  case (Cons op ops)
  then obtain s1 where "bp_step R P s op = Some s1" "bp_run R P s1 ops = Some s'"
    by (auto split: option.splits)
  moreover from this have "bp_world_inv R P s1" using Cons.prems(1) by (blast intro: bp_step_world_inv)
  ultimately show ?case using Cons.IH by blast
qed simp

lemma bp_world_init:
  assumes "pow2 R" and "pow2 P" and "BatchProcessor_ctor R P mem h = Inr bp"
  shows "bp_world_inv R P \<lparr>w_proc = bp, w_held = {#}, w_outer = w, w_sent = 0\<rparr>"
  using bp_ctor_inv [OF assms] assms(3)
  by (auto simp: bp_world_inv_def BatchProcessor_ctor_def simp del: length_ring_items
      split: option.splits)

text \<open>With a queue at least as large as the pool there is always room for a held packet.\<close>

lemma bp_inv_room:
  assumes inv: "bp_inv R P bp held" and pkt: "pkt \<in># held" and RP: "P \<le> R"
  shows "length (queued R bp) < unat R"
proof -
  have "length (free_list P (bp_pool bp)) + size (held + mset (queued R bp)) = unat P"
    using inv by (intro pool_inv_size) (simp add: bp_inv_def)
  moreover have "0 < size held" using pkt by (auto simp: nonempty_has_size [symmetric])
  moreover have "unat P \<le> unat R" using RP by (simp add: word_le_nat_alt)
  ultimately show ?thesis by (simp del: length_ring_items)
qed

lemma send_room:
  assumes inv: "bp_inv R P bp held" and pkt: "pkt \<in># held" and RP: "P \<le> R"
  shows "fst (send R P bp pkt)"
proof -
  have "ring_wf R (bp_ring bp)" using inv by (simp add: bp_inv_def)
  then have "fst (enqueue R (bp_ring bp) pkt)"
    using bp_inv_room [OF assms] by (simp only: ring.enq_result)
  then show ?thesis by (auto simp: send_def split: prod.splits bool.splits)
qed

lemma bp_step_no_drop:
  assumes "bp_world_inv R P s" and "P \<le> R" and "bp_step R P s op = Some s'"
  shows "pkts_dropped (bp_stats (w_proc s')) = pkts_dropped (bp_stats (w_proc s))"
proof (cases op)
  case Alloc_packet
  obtain obj bp where a: "alloc_packet P (w_proc s) = (obj, bp)" by fastforce
  with assms(3) Alloc_packet alloc_packet_stats [OF a] show ?thesis by auto
next
  case (Send pkt)
  have inv: "bp_inv R P (w_proc s) (w_held s)" using assms(1) by (simp add: bp_world_inv_def)
  obtain ok bp where b: "send R P (w_proc s) pkt = (ok, bp)" by fastforce
  have pkt: "pkt \<in># w_held s" and "w_proc s' = bp"
    using assms(3) Send b by (auto split: if_splits)
  then show ?thesis using send_inv [OF inv pkt b] send_room [OF inv pkt assms(2)] b by simp
next
  case Process_burst
  have "bp_inv R P (w_proc s) (w_held s)" using assms(1) by (simp add: bp_world_inv_def)
  from process_burst_inv [OF this, of "w_outer s"] assms(3) Process_burst show ?thesis by auto
qed

lemma bp_run_no_drop:
  "bp_world_inv R P s \<Longrightarrow> P \<le> R \<Longrightarrow> bp_run R P s ops = Some s' \<Longrightarrow>
     pkts_dropped (bp_stats (w_proc s')) = pkts_dropped (bp_stats (w_proc s))"
proof (induction ops arbitrary: s)
  case (Cons op ops)
  then obtain s1 where "bp_step R P s op = Some s1" "bp_run R P s1 ops = Some s'"
    by (auto split: option.splits)
  moreover from this have "bp_world_inv R P s1" using Cons.prems(1) by (blast intro: bp_step_world_inv)
  ultimately show ?case
    using Cons.IH [of s1] Cons.prems(2) bp_step_no_drop [OF Cons.prems(1,2)] by simp
qed simp

text \<open>Repeated bursts, as a consumer thread calls them.\<close>

fun process_bursts :: "size_t \<Rightarrow> size_t \<Rightarrow> nat \<Rightarrow> 'w BatchProcessor \<Rightarrow> 'w \<Rightarrow> ('w \<times> 'w BatchProcessor) option" where
  "process_bursts R P 0 bp w = Some (w, bp)"
| "process_bursts R P (Suc m) bp w =
     (case process_burst R P bp w of None \<Rightarrow> None | Some (n, w', bp') \<Rightarrow> process_bursts R P m bp' w')"

lemma process_bursts_drain:
  "bp_inv R P bp held \<Longrightarrow> \<exists>w' bp'. process_bursts R P m bp w = Some (w', bp') \<and> bp_inv R P bp' held \<and>
     queued R bp' = drop (32 * m) (queued R bp)"
proof (induction m arbitrary: bp w)
  case (Suc m)
  from process_burst_inv [OF Suc.prems, of w] obtain k w1 bp1 where
    b: "process_burst R P bp w = Some (k, w1, bp1)" "unat k = min 32 (length (queued R bp))"
       "bp_inv R P bp1 held" "queued R bp1 = drop (unat k) (queued R bp)"
    by blast
  have "drop (unat k) (queued R bp) = drop 32 (queued R bp)" using b(2) by (simp add: min_def)
  with Suc.IH [OF b(3), of w1] b(1,4) show ?case by (auto simp: add.commute)
qed simp

section \<open>Properties\<close>

text \<open>A processor with a queue of 4, a pool of 2 and a handler that counts its calls.\<close>

definition bp_ex :: "nat BatchProcessor" where
  "bp_ex = \<lparr>bp_ring = SpscRing_init 4 Null, bp_pool = MemoryPool_ctor 2, bp_mem = (\<lambda>_. Packet_init),
     bp_handler = Some (\<lambda>w a mem. (Suc w, mem)),
     bp_stats = \<lparr>pkts_processed = 0, pkts_dropped = 0, bytes_processed = 0, bursts = 0\<rparr>\<rparr>"

definition bp_world_ex :: "nat bp_world" where
  "bp_world_ex = \<lparr>w_proc = bp_ex, w_held = {#}, w_outer = 0, w_sent = 0\<rparr>"

lemma bp_ex_ctor:
  "BatchProcessor_ctor 4 2 (\<lambda>_. Packet_init) (Some (\<lambda>w a mem. (Suc w, mem))) = Inr bp_ex"
  by (simp add: BatchProcessor_ctor_def bp_ex_def)

lemma pow2_ex: "pow2 4" "pow2 2"
  by (simp_all add: pow2_def)

text \<open>
  C10. Conservation. Whatever sequence of \<open>alloc_packet\<close>, \<open>send\<close> and \<open>process_burst\<close> a client
  performs that sends only packets it holds, every packet block is in exactly one of the
  pool, the queue and the client's hands, and every packet sent is counted exactly once:
  as processed, as dropped, or still queued (counters modulo \<open>2 ^ 64\<close>).
\<close>

theorem bp_conservation:
  assumes "pow2 R" and "pow2 P" and "BatchProcessor_ctor R P mem h = Inr bp"
    and "bp_run R P \<lparr>w_proc = bp, w_held = {#}, w_outer = w, w_sent = 0\<rparr> ops = Some s"
  shows "mset (free_list P (bp_pool (w_proc s))) + mset (queued R (w_proc s)) + w_held s
           = mset (all_slots P) \<and>
         of_nat (w_sent s) = pkts_processed (bp_stats (w_proc s))
           + pkts_dropped (bp_stats (w_proc s)) + of_nat (length (queued R (w_proc s)))"
  using bp_run_world_inv [OF bp_world_init [OF assms(1-3)] assms(4)]
  by (auto simp: bp_world_inv_def bp_inv_def pool_inv_def ac_simps simp del: length_ring_items)

theorem bp_conservation_witness:
  "\<exists>s. bp_run 4 2 bp_world_ex [Alloc_packet, Send (Slot 0), Alloc_packet, Process_burst] = Some s \<and>
     mset (free_list 2 (bp_pool (w_proc s))) + mset (queued 4 (w_proc s)) + w_held s = mset (all_slots 2)"
proof -
  have "bp_run 4 2 bp_world_ex [Alloc_packet, Send (Slot 0), Alloc_packet, Process_burst] \<noteq> None"
    by code_simp
  then obtain s where
    s: "bp_run 4 2 bp_world_ex [Alloc_packet, Send (Slot 0), Alloc_packet, Process_burst] = Some s"
    by auto
  from bp_conservation [OF pow2_ex bp_ex_ctor s [unfolded bp_world_ex_def]] s show ?thesis by blast
qed



text \<open>
  When the queue is at least as large as the pool, as with the default sizes 1024 and
  512, no packet is ever dropped: after any run the drop counter is still 0 and sending a
  held packet succeeds. So \<open>send\<close> never takes the path that frees to the pool from the
  producer's side.
\<close>

theorem send_never_drops:
  assumes "pow2 R" and "pow2 P" and "P \<le> R" and "BatchProcessor_ctor R P mem h = Inr bp"
    and "bp_run R P \<lparr>w_proc = bp, w_held = {#}, w_outer = w, w_sent = 0\<rparr> ops = Some s"
  shows "pkts_dropped (bp_stats (w_proc s)) = 0 \<and>
         (\<forall>pkt. pkt \<in># w_held s \<longrightarrow> fst (send R P (w_proc s) pkt))"
proof -
  note init = bp_world_init [OF assms(1,2,4), of w]
  have "pkts_dropped (bp_stats bp) = 0"
    using assms(4) by (auto simp: BatchProcessor_ctor_def split: option.splits)
  with bp_run_no_drop [OF init assms(3,5)] have "pkts_dropped (bp_stats (w_proc s)) = 0" by simp
  moreover have "bp_inv R P (w_proc s) (w_held s)"
    using bp_run_world_inv [OF init assms(5)] by (simp add: bp_world_inv_def)
  ultimately show ?thesis using send_room [OF _ _ assms(3)] by blast
qed

theorem send_never_drops_witness:
  "\<exists>s. bp_run 4 2 bp_world_ex [Alloc_packet, Alloc_packet, Send (Slot 0)] = Some s \<and>
     Slot 1 \<in># w_held s \<and> fst (send 4 2 (w_proc s) (Slot 1))"
proof -
  have "map_option w_held (bp_run 4 2 bp_world_ex [Alloc_packet, Alloc_packet, Send (Slot 0)]) = Some {#Slot 1#}"
    by code_simp
  then obtain s where s: "bp_run 4 2 bp_world_ex [Alloc_packet, Alloc_packet, Send (Slot 0)] = Some s"
    and h: "w_held s = {#Slot 1#}" by auto
  have "(2::size_t) \<le> 4" by (simp add: word_le_nat_alt)
  from send_never_drops [OF pow2_ex this bp_ex_ctor s [unfolded bp_world_ex_def]] s h
  show ?thesis by simp
qed

text \<open>
  C28. Draining. Enough bursts, one for every 32 queued packets, empty the queue, and then
  everything the client does not hold is back in the pool: \<open>available\<close> is the pool size less
  the blocks held.
\<close>

theorem bursts_drain_queue:
  assumes "bp_inv R P bp held" and "length (queued R bp) \<le> 32 * m"
  shows "\<exists>w' bp'. process_bursts R P m bp w = Some (w', bp') \<and> bp_ring_empty bp' \<and>
           unat (available (bp_pool bp')) = unat P - size held"
proof -
  from process_bursts_drain [OF assms(1), of m w] assms(2) obtain w' bp' where
    d: "process_bursts R P m bp w = Some (w', bp')" "bp_inv R P bp' held" "queued R bp' = []"
    by auto
  then have "length (queued R bp') = 0" by simp
  then have "bp_ring_empty bp'"
    by (simp add: bp_ring_empty_def ring_empty_def ring_size_def unat_eq_zero)
  moreover have "pool_inv P (bp_pool bp') held" using d by (simp add: bp_inv_def)
  from pool_inv_size [OF this] have "unat (available (bp_pool bp')) = unat P - size held"
    by (simp add: unat_available [of _ P])
  ultimately show ?thesis using d(1) by blast
qed

theorem bursts_drain_queue_witness:
  "\<exists>s. bp_run 4 2 bp_world_ex [Alloc_packet, Alloc_packet, Send (Slot 0)] = Some s \<and>
     (\<exists>w' bp'. process_bursts 4 2 1 (w_proc s) 0 = Some (w', bp') \<and> bp_ring_empty bp' \<and>
       unat (available (bp_pool bp')) = unat (2 :: size_t) - size (w_held s))"
proof -
  have "bp_run 4 2 bp_world_ex [Alloc_packet, Alloc_packet, Send (Slot 0)] \<noteq> None" by code_simp
  then obtain s where s: "bp_run 4 2 bp_world_ex [Alloc_packet, Alloc_packet, Send (Slot 0)] = Some s"
    by auto
  from bp_run_world_inv [OF bp_world_init [OF pow2_ex bp_ex_ctor] s [unfolded bp_world_ex_def]]
  have inv: "bp_inv 4 2 (w_proc s) (w_held s)" by (simp add: bp_world_inv_def)
  then have "ring_wf 4 (bp_ring (w_proc s))" by (simp add: bp_inv_def)
  from ring.items_bound [OF this] have "length (queued 4 (w_proc s)) \<le> 32 * 1" by simp
  from bursts_drain_queue [OF inv this, of 0] s show ?thesis by blast
qed

end
