(* ===== verification/Pipeline_Threads.thy ===== *)
theory Pipeline_Threads
  imports Spsc_Concurrent Packet_Processor
begin

text \<open>
  The packet pipeline of \<open>src/src/dpdk_sim/packet_processor.h\<close> with its two threads running at
  the same time: one allocates packets, fills and sends them (\<open>alloc_packet\<close>, \<open>send\<close>), the
  other calls \<open>process_burst\<close>. They share two rings, the queue \<open>ring_\<close> and the pool's
  \<open>free_ring_\<close>, each thread being the producer of one and the consumer of the other, and every
  load and store of the ring operations is a step, as in \<open>Spsc_Concurrent\<close>. A load of the
  other thread's index may be stale, but no staler than what the thread knows already: an
  acquire load of an index that sees an item synchronises with the release store that
  published it, so the thread also sees the other thread's earlier stores, in particular to
  its index in the other ring. That index is what \<open>pl_free_views\<close> and \<open>pl_data_views\<close> record
  for each item. Other synchronisation is left out, which only allows more behaviours.
\<close>

section \<open>Definitions\<close>

datatype rx_pc =
    Rx_idle
  | Rx_alloc
    \<comment> \<open>in \<open>alloc_packet\<close>\<close>
  | Rx_send ptr
    \<comment> \<open>in the \<open>enqueue\<close> of \<open>send\<close>\<close>
  | Rx_drop ptr
    \<comment> \<open>\<open>enqueue\<close> has returned false; the thread is about to count a drop and to free the packet\<close>

datatype wk_pc =
    Wk_idle
  | Wk_take
    \<comment> \<open>in \<open>dequeue_burst\<close>\<close>
  | Wk_handle "ptr list" nat
    \<comment> \<open>the burst, and how many of its packets have been handled\<close>
  | Wk_free "ptr list"
    \<comment> \<open>in \<open>free_burst\<close>\<close>

record pipeline =
  pl_free :: "ptr spsc"
  pl_data :: "ptr spsc"
  pl_rx :: rx_pc
  pl_wk :: wk_pc
  pl_hand :: "ptr list"
  pl_mem :: "ptr \<Rightarrow> Packet"
  pl_free_views :: "nat list"
  pl_data_views :: "nat list"
  pl_sent :: "Packet list"
  pl_handled :: "Packet list"

definition pipeline_init :: "size_t \<Rightarrow> size_t \<Rightarrow> (ptr \<Rightarrow> Packet) \<Rightarrow> pipeline" where
  "pipeline_init R P mem =
     \<lparr>pl_free = \<lparr>ring = free_ring (MemoryPool_ctor P), producer = P_idle, consumer = C_idle,
        seen_tail = 0, seen_head = unat P, published = all_slots P, taken = []\<rparr>,
      pl_data = spsc_init R Null, pl_rx = Rx_idle, pl_wk = Wk_idle, pl_hand = [], pl_mem = mem,
      pl_free_views = replicate (unat P) 0, pl_data_views = [], pl_sent = [], pl_handled = []\<rparr>"

text \<open>What an acquire load of the value \<open>v\<close> of one ring's head says about the other ring's tail.\<close>

definition synchronise :: "nat list \<Rightarrow> nat \<Rightarrow> 'a spsc \<Rightarrow> 'a spsc" where
  "synchronise views v r = r\<lparr>seen_tail := max (seen_tail r) (if v = 0 then 0 else views ! (v - 1))\<rparr>"

lemma synchronise_sel [simp]:
  "ring (synchronise views v r) = ring r" "producer (synchronise views v r) = producer r"
  "consumer (synchronise views v r) = consumer r" "published (synchronise views v r) = published r"
  "taken (synchronise views v r) = taken r" "seen_head (synchronise views v r) = seen_head r"
  "seen_tail (synchronise views v r) = max (seen_tail r) (if v = 0 then 0 else views ! (v - 1))"
  by (simp_all add: synchronise_def)

text \<open>The thread that allocates and sends. It may write a packet it holds at any time.\<close>

inductive rx_step :: "size_t \<Rightarrow> size_t \<Rightarrow> pipeline \<Rightarrow> pipeline \<Rightarrow> bool" for R P :: size_t where
  alloc_start: "pl_rx s = Rx_idle \<Longrightarrow> f = pl_free s \<Longrightarrow>
    rx_step R P s (s\<lparr>pl_rx := Rx_alloc, pl_free := f\<lparr>consumer := C_tail Dequeue (ring_tail (ring f))\<rparr>\<rparr>)"
| alloc_load: "pl_rx s = Rx_alloc \<Longrightarrow> f = pl_free s \<Longrightarrow> consumer f = C_tail g t \<Longrightarrow>
    seen_head f \<le> v \<Longrightarrow> v \<le> length (published f) \<Longrightarrow>
    rx_step R P s (s\<lparr>pl_free := f\<lparr>consumer := get_check g t (of_nat v), seen_head := v\<rparr>,
      pl_data := synchronise (pl_free_views s) v (pl_data s)\<rparr>)"
| alloc_null: "pl_rx s = Rx_alloc \<Longrightarrow> consumer (pl_free s) = C_idle \<Longrightarrow> rx_step R P s (s\<lparr>pl_rx := Rx_idle\<rparr>)"
| alloc_read: "pl_rx s = Rx_alloc \<Longrightarrow> f = pl_free s \<Longrightarrow> consumer f = C_read t cnt buf \<Longrightarrow> length buf < unat cnt \<Longrightarrow>
    rx_step R P s (s\<lparr>pl_free := f\<lparr>consumer := C_read t cnt
      (buf @ [ring_data (ring f) ! slot P (t + of_nat (length buf))])\<rparr>\<rparr>)"
| alloc_done: "pl_rx s = Rx_alloc \<Longrightarrow> f = pl_free s \<Longrightarrow> consumer f = C_read t cnt buf \<Longrightarrow> length buf = unat cnt \<Longrightarrow>
    rx_step R P s (s\<lparr>pl_rx := Rx_idle, pl_hand := pl_hand s @ buf,
      pl_free := f\<lparr>ring := (ring f)\<lparr>ring_tail := t + cnt\<rparr>, consumer := C_idle, taken := taken f @ buf\<rparr>\<rparr>)"
| fill: "pl_rx s = Rx_idle \<Longrightarrow> b \<in> set (pl_hand s) \<Longrightarrow> rx_step R P s (s\<lparr>pl_mem := (pl_mem s)(b := pkt)\<rparr>)"
| send_start: "pl_rx s = Rx_idle \<Longrightarrow> b \<in> set (pl_hand s) \<Longrightarrow> d = pl_data s \<Longrightarrow>
    rx_step R P s (s\<lparr>pl_rx := Rx_send b, pl_hand := remove1 b (pl_hand s),
      pl_data := d\<lparr>producer := P_head (Enqueue b) (ring_head (ring d))\<rparr>\<rparr>)"
| send_load: "pl_rx s = Rx_send b \<Longrightarrow> d = pl_data s \<Longrightarrow> producer d = P_head c h \<Longrightarrow>
    seen_tail d \<le> v \<Longrightarrow> v \<le> length (taken d) \<Longrightarrow>
    rx_step R P s (s\<lparr>pl_data := d\<lparr>producer := put_check R c h (of_nat v), seen_tail := v\<rparr>\<rparr>)"
| send_full: "pl_rx s = Rx_send b \<Longrightarrow> producer (pl_data s) = P_idle \<Longrightarrow> rx_step R P s (s\<lparr>pl_rx := Rx_drop b\<rparr>)"
| send_store: "pl_rx s = Rx_send b \<Longrightarrow> d = pl_data s \<Longrightarrow> producer d = P_write its h cnt i \<Longrightarrow> i < unat cnt \<Longrightarrow>
    rx_step R P s (s\<lparr>pl_data := d\<lparr>ring := (ring d)\<lparr>ring_data := (ring_data (ring d))[slot R (h + of_nat i) := its ! i]\<rparr>,
      producer := P_write its h cnt (Suc i)\<rparr>\<rparr>)"
| send_publish: "pl_rx s = Rx_send b \<Longrightarrow> d = pl_data s \<Longrightarrow> producer d = P_write its h cnt (unat cnt) \<Longrightarrow>
    rx_step R P s (s\<lparr>pl_rx := Rx_idle,
      pl_data := d\<lparr>ring := (ring d)\<lparr>ring_head := h + cnt\<rparr>, producer := P_idle,
        published := published d @ take (unat cnt) its\<rparr>,
      pl_data_views := pl_data_views s @ replicate (unat cnt) (length (taken (pl_free s))),
      pl_sent := pl_sent s @ map (pl_mem s) (take (unat cnt) its)\<rparr>)"

text \<open>
  The thread that processes bursts. The handler may write the packet it is given.
\<close>

inductive wk_step :: "size_t \<Rightarrow> size_t \<Rightarrow> pipeline \<Rightarrow> pipeline \<Rightarrow> bool" for R P :: size_t where
  take_start: "pl_wk s = Wk_idle \<Longrightarrow> d = pl_data s \<Longrightarrow>
    wk_step R P s (s\<lparr>pl_wk := Wk_take, pl_data := d\<lparr>consumer := C_tail (DequeueBurst BURST_SIZE) (ring_tail (ring d))\<rparr>\<rparr>)"
| take_load: "pl_wk s = Wk_take \<Longrightarrow> d = pl_data s \<Longrightarrow> consumer d = C_tail g t \<Longrightarrow>
    seen_head d \<le> v \<Longrightarrow> v \<le> length (published d) \<Longrightarrow>
    wk_step R P s (s\<lparr>pl_data := d\<lparr>consumer := get_check g t (of_nat v), seen_head := v\<rparr>,
      pl_free := synchronise (pl_data_views s) v (pl_free s)\<rparr>)"
| take_read: "pl_wk s = Wk_take \<Longrightarrow> d = pl_data s \<Longrightarrow> consumer d = C_read t cnt buf \<Longrightarrow> length buf < unat cnt \<Longrightarrow>
    wk_step R P s (s\<lparr>pl_data := d\<lparr>consumer := C_read t cnt
      (buf @ [ring_data (ring d) ! slot R (t + of_nat (length buf))])\<rparr>\<rparr>)"
| take_done: "pl_wk s = Wk_take \<Longrightarrow> d = pl_data s \<Longrightarrow> consumer d = C_read t cnt buf \<Longrightarrow> length buf = unat cnt \<Longrightarrow>
    wk_step R P s (s\<lparr>pl_wk := (if buf = [] then Wk_idle else Wk_handle buf 0),
      pl_data := d\<lparr>ring := (ring d)\<lparr>ring_tail := t + cnt\<rparr>, consumer := C_idle, taken := taken d @ buf\<rparr>\<rparr>)"
| handle: "pl_wk s = Wk_handle burst i \<Longrightarrow> i < length burst \<Longrightarrow>
    wk_step R P s (s\<lparr>pl_wk := Wk_handle burst (Suc i), pl_handled := pl_handled s @ [pl_mem s (burst ! i)],
      pl_mem := (pl_mem s)(burst ! i := pkt)\<rparr>)"
| free_start: "pl_wk s = Wk_handle burst (length burst) \<Longrightarrow> f = pl_free s \<Longrightarrow>
    wk_step R P s (s\<lparr>pl_wk := Wk_free burst,
      pl_free := f\<lparr>producer := P_head (EnqueueBurst burst (of_nat (length burst))) (ring_head (ring f))\<rparr>\<rparr>)"
| free_load: "pl_wk s = Wk_free burst \<Longrightarrow> f = pl_free s \<Longrightarrow> producer f = P_head c h \<Longrightarrow>
    seen_tail f \<le> v \<Longrightarrow> v \<le> length (taken f) \<Longrightarrow>
    wk_step R P s (s\<lparr>pl_free := f\<lparr>producer := put_check P c h (of_nat v), seen_tail := v\<rparr>\<rparr>)"
| free_store: "pl_wk s = Wk_free burst \<Longrightarrow> f = pl_free s \<Longrightarrow> producer f = P_write its h cnt i \<Longrightarrow> i < unat cnt \<Longrightarrow>
    wk_step R P s (s\<lparr>pl_free := f\<lparr>ring := (ring f)\<lparr>ring_data := (ring_data (ring f))[slot P (h + of_nat i) := its ! i]\<rparr>,
      producer := P_write its h cnt (Suc i)\<rparr>\<rparr>)"
| free_publish: "pl_wk s = Wk_free burst \<Longrightarrow> f = pl_free s \<Longrightarrow> producer f = P_write its h cnt (unat cnt) \<Longrightarrow>
    wk_step R P s (s\<lparr>pl_wk := Wk_idle,
      pl_free := f\<lparr>ring := (ring f)\<lparr>ring_head := h + cnt\<rparr>, producer := P_idle,
        published := published f @ take (unat cnt) its\<rparr>,
      pl_free_views := pl_free_views s @ replicate (unat cnt) (length (taken (pl_data s)))\<rparr>)"

abbreviation pipeline_reach :: "size_t \<Rightarrow> size_t \<Rightarrow> pipeline \<Rightarrow> bool" where
  "pipeline_reach R P \<equiv> reach (\<lambda>s. pow2 R \<and> pow2 P \<and> (\<exists>mem. s = pipeline_init R P mem)) (\<lambda>s t. rx_step R P s t \<or> wk_step R P s t)"

section \<open>What a thread knows\<close>

text \<open>
  The thread that receives from \<open>x\<close> and sends on \<open>y\<close>, with the blocks it holds: an item it has
  seen in \<open>x\<close> is not among those it still takes to be in \<open>y\<close>, and neither are its own.
\<close>

definition view_ok :: "'a spsc \<Rightarrow> 'a spsc \<Rightarrow> nat list \<Rightarrow> 'a list \<Rightarrow> bool" where
  "view_ok x y views own \<longleftrightarrow>
     length views = length (published x) \<and> sorted views \<and> (\<forall>v\<in>set views. v \<le> length (taken y)) \<and>
     (\<forall>j < seen_head x. views ! j \<le> seen_tail y) \<and>
     (\<forall>j. length (taken x) \<le> j \<and> j < length (published x) \<longrightarrow>
        published x ! j \<notin> set (drop (views ! j) (published y))) \<and>
     distinct (drop (seen_tail y) (published y) @ own)"

abbreviation in_ring :: "'a spsc \<Rightarrow> 'a list" where
  "in_ring x \<equiv> drop (length (taken x)) (published x)"

lemma view_okI:
  assumes "length views = length (published x)" and "sorted views" and "\<And>v. v \<in> set views \<Longrightarrow> v \<le> length (taken y)"
    and "\<And>j. j < seen_head x \<Longrightarrow> views ! j \<le> seen_tail y"
    and "\<And>j. length (taken x) \<le> j \<Longrightarrow> j < length (published x) \<Longrightarrow>
           published x ! j \<notin> set (drop (views ! j) (published y))"
    and "distinct (drop (seen_tail y) (published y) @ own)"
  shows "view_ok x y views own"
  unfolding view_ok_def using assms by blast

lemma view_okD:
  assumes "view_ok x y views own"
  shows view_length: "length views = length (published x)"
    and view_sorted: "sorted views"
    and view_taken: "\<And>v. v \<in> set views \<Longrightarrow> v \<le> length (taken y)"
    and view_seen: "\<And>j. j < seen_head x \<Longrightarrow> views ! j \<le> seen_tail y"
    and view_items: "\<And>j. length (taken x) \<le> j \<Longrightarrow> j < length (published x) \<Longrightarrow>
           published x ! j \<notin> set (drop (views ! j) (published y))"
    and view_distinct: "distinct (drop (seen_tail y) (published y) @ own)"
  using assms unfolding view_ok_def by blast+

lemma view_ok_cong:
  assumes "view_ok x y views own"
    and "published x' = published x" "taken x' = taken x" "seen_head x' = seen_head x"
    and "published y' = published y" "length (taken y) \<le> length (taken y')" "seen_tail y' = seen_tail y"
  shows "view_ok x' y' views own"
proof (rule view_okI)
  fix v assume "v \<in> set views"
  with view_taken [OF assms(1)] assms(6) show "v \<le> length (taken y')" by fastforce
qed (use view_okD [OF assms(1)] assms(2-) in \<open>simp_all\<close>)

lemma distinct_drop_mono:
  assumes "m \<le> n" and "distinct (drop m xs @ ys)"
  shows "distinct (drop n xs @ ys)"
proof -
  define zs where "zs = drop m xs"
  have "drop n xs = drop (n - m) zs" using assms(1) by (simp add: zs_def)
  then show ?thesis using assms(2) by (auto simp: zs_def [symmetric] dest: in_set_dropD)
qed

lemma nth_in_drop: "m \<le> j \<Longrightarrow> j < length xs \<Longrightarrow> xs ! j \<in> set (drop m xs)"
  using nth_mem [of "j - m" "drop m xs"] by simp

text \<open>The thread loads the tail of the ring it sends on.\<close>

lemma view_ok_see_tail:
  assumes ok: "view_ok x y views own" and v: "seen_tail y \<le> v"
    and eq: "published x' = published x" "taken x' = taken x" "seen_head x' = seen_head x"
      "published y' = published y" "taken y' = taken y" "seen_tail y' = v"
  shows "view_ok x' y' views own"
proof (rule view_okI)
  show "distinct (drop (seen_tail y') (published y') @ own)"
    using distinct_drop_mono [OF v view_distinct [OF ok]] eq by simp
  show "views ! j \<le> seen_tail y'" if "j < seen_head x'" for j
    using view_seen [OF ok, of j] that v eq by simp
qed (use view_okD [OF ok] eq in \<open>simp_all\<close>)

text \<open>The thread loads the head of the ring it receives from.\<close>

lemma view_ok_see_head:
  assumes ok: "view_ok x y views own" and v: "v \<le> length (published x)"
    and eq: "published x' = published x" "taken x' = taken x" "seen_head x' = v"
  shows "view_ok x' (synchronise views v y) views own"
proof (rule view_okI)
  let ?t = "max (seen_tail y) (if v = 0 then 0 else views ! (v - 1))"
  have "distinct (drop ?t (published y) @ own)"
    by (rule distinct_drop_mono [OF _ view_distinct [OF ok]]) simp
  then show "distinct (drop (seen_tail (synchronise views v y)) (published (synchronise views v y)) @ own)"
    by (simp only: synchronise_sel)
  show "views ! j \<le> seen_tail (synchronise views v y)" if "j < seen_head x'" for j
  proof -
    have "views ! j \<le> views ! (v - 1)"
      using that eq v view_length [OF ok] by (intro sorted_nth_mono [OF view_sorted [OF ok]]) simp_all
    then show ?thesis using that eq by simp
  qed
qed (use view_okD [OF ok] eq in \<open>simp_all\<close>)

text \<open>The thread takes the next items.\<close>

lemma view_ok_take:
  assumes ok: "view_ok x y views own" and buf: "in_ring x = buf @ rest" "length (taken x) + length buf \<le> seen_head x"
    and dist: "distinct (own @ buf)"
    and eq: "published x' = published x" "taken x' = taken x @ buf" "seen_head x' = seen_head x"
  shows "view_ok x' y views (own @ buf)"
proof (rule view_okI)
  have "b \<notin> set (drop (seen_tail y) (published y))" if "b \<in> set buf" for b
  proof -
    from that obtain i where i: "i < length buf" "b = buf ! i" by (auto simp: in_set_conv_nth)
    let ?j = "length (taken x) + i"
    have "in_ring x ! i = b" "i < length (in_ring x)" using buf(1) i by (simp_all add: nth_append)
    then have "b \<notin> set (drop (views ! ?j) (published y))" using view_items [OF ok, of ?j] by simp
    moreover have "views ! ?j \<le> seen_tail y" using view_seen [OF ok] buf(2) i by simp
    ultimately show ?thesis by (meson set_drop_subset_set_drop subsetD)
  qed
  then show "distinct (drop (seen_tail y) (published y) @ own @ buf)"
    using view_distinct [OF ok] dist by auto
qed (use view_okD [OF ok] eq in \<open>simp_all\<close>)

text \<open>The thread sends items it holds; for the other thread they are new in the ring.\<close>

lemma view_ok_send:
  assumes ok: "view_ok x y views own" and own: "mset own = mset its + mset own'"
    and len: "seen_tail y \<le> length (published y)" "length (taken y) \<le> length (published y)"
    and disj: "set (in_ring x) \<inter> set its = {}"
    and eq: "published y' = published y @ its" "taken y' = taken y" "seen_tail y' = seen_tail y"
  shows "view_ok x y' views own'"
proof (rule view_okI)
  have "mset (drop (seen_tail y) (published y @ its) @ own') = mset (drop (seen_tail y) (published y) @ own)"
    using own len(1) by simp
  then show "distinct (drop (seen_tail y') (published y') @ own')"
    using view_distinct [OF ok] mset_eq_imp_distinct_iff eq by metis
  show "published x ! j \<notin> set (drop (views ! j) (published y'))"
    if "length (taken x) \<le> j" "j < length (published x)" for j
  proof -
    have "published x ! j \<notin> set its" using disj nth_in_drop [OF that] by blast
    moreover have "views ! j \<le> length (published y)"
      using view_taken [OF ok nth_mem] view_length [OF ok] that len(2) by fastforce
    ultimately show ?thesis using view_items [OF ok that] eq by simp
  qed
qed (use view_okD [OF ok] eq in \<open>simp_all\<close>)

lemma view_ok_receive:
  assumes ok: "view_ok x y views own" and len: "seen_head x \<le> length (published x)"
    and disj: "set (in_ring y) \<inter> set its = {}"
    and eq: "published x' = published x @ its" "taken x' = taken x" "seen_head x' = seen_head x"
  shows "view_ok x' y (views @ replicate (length its) (length (taken y))) own"
proof (rule view_okI)
  let ?views = "views @ replicate (length its) (length (taken y))"
  note l = view_length [OF ok]
  show "sorted ?views" using view_sorted [OF ok] view_taken [OF ok] by (auto simp: sorted_append)
  show "?views ! j \<le> seen_tail y" if "j < seen_head x'" for j
    using view_seen [OF ok, of j] that eq len l by (simp add: nth_append)
  show "v \<le> length (taken y)" if "v \<in> set ?views" for v
    using that view_taken [OF ok] by auto
  show "published x' ! j \<notin> set (drop (?views ! j) (published y))"
    if "length (taken x') \<le> j" "j < length (published x')" for j
  proof (cases "j < length (published x)")
    case True
    then show ?thesis using view_items [OF ok, of j] that l eq by (simp add: nth_append)
  next
    case False
    then have "published x' ! j \<in> set its" "?views ! j = length (taken y)"
      using that l eq by (simp_all add: nth_append)
    then show ?thesis using disj by auto
  qed
qed (use view_okD [OF ok] eq in \<open>simp_all\<close>)

text \<open>There is room: the items it takes to be in the ring and its own are different blocks.\<close>

lemma view_ok_room:
  assumes "view_ok x y views own" and "set (published y) \<union> set own \<subseteq> set (all_slots P)" and "seen_tail y \<le> v"
  shows "length (published y) - v + length own \<le> unat P"
proof -
  note d = distinct_drop_mono [OF assms(3) view_distinct [OF assms(1)]]
  have "set (drop v (published y) @ own) \<subseteq> set (all_slots P)"
    using assms(2) set_drop_subset [of v "published y"] by auto
  then have "card (set (drop v (published y) @ own)) \<le> card (set (all_slots P))" by (intro card_mono) auto
  then show ?thesis unfolding distinct_card [OF d] distinct_card [OF all_slots_props(2)] by simp
qed

section \<open>Invariant\<close>

fun rx_sending :: "rx_pc \<Rightarrow> ptr list" where
  "rx_sending (Rx_send b) = [b]"
| "rx_sending (Rx_drop b) = [b]"
| "rx_sending _ = []"

fun wk_held :: "wk_pc \<Rightarrow> ptr list" where
  "wk_held (Wk_handle burst i) = burst"
| "wk_held (Wk_free burst) = burst"
| "wk_held _ = []"

text \<open>A call that is going to store all its items.\<close>

fun putting :: "'a put_call \<Rightarrow> 'a list \<Rightarrow> 'a producer \<Rightarrow> bool" where
  "putting c its P_idle \<longleftrightarrow> False"
| "putting c its (P_head c' h) \<longleftrightarrow> c' = c"
| "putting c its (P_write its' h cnt i) \<longleftrightarrow> its' = its \<and> unat cnt = length its"

definition rings_ok :: "size_t \<Rightarrow> size_t \<Rightarrow> pipeline \<Rightarrow> bool" where
  "rings_ok R P s \<longleftrightarrow> spsc_inv P (pl_free s) \<and> spsc_inv R (pl_data s)"

definition pcs_ok :: "pipeline \<Rightarrow> bool" where
  "pcs_ok s \<longleftrightarrow>
     (pl_rx s \<noteq> Rx_alloc \<longrightarrow> consumer (pl_free s) = C_idle) \<and> (pl_wk s \<noteq> Wk_take \<longrightarrow> consumer (pl_data s) = C_idle) \<and>
     (case pl_rx s of Rx_send b \<Rightarrow> putting (Enqueue b) [b] (producer (pl_data s)) | Rx_drop b \<Rightarrow> False
      | _ \<Rightarrow> producer (pl_data s) = P_idle) \<and>
     (case pl_wk s of
        Wk_free burst \<Rightarrow> putting (EnqueueBurst burst (of_nat (length burst))) burst (producer (pl_free s))
      | _ \<Rightarrow> producer (pl_free s) = P_idle)"

definition pl_blocks :: "pipeline \<Rightarrow> ptr list" where
  "pl_blocks s = in_ring (pl_free s) @ pl_hand s @ rx_sending (pl_rx s) @ in_ring (pl_data s) @ wk_held (pl_wk s)"

definition blocks_ok :: "size_t \<Rightarrow> pipeline \<Rightarrow> bool" where
  "blocks_ok P s \<longleftrightarrow> mset (pl_blocks s) = mset (all_slots P) \<and>
     set (published (pl_free s)) \<subseteq> set (all_slots P) \<and> set (published (pl_data s)) \<subseteq> set (all_slots P)"

definition views_ok :: "pipeline \<Rightarrow> bool" where
  "views_ok s \<longleftrightarrow> view_ok (pl_free s) (pl_data s) (pl_free_views s) (pl_hand s @ rx_sending (pl_rx s)) \<and>
     view_ok (pl_data s) (pl_free s) (pl_data_views s) (wk_held (pl_wk s))"

definition packets_ok :: "pipeline \<Rightarrow> bool" where
  "packets_ok s \<longleftrightarrow>
     (let n = length (taken (pl_data s)); queue = published (pl_data s) in
      length (pl_sent s) = length queue \<and>
      (\<forall>j. n \<le> j \<and> j < length queue \<longrightarrow> pl_mem s (queue ! j) = pl_sent s ! j) \<and>
      (case pl_wk s of
         Wk_handle burst i \<Rightarrow> i \<le> length burst \<and> length burst \<le> n \<and>
           pl_handled s = take (n - length burst + i) (pl_sent s) \<and>
           (\<forall>k. i \<le> k \<and> k < length burst \<longrightarrow> pl_mem s (burst ! k) = pl_sent s ! (n - length burst + k))
       | _ \<Rightarrow> pl_handled s = take n (pl_sent s)))"

definition pipeline_inv :: "size_t \<Rightarrow> size_t \<Rightarrow> pipeline \<Rightarrow> bool" where
  "pipeline_inv R P s \<longleftrightarrow> rings_ok R P s \<and> pcs_ok s \<and> blocks_ok P s \<and> views_ok s \<and> packets_ok s"

lemma spsc_lengths:
  assumes "spsc_inv C x"
  shows "seen_tail x \<le> length (taken x)" "length (taken x) \<le> seen_head x" "seen_head x \<le> length (published x)"
    "length (taken x) \<le> length (published x)" "seen_tail x \<le> length (published x)"
  using assms unfolding spsc_inv_def by linarith+

lemma spsc_read_done:
  assumes "spsc_inv C x" and "consumer x = C_read t cnt buf" and "length buf = unat cnt"
  shows "in_ring x = buf @ drop (length (taken x @ buf)) (published x)"
    and "length (taken x) + length buf \<le> seen_head x"
proof -
  have buf: "take (length buf) (in_ring x) = buf" using assms(1,2) unfolding spsc_inv_def by simp
  have "in_ring x = buf @ drop (length buf) (in_ring x)" using buf by (metis append_take_drop_id)
  then show "in_ring x = buf @ drop (length (taken x @ buf)) (published x)"
    by (simp only: drop_drop length_append add.commute)
  show "length (taken x) + length buf \<le> seen_head x" using assms unfolding spsc_inv_def by simp
qed

lemma blocks_distinct: "blocks_ok P s \<Longrightarrow> distinct (pl_blocks s)"
  unfolding blocks_ok_def using mset_eq_imp_distinct_iff all_slots_props(2) by metis

lemma synchronise_inv:
  assumes "spsc_inv C y" and "view_ok x y views own" and "v \<le> length (published x)"
  shows "spsc_inv C (synchronise views v y)"
proof -
  have "views ! (v - 1) \<le> length (taken y)" if "v \<noteq> 0"
    using that assms(3) view_length [OF assms(2)] by (intro view_taken [OF assms(2)] nth_mem) simp
  then have le: "seen_tail (synchronise views v y) \<le> length (taken y)"
    using spsc_lengths(1) [OF assms(1)] by simp
  have ge: "seen_tail y \<le> seen_tail (synchronise views v y)" by simp
  have p: "producer_inv C (synchronise views v y) (producer y)"
    using assms(1) ge by (cases "producer y") (auto simp: spsc_inv_def simp del: synchronise_sel(7))
  have c: "consumer_inv (synchronise views v y) (consumer y)"
    using assms(1) by (cases "consumer y") (simp_all add: spsc_inv_def)
  show ?thesis using assms(1) le ge p c unfolding spsc_inv_def by (simp del: synchronise_sel(7))
qed

text \<open>Every step is a step of a ring, or of none.\<close>

lemma rx_rings:
  assumes "rx_step R P s t" and "pipeline_inv R P s"
  shows "rings_ok R P t"
proof -
  have inv: "spsc_inv P (pl_free s)" "spsc_inv R (pl_data s)"
    and view: "view_ok (pl_free s) (pl_data s) (pl_free_views s) (pl_hand s @ rx_sending (pl_rx s))"
    using assms(2) by (simp_all add: pipeline_inv_def rings_ok_def views_ok_def)
  show ?thesis
    using assms(1) unfolding rings_ok_def
    by cases (use inv view in \<open>auto intro: spsc_step_invs synchronise_inv\<close>)
qed

lemma wk_rings:
  assumes "wk_step R P s t" and "pipeline_inv R P s" and "length (wk_held (pl_wk s)) < 2 ^ 64"
  shows "rings_ok R P t"
proof -
  have inv: "spsc_inv P (pl_free s)" "spsc_inv R (pl_data s)"
    and view: "view_ok (pl_data s) (pl_free s) (pl_data_views s) (wk_held (pl_wk s))"
    using assms(2) by (simp_all add: pipeline_inv_def rings_ok_def views_ok_def)
  have ok: "put_ok (EnqueueBurst (wk_held (pl_wk s)) (of_nat (length (wk_held (pl_wk s)))))"
    using assms(3) by (simp add: unat_of_nat)
  show ?thesis
    using assms(1) unfolding rings_ok_def
    by cases (use inv view ok in \<open>auto intro: spsc_step_invs synchronise_inv\<close>)
qed

text \<open>A thread that stores no more than there is room for, as far as it knows, stores everything.\<close>

lemma putting_load:
  assumes inv: "spsc_inv C x" and pc: "producer x = P_head c h" and v: "seen_tail x \<le> v" "v \<le> length (taken x)"
    and room: "length (published x) - v + length its \<le> unat C"
    and c: "c = Enqueue b \<and> its = [b] \<or> c = EnqueueBurst its (of_nat (length its))"
  shows "putting c its (put_check C c h (of_nat v))"
proof -
  have h: "h = of_nat (length (published x))" using inv pc by (simp add: spsc_inv_def)
  have le: "length (published x) \<le> v + unat C" "v \<le> length (published x)"
    using inv v by (auto simp: spsc_inv_def)
  let ?d = "of_nat (length (published x)) - of_nat v :: size_t"
  have d: "unat ?d = length (published x) - v" by (rule put_dist [OF le])
  have "length its < 2 ^ 64" using room unat_size_t_less [of C] by linarith
  then have n: "unat (of_nat (length its) :: size_t) = length its" by (simp add: unat_of_nat)
  have "unat (C - ?d) = unat C - (length (published x) - v)"
    using d le(1) by (subst unat_sub) (auto simp: word_le_nat_alt)
  then have "\<not> C - ?d < of_nat (length its)" using n room by (simp add: word_less_nat_alt)
  moreover have "\<not> C \<le> ?d" if "its \<noteq> []" using that d room by (cases its) (auto simp: word_le_nat_alt)
  ultimately show ?thesis using c h n by (auto simp: Let_def not_less order_class.antisym_conv1)
qed

lemma blocks_subset:
  assumes "blocks_ok P s"
  shows "set (published (pl_data s)) \<union> set (pl_hand s @ rx_sending (pl_rx s)) \<subseteq> set (all_slots P)"
    and "set (published (pl_free s)) \<union> set (wk_held (pl_wk s)) \<subseteq> set (all_slots P)"
  using assms mset_eq_setD [of "pl_blocks s" "all_slots P"] by (auto simp: blocks_ok_def pl_blocks_def)

lemma rx_pcs:
  assumes "rx_step R P s t" and "pipeline_inv R P s" and "unat P \<le> unat R"
  shows "pcs_ok t"
proof -
  have inv: "spsc_inv R (pl_data s)" and pcs: "pcs_ok s" and blocks: "blocks_ok P s"
    and view: "view_ok (pl_free s) (pl_data s) (pl_free_views s) (pl_hand s @ rx_sending (pl_rx s))"
    using assms(2) by (simp_all add: pipeline_inv_def rings_ok_def views_ok_def)
  show ?thesis
    using assms(1)
  proof cases
    case (send_load b d c h v)
    have "length (published d) - v + length [b] \<le> unat R"
      using view_ok_room [OF view blocks_subset(1) [OF blocks], of v] send_load assms(3) by simp
    moreover have "c = Enqueue b" using pcs send_load by (simp add: pcs_ok_def)
    ultimately have "putting (Enqueue b) [b] (producer (pl_data t))"
      using putting_load [of R d c h v "[b]" b] inv send_load by (simp del: put_check.simps)
    moreover have "pl_rx t = Rx_send b" "pl_wk t = pl_wk s" "pl_free t = pl_free s" "consumer (pl_data t) = consumer (pl_data s)"
      using send_load by simp_all
    ultimately show ?thesis using pcs send_load(2) by (auto simp: pcs_ok_def split: wk_pc.splits)
  qed (use pcs in \<open>auto simp: pcs_ok_def split: wk_pc.splits\<close>)
qed

lemma wk_pcs:
  assumes "wk_step R P s t" and "pipeline_inv R P s"
  shows "pcs_ok t"
proof -
  have inv: "spsc_inv P (pl_free s)" and pcs: "pcs_ok s" and blocks: "blocks_ok P s"
    and view: "view_ok (pl_data s) (pl_free s) (pl_data_views s) (wk_held (pl_wk s))"
    using assms(2) by (simp_all add: pipeline_inv_def rings_ok_def views_ok_def)
  show ?thesis
    using assms(1)
  proof cases
    case (free_load burst f c h v)
    have "length (published f) - v + length burst \<le> unat P"
      using view_ok_room [OF view blocks_subset(2) [OF blocks], of v] free_load by simp
    moreover have "c = EnqueueBurst burst (of_nat (length burst))" using pcs free_load by (simp add: pcs_ok_def)
    ultimately have "putting (EnqueueBurst burst (of_nat (length burst))) burst (put_check P c h (of_nat v))"
      using putting_load [of P f c h v burst] inv free_load by simp
    with pcs free_load show ?thesis by (auto simp: pcs_ok_def split: rx_pc.splits)
  qed (use pcs in \<open>auto simp: pcs_ok_def split: rx_pc.splits\<close>)
qed

text \<open>Blocks move from place to place.\<close>

lemma rx_blocks:
  assumes "rx_step R P s t" and "pipeline_inv R P s"
  shows "blocks_ok P t"
proof -
  have inv: "spsc_inv P (pl_free s)" "spsc_inv R (pl_data s)" and pcs: "pcs_ok s" and blocks: "blocks_ok P s"
    using assms(2) by (simp_all add: pipeline_inv_def rings_ok_def)
  show ?thesis
    using assms(1)
  proof cases
    case (alloc_done f t' cnt buf)
    note split = spsc_read_done(1) [OF inv(1), of t' cnt buf]
    have "mset (in_ring (pl_free s)) = mset buf + mset (drop (length (taken f @ buf)) (published f))"
      using split alloc_done by (metis mset_append)
    with blocks alloc_done show ?thesis by (simp add: blocks_ok_def pl_blocks_def ac_simps)
  next
    case (send_publish b d its h cnt)
    then have "its = [b]" "unat cnt = 1" using pcs by (auto simp: pcs_ok_def)
    with blocks blocks_subset(1) [OF blocks] send_publish spsc_lengths(4) [OF inv(2)] show ?thesis
      by (simp add: blocks_ok_def pl_blocks_def ac_simps)
  next
    case (send_start b d)
    then have "mset (pl_blocks t) = mset (pl_blocks s)" by (simp add: pl_blocks_def)
    with blocks send_start show ?thesis by (simp add: blocks_ok_def)
  qed (use blocks in \<open>simp_all add: blocks_ok_def pl_blocks_def\<close>)
qed

lemma wk_blocks:
  assumes "wk_step R P s t" and "pipeline_inv R P s"
  shows "blocks_ok P t"
proof -
  have inv: "spsc_inv P (pl_free s)" "spsc_inv R (pl_data s)" and pcs: "pcs_ok s" and blocks: "blocks_ok P s"
    using assms(2) by (simp_all add: pipeline_inv_def rings_ok_def)
  show ?thesis
    using assms(1)
  proof cases
    case (take_done d t' cnt buf)
    note split = spsc_read_done(1) [OF inv(2), of t' cnt buf]
    have "mset (in_ring (pl_data s)) = mset buf + mset (drop (length (taken d @ buf)) (published d))"
      using split take_done by (metis mset_append)
    moreover have "wk_held (pl_wk t) = buf" using take_done by simp
    ultimately show ?thesis using blocks take_done by (simp add: blocks_ok_def pl_blocks_def ac_simps split: if_split_asm)
  next
    case (free_publish burst f its h cnt)
    then have "its = burst" "unat cnt = length burst" using pcs by (auto simp: pcs_ok_def)
    with blocks blocks_subset(2) [OF blocks] free_publish spsc_lengths(4) [OF inv(1)] show ?thesis
      by (simp add: blocks_ok_def pl_blocks_def ac_simps)
  qed (use blocks in \<open>simp_all add: blocks_ok_def pl_blocks_def\<close>)
qed

text \<open>What the threads know stays true.\<close>

lemma views_ok_same:
  assumes "views_ok s"
    and "published (pl_free t) = published (pl_free s)" "taken (pl_free t) = taken (pl_free s)"
      "seen_head (pl_free t) = seen_head (pl_free s)" "seen_tail (pl_free t) = seen_tail (pl_free s)"
      "published (pl_data t) = published (pl_data s)" "taken (pl_data t) = taken (pl_data s)"
      "seen_head (pl_data t) = seen_head (pl_data s)" "seen_tail (pl_data t) = seen_tail (pl_data s)"
      "pl_free_views t = pl_free_views s" "pl_data_views t = pl_data_views s" "wk_held (pl_wk t) = wk_held (pl_wk s)"
    and "mset (pl_hand t @ rx_sending (pl_rx t)) = mset (pl_hand s @ rx_sending (pl_rx s))"
  shows "views_ok t"
  using assms(1) mset_eq_imp_distinct_iff [OF assms(13)] mset_eq_setD [OF assms(13)]
  unfolding views_ok_def view_ok_def distinct_append assms(2-12) by simp

lemma rx_views:
  assumes "rx_step R P s t" and "pipeline_inv R P s"
  shows "views_ok t"
proof -
  let ?f = "pl_free s" and ?d = "pl_data s" and ?own = "pl_hand s @ rx_sending (pl_rx s)"
  have inv: "spsc_inv P ?f" "spsc_inv R ?d" and pcs: "pcs_ok s" and blocks: "blocks_ok P s" and ok: "views_ok s"
    using assms(2) by (simp_all add: pipeline_inv_def rings_ok_def)
  then have mine: "view_ok ?f ?d (pl_free_views s) ?own"
    and other: "view_ok ?d ?f (pl_data_views s) (wk_held (pl_wk s))" by (simp_all add: views_ok_def)
  note dist = blocks_distinct [OF blocks, unfolded pl_blocks_def]
  show ?thesis
    using assms(1)
  proof cases
    case (alloc_load f g t' v)
    have "view_ok (pl_free t) (pl_data t) (pl_free_views s) ?own"
      using view_ok_see_head [OF mine, of v "pl_free t"] alloc_load by simp
    moreover have "view_ok (pl_data t) (pl_free t) (pl_data_views s) (wk_held (pl_wk s))"
      by (rule view_ok_cong [OF other]) (simp_all add: alloc_load)
    ultimately show ?thesis using alloc_load by (simp add: views_ok_def)
  next
    case (alloc_done f t' cnt buf)
    note read = spsc_read_done [OF inv(1), of t' cnt buf]
    have d: "distinct (?own @ buf)" using dist read(1) alloc_done by auto
    have "view_ok (pl_free t) ?d (pl_free_views s) (?own @ buf)"
      by (rule view_ok_take [OF mine read d]) (use alloc_done in \<open>simp_all\<close>)
    moreover have "view_ok ?d (pl_free t) (pl_data_views s) (wk_held (pl_wk s))"
      by (rule view_ok_cong [OF other]) (simp_all add: alloc_done)
    ultimately show ?thesis using alloc_done by (simp add: views_ok_def)
  next
    case (send_load b d c h v)
    have "view_ok (pl_free t) (pl_data t) (pl_free_views s) ?own"
      by (rule view_ok_see_tail [OF mine, of v]) (use send_load in \<open>simp_all\<close>)
    moreover have "view_ok (pl_data t) (pl_free t) (pl_data_views s) (wk_held (pl_wk s))"
      by (rule view_ok_cong [OF other]) (simp_all add: send_load)
    ultimately show ?thesis using send_load by (simp add: views_ok_def)
  next
    case (send_publish b d its h cnt)
    then have its: "its = [b]" "unat cnt = 1" using pcs by (auto simp: pcs_ok_def)
    have disj: "set (in_ring ?f) \<inter> set [b] = {}" using dist send_publish by auto
    have "view_ok ?f (pl_data t) (pl_free_views s) (pl_hand s)"
      by (rule view_ok_send [OF mine _ spsc_lengths(5,4) [OF inv(2)] disj]) (simp_all add: send_publish its)
    moreover have "view_ok (pl_data t) ?f (pl_data_views s @ replicate (length [b]) (length (taken ?f))) (wk_held (pl_wk s))"
      by (rule view_ok_receive [OF other spsc_lengths(3) [OF inv(2)] disj]) (simp_all add: send_publish its)
    ultimately show ?thesis using send_publish its by (simp add: views_ok_def)
  qed (rule views_ok_same [OF ok], simp_all)+
qed

lemma wk_views:
  assumes "wk_step R P s t" and "pipeline_inv R P s"
  shows "views_ok t"
proof -
  let ?f = "pl_free s" and ?d = "pl_data s" and ?own = "pl_hand s @ rx_sending (pl_rx s)"
  have inv: "spsc_inv P ?f" "spsc_inv R ?d" and pcs: "pcs_ok s" and blocks: "blocks_ok P s" and ok: "views_ok s"
    using assms(2) by (simp_all add: pipeline_inv_def rings_ok_def)
  then have other: "view_ok ?f ?d (pl_free_views s) ?own"
    and mine: "view_ok ?d ?f (pl_data_views s) (wk_held (pl_wk s))" by (simp_all add: views_ok_def)
  note dist = blocks_distinct [OF blocks, unfolded pl_blocks_def]
  show ?thesis
    using assms(1)
  proof cases
    case (take_load d g t' v)
    have "view_ok (pl_data t) (pl_free t) (pl_data_views s) (wk_held (pl_wk s))"
      using view_ok_see_head [OF mine, of v "pl_data t"] take_load by simp
    moreover have "view_ok (pl_free t) (pl_data t) (pl_free_views s) ?own"
      by (rule view_ok_cong [OF other]) (simp_all add: take_load)
    ultimately show ?thesis using take_load by (simp add: views_ok_def)
  next
    case (take_done d t' cnt buf)
    note read = spsc_read_done [OF inv(2), of t' cnt buf]
    have d: "distinct (wk_held (pl_wk s) @ buf)" using dist read(1) take_done by auto
    have "view_ok (pl_data t) ?f (pl_data_views s) (wk_held (pl_wk s) @ buf)"
      by (rule view_ok_take [OF mine read d]) (use take_done in \<open>simp_all\<close>)
    moreover have "view_ok ?f (pl_data t) (pl_free_views s) ?own"
      by (rule view_ok_cong [OF other]) (simp_all add: take_done)
    ultimately show ?thesis using take_done by (cases "buf = []") (simp_all add: views_ok_def)
  next
    case (free_load burst f c h v)
    have "view_ok (pl_data t) (pl_free t) (pl_data_views s) (wk_held (pl_wk s))"
      by (rule view_ok_see_tail [OF mine, of v]) (use free_load in \<open>simp_all\<close>)
    moreover have "view_ok (pl_free t) (pl_data t) (pl_free_views s) ?own"
      by (rule view_ok_cong [OF other]) (simp_all add: free_load)
    ultimately show ?thesis using free_load by (simp add: views_ok_def)
  next
    case (free_publish burst f its h cnt)
    then have its: "its = burst" "unat cnt = length burst" using pcs by (auto simp: pcs_ok_def)
    have disj: "set (in_ring ?d) \<inter> set burst = {}" using dist free_publish by auto
    have "view_ok ?d (pl_free t) (pl_data_views s) []"
      by (rule view_ok_send [OF mine _ spsc_lengths(5,4) [OF inv(1)] disj]) (simp_all add: free_publish its)
    moreover have "view_ok (pl_free t) ?d (pl_free_views s @ replicate (length burst) (length (taken ?d))) ?own"
      by (rule view_ok_receive [OF other spsc_lengths(3) [OF inv(1)] disj]) (simp_all add: free_publish its)
    ultimately show ?thesis using free_publish its by (simp add: views_ok_def)
  qed (rule views_ok_same [OF ok], simp_all)+
qed

text \<open>The handler sees the packets as they were sent.\<close>

lemma rx_packets:
  assumes "rx_step R P s t" and "pipeline_inv R P s"
  shows "packets_ok t"
proof -
  have inv: "spsc_inv R (pl_data s)" and pcs: "pcs_ok s" and blocks: "blocks_ok P s" and ok: "packets_ok s"
    using assms(2) by (simp_all add: pipeline_inv_def rings_ok_def)
  note dist = blocks_distinct [OF blocks, unfolded pl_blocks_def]
  show ?thesis
    using assms(1)
  proof cases
    case (fill b pkt)
    have "published (pl_data s) ! j \<noteq> b"
      if "length (taken (pl_data s)) \<le> j" "j < length (published (pl_data s))" for j
      using nth_in_drop [OF that] dist fill by auto
    moreover have "burst ! k \<noteq> b" if "pl_wk s = Wk_handle burst i" "k < length burst" for burst i k
      using dist fill that nth_mem [of k burst] by auto
    ultimately show ?thesis using ok fill by (auto simp: packets_ok_def Let_def split: wk_pc.splits)
  next
    case (send_publish b d its h cnt)
    then have its: "its = [b]" "unat cnt = 1" using pcs by (auto simp: pcs_ok_def)
    have n: "length (taken (pl_data s)) \<le> length (pl_sent s)" "length (pl_sent s) = length (published (pl_data s))"
      using ok spsc_lengths(4) [OF inv] by (simp_all add: packets_ok_def Let_def)
    with ok send_publish its show ?thesis
      by (auto simp: packets_ok_def Let_def nth_append less_Suc_eq split: wk_pc.splits)
  qed (use ok in \<open>simp_all add: packets_ok_def Let_def split: wk_pc.splits\<close>)
qed

lemma wk_packets:
  assumes "wk_step R P s t" and "pipeline_inv R P s"
  shows "packets_ok t"
proof -
  have inv: "spsc_inv R (pl_data s)" and pcs: "pcs_ok s" and blocks: "blocks_ok P s" and ok: "packets_ok s"
    using assms(2) by (simp_all add: pipeline_inv_def rings_ok_def)
  note dist = blocks_distinct [OF blocks, unfolded pl_blocks_def]
  show ?thesis
    using assms(1)
  proof cases
    case (take_done d t' cnt buf)
    let ?n = "length (taken (pl_data s))"
    note read = spsc_read_done [OF inv, of t' cnt buf]
    have "in_ring d = buf @ drop (length (taken d @ buf)) (published d)" using read(1) take_done by simp
    then have b: "buf ! k = in_ring d ! k" "k < length (in_ring d)" if "k < length buf" for k
      using that by (metis nth_append, metis length_append trans_less_add1)
    have "pl_mem s (buf ! k) = pl_sent s ! (?n + k)" if "k < length buf" for k
      using b [OF that] ok take_done by (simp add: packets_ok_def Let_def)
    with ok take_done show ?thesis by (auto simp: packets_ok_def Let_def)
  next
    case (handle burst i pkt)
    have "published (pl_data s) ! j \<noteq> burst ! i"
      if "length (taken (pl_data s)) \<le> j" "j < length (published (pl_data s))" for j
      using nth_in_drop [OF that] dist handle nth_mem [of i burst] by auto
    moreover have "burst ! k \<noteq> burst ! i" if "k < length burst" "k \<noteq> i" for k
      using dist handle that by (simp add: nth_eq_iff_index_eq)
    moreover have "length (taken (pl_data s)) \<le> length (pl_sent s)"
      using ok spsc_lengths(4) [OF inv] by (simp add: packets_ok_def Let_def)
    ultimately show ?thesis using ok handle by (auto simp: packets_ok_def Let_def take_Suc_conv_app_nth Suc_le_eq)
  qed (use ok in \<open>simp_all add: packets_ok_def Let_def split: wk_pc.splits\<close>)
qed

text \<open>The constructor leaves the free ring full.\<close>

lemma ctor_ring_tail: "ring_tail (free_ring (MemoryPool_ctor P)) = 0"
proof -
  have "ring_tail (fold (\<lambda>i r. snd (enqueue P r (Slot i))) is r) = ring_tail r" for "is" r
    by (induction "is" arbitrary: r) (simp_all add: enqueue_def Let_def)
  then show ?thesis by (simp add: MemoryPool_ctor_def SpscRing_init_def)
qed

lemma pipeline_init_free:
  assumes "pow2 P"
  shows "spsc_inv P (pl_free (pipeline_init R P mem))"
proof -
  let ?r = "free_ring (MemoryPool_ctor P)"
  have wf: "ring_wf P ?r" and items: "ring_items P ?r = all_slots P"
    using MemoryPool_ctor_free [OF assms] by simp_all
  have "unat (ring_head ?r) = unat P"
    using arg_cong [OF items, of length] by (simp add: ring_items_def ctor_ring_tail)
  then have head: "ring_head ?r = P" by (simp only: word_unat_eq_iff)
  have "ring_data ?r ! slot P (of_nat i) = all_slots P ! i" if "i < unat P" for i
    using arg_cong [OF items, of "\<lambda>xs. xs ! i"] that by (simp add: ring_items_def ctor_ring_tail head)
  then show ?thesis
    using wf assms by (simp add: spsc_inv_def pipeline_init_def ring_wf_def head ctor_ring_tail)
qed

lemma pipeline_init_inv:
  assumes "pow2 R" and "pow2 P"
  shows "pipeline_inv R P (pipeline_init R P mem)"
proof -
  have "rings_ok R P (pipeline_init R P mem)"
    using pipeline_init_free [OF assms(2), of R mem] spsc_init_inv [OF assms(1), of Null]
    by (simp add: rings_ok_def pipeline_init_def)
  moreover have "view_ok (pl_free (pipeline_init R P mem)) (spsc_init R Null) (replicate (unat P) 0) []"
    by (rule view_okI) (simp_all add: pipeline_init_def spsc_init_def)
  moreover have "view_ok (spsc_init R Null) (pl_free (pipeline_init R P mem)) [] []"
    by (rule view_okI) (simp_all add: pipeline_init_def spsc_init_def)
  ultimately show ?thesis
    by (simp add: pipeline_inv_def pcs_ok_def blocks_ok_def pl_blocks_def views_ok_def packets_ok_def
        pipeline_init_def spsc_init_def)
qed

lemma held_bound: "blocks_ok P s \<Longrightarrow> length (wk_held (pl_wk s)) < 2 ^ 64"
proof -
  assume "blocks_ok P s"
  then have "length (pl_blocks s) = unat P" unfolding blocks_ok_def by (metis all_slots_props(1) size_mset)
  moreover have "length (wk_held (pl_wk s)) \<le> length (pl_blocks s)" by (simp add: pl_blocks_def)
  ultimately show ?thesis using unat_size_t_less [of P] by linarith
qed

lemma pipeline_step_inv:
  assumes "pipeline_inv R P s" and "rx_step R P s t \<or> wk_step R P s t" and "unat P \<le> unat R"
  shows "pipeline_inv R P t"
  using assms(2)
proof
  assume rx: "rx_step R P s t"
  show ?thesis unfolding pipeline_inv_def
    using rx_rings [OF rx] rx_pcs [OF rx] rx_blocks [OF rx] rx_views [OF rx] rx_packets [OF rx] assms(1,3) by blast
next
  assume wk: "wk_step R P s t"
  have "length (wk_held (pl_wk s)) < 2 ^ 64" using assms(1) by (intro held_bound [of P]) (simp add: pipeline_inv_def)
  then show ?thesis unfolding pipeline_inv_def
    using wk_rings [OF wk] wk_pcs [OF wk] wk_blocks [OF wk] wk_views [OF wk] wk_packets [OF wk] assms(1) by blast
qed

interpretation pipeline_threads: step_invariant
  "\<lambda>s. pow2 R \<and> pow2 P \<and> (\<exists>mem. s = pipeline_init R P mem)" "\<lambda>s t. rx_step R P s t \<or> wk_step R P s t"
  "\<lambda>s. unat P \<le> unat R \<longrightarrow> pipeline_inv R P s" for R P
  by unfold_locales (auto intro: pipeline_init_inv pipeline_step_inv)

section \<open>Abstract specification\<close>

text \<open>
  What the pipeline promises, with no rings, indices or loads: blocks go round between four
  places, the pool, the sender, the queue and the processor, and each transfer is one step.
\<close>

record places =
  at_pool :: "ptr list"
  at_sender :: "ptr multiset"
  at_queue :: "ptr list"
  at_processor :: "ptr list"

inductive transfer :: "places \<Rightarrow> places \<Rightarrow> bool" where
  transfer_alloc: "at_pool p = bs @ rest \<Longrightarrow>
    transfer p (p\<lparr>at_pool := rest, at_sender := at_sender p + mset bs\<rparr>)"
| transfer_send: "at_sender p = add_mset b rest \<Longrightarrow>
    transfer p (p\<lparr>at_sender := rest, at_queue := at_queue p @ [b]\<rparr>)"
| transfer_take: "at_processor p = [] \<Longrightarrow> at_queue p = bs @ rest \<Longrightarrow>
    transfer p (p\<lparr>at_queue := rest, at_processor := bs\<rparr>)"
| transfer_free: "transfer p (p\<lparr>at_pool := at_pool p @ at_processor p, at_processor := []\<rparr>)"

definition places_of :: "pipeline \<Rightarrow> places" where
  "places_of s = \<lparr>at_pool = in_ring (pl_free s), at_sender = mset (pl_hand s @ rx_sending (pl_rx s)),
     at_queue = in_ring (pl_data s), at_processor = wk_held (pl_wk s)\<rparr>"

lemma rx_refines:
  assumes "rx_step R P s t" and "pipeline_inv R P s"
  shows "places_of t = places_of s \<or> transfer (places_of s) (places_of t)"
proof -
  have inv: "spsc_inv P (pl_free s)" "spsc_inv R (pl_data s)" and pcs: "pcs_ok s"
    using assms(2) by (simp_all add: pipeline_inv_def rings_ok_def)
  show ?thesis
    using assms(1)
  proof cases
    case (alloc_done f t' cnt buf)
    have "at_pool (places_of s) = buf @ drop (length (taken f @ buf)) (published f)"
      using spsc_read_done(1) [OF inv(1), of t' cnt buf] alloc_done by (simp add: places_of_def)
    from transfer_alloc [OF this] alloc_done show ?thesis by (simp add: places_of_def)
  next
    case (send_publish b d its h cnt)
    then have "its = [b]" "unat cnt = 1" using pcs by (auto simp: pcs_ok_def)
    with transfer_send [of "places_of s" b "mset (pl_hand s)"] send_publish spsc_lengths(4) [OF inv(2)]
    show ?thesis by (simp add: places_of_def)
  qed (simp_all add: places_of_def)
qed

lemma wk_refines:
  assumes "wk_step R P s t" and "pipeline_inv R P s"
  shows "places_of t = places_of s \<or> transfer (places_of s) (places_of t)"
proof -
  have inv: "spsc_inv P (pl_free s)" "spsc_inv R (pl_data s)" and pcs: "pcs_ok s"
    using assms(2) by (simp_all add: pipeline_inv_def rings_ok_def)
  show ?thesis
    using assms(1)
  proof cases
    case (take_done d t' cnt buf)
    have "at_processor (places_of s) = []" using take_done by (simp add: places_of_def)
    moreover have "at_queue (places_of s) = buf @ drop (length (taken d @ buf)) (published d)"
      using spsc_read_done(1) [OF inv(2), of t' cnt buf] take_done by (simp add: places_of_def)
    ultimately show ?thesis using transfer_take [of "places_of s" buf] take_done by (simp add: places_of_def)
  next
    case (free_publish burst f its h cnt)
    then have "its = burst" "unat cnt = length burst" using pcs by (auto simp: pcs_ok_def)
    with transfer_free [of "places_of s"] free_publish spsc_lengths(4) [OF inv(1)]
    show ?thesis by (simp add: places_of_def)
  qed (simp_all add: places_of_def)
qed

section \<open>Sample runs\<close>

lemma reach_rx: "pipeline_reach R P s \<Longrightarrow> rx_step R P s t \<Longrightarrow> pipeline_reach R P t"
  by (erule reach_step) simp

lemma reach_wk: "pipeline_reach R P s \<Longrightarrow> wk_step R P s t \<Longrightarrow> pipeline_reach R P t"
  by (erule reach_step) simp

text \<open>States of a run in which every packet is the same.\<close>

abbreviation ring_ex :: "size_t \<Rightarrow> size_t \<Rightarrow> ptr list \<Rightarrow> ptr producer \<Rightarrow> ptr consumer \<Rightarrow> nat \<Rightarrow> nat
    \<Rightarrow> ptr list \<Rightarrow> ptr list \<Rightarrow> ptr spsc" where
  "ring_ex h t xs pr co st sh pub tk \<equiv> \<lparr>ring = \<lparr>ring_head = h, ring_tail = t, ring_data = xs\<rparr>, producer = pr,
     consumer = co, seen_tail = st, seen_head = sh, published = pub, taken = tk\<rparr>"

abbreviation pipe_ex :: "ptr spsc \<Rightarrow> ptr spsc \<Rightarrow> rx_pc \<Rightarrow> wk_pc \<Rightarrow> ptr list \<Rightarrow> nat list \<Rightarrow> nat list \<Rightarrow> nat \<Rightarrow> nat
    \<Rightarrow> pipeline" where
  "pipe_ex f d rx wk hand fv dv n k \<equiv> \<lparr>pl_free = f, pl_data = d, pl_rx = rx, pl_wk = wk, pl_hand = hand,
     pl_mem = (\<lambda>_. Packet_init), pl_free_views = fv, pl_data_views = dv,
     pl_sent = replicate n Packet_init, pl_handled = replicate k Packet_init\<rparr>"

lemma packet_mem_const: "(\<lambda>_. p)(x := p) = (\<lambda>_. p)"
  by (rule ext) simp

lemmas run_ex = slot_def MASK_def BURST_SIZE_def synchronise_def packet_mem_const

lemma pipeline_init_ex:
  "pipeline_init 1 1 mem = \<lparr>pl_free = ring_ex 1 0 [Slot 0] P_idle C_idle 0 1 [Slot 0] [],
     pl_data = ring_ex 0 0 [Null] P_idle C_idle 0 0 [] [], pl_rx = Rx_idle, pl_wk = Wk_idle, pl_hand = [], pl_mem = mem,
     pl_free_views = [0], pl_data_views = [], pl_sent = [], pl_handled = []\<rparr>"
  "pipeline_init 1 2 mem = \<lparr>pl_free = ring_ex 2 0 [Slot 0, Slot 1] P_idle C_idle 0 2 [Slot 0, Slot 1] [],
     pl_data = ring_ex 0 0 [Null] P_idle C_idle 0 0 [] [], pl_rx = Rx_idle, pl_wk = Wk_idle, pl_hand = [], pl_mem = mem,
     pl_free_views = [0, 0], pl_data_views = [], pl_sent = [], pl_handled = []\<rparr>"
proof -
  have "[0 ..< 2] = [0, 1 :: nat]" "replicate 2 Null = [Null, Null]" "replicate 2 (0 :: nat) = [0, 0]"
    by (simp_all add: numeral_2_eq_2)
  then show
    "pipeline_init 1 1 mem = \<lparr>pl_free = ring_ex 1 0 [Slot 0] P_idle C_idle 0 1 [Slot 0] [],
     pl_data = ring_ex 0 0 [Null] P_idle C_idle 0 0 [] [], pl_rx = Rx_idle, pl_wk = Wk_idle, pl_hand = [], pl_mem = mem,
     pl_free_views = [0], pl_data_views = [], pl_sent = [], pl_handled = []\<rparr>"
    "pipeline_init 1 2 mem = \<lparr>pl_free = ring_ex 2 0 [Slot 0, Slot 1] P_idle C_idle 0 2 [Slot 0, Slot 1] [],
     pl_data = ring_ex 0 0 [Null] P_idle C_idle 0 0 [] [], pl_rx = Rx_idle, pl_wk = Wk_idle, pl_hand = [], pl_mem = mem,
     pl_free_views = [0, 0], pl_data_views = [], pl_sent = [], pl_handled = []\<rparr>"
    by (simp_all add: pipeline_init_def MemoryPool_ctor_def SpscRing_init_def enqueue_def spsc_init_def all_slots_def
        slot_def MASK_def word_le_nat_alt)
qed

lemma pipeline_ex_sent:
  "pipeline_reach 1 1 (pipe_ex (ring_ex 1 1 [Slot 0] P_idle C_idle 0 1 [Slot 0] [Slot 0])
       (ring_ex 1 0 [Slot 0] P_idle C_idle 0 0 [Slot 0] [])
       Rx_idle Wk_idle [] [0] [1] 1 0)"
proof -
  have "pipeline_reach 1 1 (pipeline_init 1 1 (\<lambda>_. Packet_init))" by (rule reach_init) (auto simp: pow2_def)
  then have "pipeline_reach 1 1 (pipe_ex (ring_ex 1 0 [Slot 0] P_idle C_idle 0 1 [Slot 0] [])
       (ring_ex 0 0 [Null] P_idle C_idle 0 0 [] [])
       Rx_idle Wk_idle [] [0] [] 0 0)"
    by (simp add: pipeline_init_ex)
  from reach_rx [OF reach_rx [OF reach_rx [OF reach_rx [OF this alloc_start] alloc_load [of _ _ Dequeue 0 1]]
      alloc_read [of _ _ 0 1 "[]"]] alloc_done [of _ _ 0 1 "[Slot 0]"]]
  have "pipeline_reach 1 1 (pipe_ex (ring_ex 1 1 [Slot 0] P_idle C_idle 0 1 [Slot 0] [Slot 0])
       (ring_ex 0 0 [Null] P_idle C_idle 0 0 [] [])
       Rx_idle Wk_idle [Slot 0] [0] [] 0 0)"
    by (simp add: run_ex)
  from reach_rx [OF reach_rx [OF reach_rx [OF reach_rx [OF this send_start [of _ "Slot 0"]] send_load [of _
      "Slot 0" _ "Enqueue (Slot 0)" 0 0]] send_store [of _ "Slot 0" _ "[Slot 0]" 0 1 0]] send_publish [of _
      "Slot 0" _ "[Slot 0]" 0 1]]
  show ?thesis by (simp add: run_ex)
qed

abbreviation pipeline_ex :: "ptr list \<Rightarrow> ptr consumer \<Rightarrow> size_t \<Rightarrow> wk_pc \<Rightarrow> nat \<Rightarrow> pipeline" where
  "pipeline_ex tk co t wk k \<equiv> pipe_ex (ring_ex 1 1 [Slot 0] P_idle C_idle 1 1 [Slot 0] [Slot 0])
     (ring_ex 1 t [Slot 0] P_idle co 0 1 [Slot 0] tk) Rx_idle wk [] [0] [1] 1 k"

lemma pipeline_ex_read: "pipeline_reach 1 1 (pipeline_ex [] (C_read 0 1 [Slot 0]) 0 Wk_take 0)"
proof -
  note pipeline_ex_sent
  from reach_wk [OF reach_wk [OF reach_wk [OF this take_start] take_load [of _ _ "DequeueBurst BURST_SIZE" 0 1]]
      take_read [of _ _ 0 1 "[]"]]
  show ?thesis by (simp add: run_ex)
qed

lemma pipeline_ex_take:
  "wk_step 1 1 (pipeline_ex [] (C_read 0 1 [Slot 0]) 0 Wk_take 0) (pipeline_ex [Slot 0] C_idle 1 (Wk_handle [Slot 0] 0) 0)"
  using take_done [of "pipeline_ex [] (C_read 0 1 [Slot 0]) 0 Wk_take 0" _ 0 1 "[Slot 0]" 1 1] by simp

lemma pipeline_ex_handled: "pipeline_reach 1 1 (pipeline_ex [Slot 0] C_idle 1 (Wk_handle [Slot 0] 1) 1)"
proof -
  note reach_wk [OF pipeline_ex_read pipeline_ex_take]
  from reach_wk [OF this handle [of _ "[Slot 0]" 0 _ _ Packet_init]] show ?thesis by (simp add: run_ex)
qed

lemma drop_ex_sent:
  "pipeline_reach 1 2 (pipe_ex (ring_ex 2 2 [Slot 0, Slot 1] P_idle C_idle 0 2 [Slot 0, Slot 1] [Slot 0, Slot 1])
       (ring_ex 1 0 [Slot 0] P_idle C_idle 0 0 [Slot 0] [])
       Rx_idle Wk_idle [Slot 1] [0, 0] [Suc 1] 1 0)"
proof -
  have "pipeline_reach 1 2 (pipeline_init 1 2 (\<lambda>_. Packet_init))" by (rule reach_init) (auto simp: pow2_def)
  then have "pipeline_reach 1 2 (pipe_ex (ring_ex 2 0 [Slot 0, Slot 1] P_idle C_idle 0 2 [Slot 0, Slot 1] [])
       (ring_ex 0 0 [Null] P_idle C_idle 0 0 [] [])
       Rx_idle Wk_idle [] [0, 0] [] 0 0)"
    by (simp add: pipeline_init_ex)
  from reach_rx [OF reach_rx [OF reach_rx [OF reach_rx [OF this alloc_start] alloc_load [of _ _ Dequeue 0 2]]
      alloc_read [of _ _ 0 1 "[]"]] alloc_done [of _ _ 0 1 "[Slot 0]"]]
  have "pipeline_reach 1 2 (pipe_ex (ring_ex 2 1 [Slot 0, Slot 1] P_idle C_idle 0 2 [Slot 0, Slot 1] [Slot 0])
       (ring_ex 0 0 [Null] P_idle C_idle 0 0 [] [])
       Rx_idle Wk_idle [Slot 0] [0, 0] [] 0 0)"
    by (simp add: run_ex)
  from reach_rx [OF reach_rx [OF reach_rx [OF reach_rx [OF this alloc_start] alloc_load [of _ _ Dequeue 1 2]]
      alloc_read [of _ _ 1 1 "[]"]] alloc_done [of _ _ 1 1 "[Slot 1]"]]
  have "pipeline_reach 1 2 (pipe_ex (ring_ex 2 2 [Slot 0, Slot 1] P_idle C_idle 0 2 [Slot 0, Slot 1] [Slot 0, Slot 1])
       (ring_ex 0 0 [Null] P_idle C_idle 0 0 [] [])
       Rx_idle Wk_idle [Slot 0, Slot 1] [0, 0] [] 0 0)"
    by (simp add: run_ex)
  from reach_rx [OF reach_rx [OF reach_rx [OF reach_rx [OF this send_start [of _ "Slot 0"]] send_load [of _
      "Slot 0" _ "Enqueue (Slot 0)" 0 0]] send_store [of _ "Slot 0" _ "[Slot 0]" 0 1 0]] send_publish [of _
      "Slot 0" _ "[Slot 0]" 0 1]]
  show ?thesis by (simp add: run_ex)
qed

lemma drop_ex_race:
  "pipeline_reach 1 2 (pipe_ex (ring_ex 2 2 [Slot 0, Slot 1] (P_head (EnqueueBurst [Slot 0] 1) 2) C_idle (Suc 1) 2 [Slot 0, Slot 1] [Slot 0, Slot 1])
       (ring_ex 1 1 [Slot 0] P_idle C_idle 0 1 [Slot 0] [Slot 0])
       (Rx_drop (Slot 1)) (Wk_free [Slot 0]) [] [0, 0] [Suc 1] 1 1)"
proof -
  note drop_ex_sent
  from reach_wk [OF reach_wk [OF reach_wk [OF reach_wk [OF reach_wk [OF reach_wk [OF this take_start] take_load
      [of _ _ "DequeueBurst BURST_SIZE" 0 1]] take_read [of _ _ 0 1 "[]"]] take_done [of _ _ 0 1 "[Slot 0]"]]
      handle [of _ "[Slot 0]" 0 _ _ Packet_init]] free_start [of _ "[Slot 0]"]]
  have "pipeline_reach 1 2 (pipe_ex (ring_ex 2 2 [Slot 0, Slot 1] (P_head (EnqueueBurst [Slot 0] 1) 2) C_idle (Suc 1) 2 [Slot 0, Slot 1] [Slot 0, Slot 1])
       (ring_ex 1 1 [Slot 0] P_idle C_idle 0 1 [Slot 0] [Slot 0])
       Rx_idle (Wk_free [Slot 0]) [Slot 1] [0, 0] [Suc 1] 1 1)"
    by (simp add: run_ex)
  from reach_rx [OF reach_rx [OF reach_rx [OF this send_start [of _ "Slot 1"]] send_load [of _ "Slot 1" _
      "Enqueue (Slot 1)" 1 0]] send_full [of _ "Slot 1"]]
  show ?thesis by (simp add: run_ex)
qed

section \<open>Properties\<close>

text \<open>
  C3. The pipeline is safe with its two threads running at the same time, for any
  interleaving of their loads and stores and with stale index loads, provided that the queue
  is at least as large as the pool (as it is by default). The handler has seen exactly the
  packets sent, with the contents they were sent with, in their order, up to a prefix; every
  block is in exactly one place, so that no packet is written by one thread while the other
  has it; \<open>send\<close> never finds the queue full, so that the sending thread never frees a packet,
  which would make it a second producer of the free ring; and \<open>free_burst\<close>, which ignores the
  number of blocks it returned, always returns all of them.
\<close>

theorem pipeline_threads_safe:
  assumes "pipeline_reach R P s" and "unat P \<le> unat R"
  shows "(\<exists>rest. pl_sent s = pl_handled s @ rest) \<and> mset (pl_blocks s) = mset (all_slots P) \<and>
     (\<nexists>b. pl_rx s = Rx_drop b) \<and>
     (\<forall>its h cnt i. producer (pl_free s) = P_write its h cnt i \<longrightarrow> unat cnt = length its)"
proof -
  have inv: "pipeline_inv R P s" using pipeline_threads.reach_inv [OF assms(1)] assms(2) by blast
  have "\<exists>n. pl_handled s = take n (pl_sent s)"
    using inv by (auto simp: pipeline_inv_def packets_ok_def Let_def split: wk_pc.splits)
  then have "\<exists>rest. pl_sent s = pl_handled s @ rest" by (metis append_take_drop_id)
  then show ?thesis
    using inv by (auto simp: pipeline_inv_def blocks_ok_def pcs_ok_def split: wk_pc.splits)
qed

theorem pipeline_threads_safe_witness:
  "\<exists>s. pipeline_reach 1 1 s \<and> pl_handled s = [Packet_init] \<and> mset (pl_blocks s) = mset (all_slots 1) \<and>
     (\<exists>rest. pl_sent s = pl_handled s @ rest)"
proof -
  have "unat (1 :: size_t) \<le> unat (1 :: size_t)" by simp
  note safe = pipeline_threads_safe [OF pipeline_ex_handled this]
  show ?thesis by (rule exI, intro conjI, rule pipeline_ex_handled) (use safe in \<open>simp_all\<close>)
qed




end
