(* ===== verification/Events.thy ===== *)
theory Events
  imports Prelude
begin

text \<open>
  \<open>src/include/common.h\<close>: the structures that cross from the BPF programs to user space, with
  their field widths; and the kernel interface the three BPF programs call. The kernel is
  not part of the repository: the values its helpers return for one invocation are a record
  of inputs, the maps are arguments whose documented behaviour is the locales
  \<open>bpf_hash_map\<close> and \<open>bpf_percpu_map\<close>. A character array of 16 bytes is a list of characters.
\<close>

section \<open>Shared structures\<close>

record tcp_event =
  te_timestamp_ns :: u64
  te_pid :: u32
  te_uid :: u32
  te_comm :: "char list"
  te_src_ip :: u32
  te_dst_ip :: u32
  te_src_port :: u16
  te_dst_port :: u16
  te_af :: u8
  te_action :: u8
  te_pad :: "u8 list"
  te_bytes_tx :: u64
  te_bytes_rx :: u64

definition tcp_event_zero :: tcp_event where
  "tcp_event_zero = \<lparr>te_timestamp_ns = 0, te_pid = 0, te_uid = 0, te_comm = replicate 16 (CHR 0x00),
     te_src_ip = 0, te_dst_ip = 0, te_src_port = 0, te_dst_port = 0, te_af = 0, te_action = 0,
     te_pad = [0, 0], te_bytes_tx = 0, te_bytes_rx = 0\<rparr>"

record syscall_event =
  se_timestamp_ns :: u64
  se_pid :: u32
  se_uid :: u32
  se_comm :: "char list"
  se_syscall_nr :: "64 word"
  se_args :: "u64 list"

record net_stats_key =
  nk_proto :: u8
  nk_pad :: "u8 list"

record net_stats_val =
  packets :: u64
  bytes :: u64

definition TCP_ACTION_CONNECT :: u8 where
  "TCP_ACTION_CONNECT = 0"

definition TCP_ACTION_CLOSE :: u8 where
  "TCP_ACTION_CLOSE = 1"

section \<open>Byte order\<close>

text \<open>
  \<open>__builtin_bswap16\<close>, and \<open>ntohs\<close>, \<open>htons\<close>, \<open>bpf_ntohs\<close> on the little-endian machines the
  program is written for (it uses the x86-64 system call numbers).
\<close>

definition bswap16 :: "u16 \<Rightarrow> u16" where
  "bswap16 x = push_bit 8 x OR drop_bit 8 x"

definition ntohs :: "u16 \<Rightarrow> u16" where
  "ntohs x = bswap16 x"

lemma bswap16_bswap16 [simp]: "bswap16 (bswap16 x) = x"
  by (rule bit_word_eqI)
     (auto simp: bswap16_def bit_or_iff bit_push_bit_iff bit_drop_bit_eq not_le intro: less_imp_le)

section \<open>The kernel interface\<close>

record kernel_ctx =
  kc_pid_tgid :: u64
  kc_uid_gid :: u64
  kc_ktime_ns :: u64
  kc_comm :: "char list"

definition ctx_pid :: "kernel_ctx \<Rightarrow> u32" where
  "ctx_pid c = ucast (drop_bit 32 (kc_pid_tgid c))"

definition ctx_uid :: "kernel_ctx \<Rightarrow> u32" where
  "ctx_uid c = ucast (kc_uid_gid c AND 0xFFFFFFFF)"

text \<open>
  Operations of a hash map: \<open>lookup_elem\<close> reads the element or finds none, \<open>update_elem\<close> with
  the flag \<open>BPF_ANY\<close> returns an error code and \<open>delete_elem\<close> too.
\<close>

record ('m, 'k, 'v) bpf_hash =
  lookup_elem :: "'m \<Rightarrow> 'k \<Rightarrow> 'v option"
  update_elem :: "'m \<Rightarrow> 'k \<Rightarrow> 'v \<Rightarrow> int \<times> 'm"
  delete_elem :: "'m \<Rightarrow> 'k \<Rightarrow> int \<times> 'm"

locale bpf_hash_map =
  fixes H :: "('m, 'k, 'v) bpf_hash"
  assumes update_ok: "update_elem H m k v = (0, m') \<Longrightarrow>
            lookup_elem H m' = (lookup_elem H m)(k \<mapsto> v)"
    and update_fails: "update_elem H m k v = (e, m') \<Longrightarrow> e \<noteq> 0 \<Longrightarrow> m' = m"
    and delete_elem_lookup: "lookup_elem H (snd (delete_elem H m k)) = (lookup_elem H m)(k := None)"
begin

lemma update_other:
  "k' \<noteq> k \<Longrightarrow> lookup_elem H (snd (update_elem H m k v)) k' = lookup_elem H m k'"
  by (cases "update_elem H m k v"; cases "fst (update_elem H m k v) = 0")
     (auto simp: update_ok dest: update_fails)

lemma update_same:
  "fst (update_elem H m k v) = 0 \<Longrightarrow> lookup_elem H (snd (update_elem H m k v)) k = Some v"
  by (cases "update_elem H m k v") (auto simp: update_ok)

lemma delete_other: "k' \<noteq> k \<Longrightarrow> lookup_elem H (snd (delete_elem H m k)) k' = lookup_elem H m k'"
  by (simp add: delete_elem_lookup)

lemma delete_same: "lookup_elem H (snd (delete_elem H m k)) k = None"
  by (simp add: delete_elem_lookup)

end

text \<open>
  A \<open>BPF_MAP_TYPE_HASH\<close> with \<open>max_entries = n\<close>: a finite map that refuses a new key when it
  is full (\<open>-E2BIG\<close>) and answers \<open>-ENOENT\<close> to deleting a missing key.
\<close>

definition hash_ops :: "nat \<Rightarrow> (('k \<times> 'v) list, 'k, 'v) bpf_hash" where
  "hash_ops n = \<lparr>
     lookup_elem = map_of,
     update_elem = (\<lambda>m k v.
       if map_of m k = None \<and> n \<le> length m then (- 7, m)
       else (0, (k, v) # filter (\<lambda>kv. fst kv \<noteq> k) m)),
     delete_elem = (\<lambda>m k.
       if map_of m k = None then (- 2, m) else (0, filter (\<lambda>kv. fst kv \<noteq> k) m))\<rparr>"

lemma map_of_filter_neq: "map_of (filter (\<lambda>kv. fst kv \<noteq> k) m) = (map_of m)(k := None)"
  by (induction m) (auto simp: fun_eq_iff)

interpretation hash_ops: bpf_hash_map "hash_ops n" for n
  by unfold_locales
     (auto simp: hash_ops_def map_of_filter_neq fun_upd_idem split: if_splits)

end
