(* ===== verification/Net_Stats.thy ===== *)
theory Net_Stats
  imports Events
begin

text \<open>
  \<open>src/bpf/net_stats.bpf.c\<close>: the XDP program that counts packets and bytes per protocol. The
  layout of the kernel's header structures comes from the generated \<open>vmlinux.h\<close>: it is a
  record of sizes and offsets. The per-CPU hash map is an argument with the laws of the
  locale \<open>bpf_percpu_map\<close>. A packet is the bytes from \<open>data\<close> to \<open>data_end\<close>; reading outside
  them is the result \<open>None\<close>.
\<close>

section \<open>The per-CPU map\<close>

record 'm percpu_hash =
  pc_lookup :: "'m \<Rightarrow> nat \<Rightarrow> net_stats_key \<Rightarrow> net_stats_val option"
  pc_store :: "'m \<Rightarrow> nat \<Rightarrow> net_stats_key \<Rightarrow> net_stats_val \<Rightarrow> 'm"
  pc_update :: "'m \<Rightarrow> nat \<Rightarrow> net_stats_key \<Rightarrow> net_stats_val \<Rightarrow> int \<times> 'm"

abbreviation val_zero :: net_stats_val where
  "val_zero \<equiv> \<lparr>packets = 0, bytes = 0\<rparr>"

text \<open>
  An element exists for all CPUs or for none. \<open>pc_store\<close> is a write through the pointer a
  successful lookup returned; \<open>pc_update\<close> sets the calling CPU's value and, for a new key,
  zero for the others; it fails exactly when a new key finds the map full.
\<close>

locale bpf_percpu_map =
  fixes M :: "'m percpu_hash" and entries :: "'m \<Rightarrow> net_stats_key set" and max_entries :: nat
  assumes lookup_entries: "pc_lookup M m cpu k = None \<longleftrightarrow> k \<notin> entries m"
    and entries_finite: "finite (entries m)"
    and store_lookup: "k \<in> entries m \<Longrightarrow> pc_lookup M (pc_store M m cpu k v) cpu' k' =
          (if cpu' = cpu \<and> k' = k then Some v else pc_lookup M m cpu' k')"
    and update_room: "k \<in> entries m \<or> card (entries m) < max_entries \<Longrightarrow>
          fst (pc_update M m cpu k v) = 0"
    and update_full: "k \<notin> entries m \<Longrightarrow> max_entries \<le> card (entries m) \<Longrightarrow>
          fst (pc_update M m cpu k v) \<noteq> 0"
    and update_ok: "pc_update M m cpu k v = (0, m') \<Longrightarrow> pc_lookup M m' cpu' k' =
          (if k' \<noteq> k then pc_lookup M m cpu' k'
           else if cpu' = cpu then Some v
           else if k \<in> entries m then pc_lookup M m cpu' k else Some val_zero)"
    and update_fails: "pc_update M m cpu k v = (e, m') \<Longrightarrow> e \<noteq> 0 \<Longrightarrow> m' = m"

section \<open>Definitions\<close>

definition ETH_P_IP :: u16 where "ETH_P_IP = 0x0800"
definition ETH_P_IPV6 :: u16 where "ETH_P_IPV6 = 0x86DD"
definition XDP_PASS :: int where "XDP_PASS = 2"

record hdr_layout =
  sizeof_ethhdr :: nat
  off_h_proto :: nat
  sizeof_iphdr :: nat
  off_protocol :: nat
  sizeof_ipv6hdr :: nat
  off_nexthdr :: nat

definition layout_ok :: "hdr_layout \<Rightarrow> bool" where
  "layout_ok L \<longleftrightarrow> off_h_proto L + 2 \<le> sizeof_ethhdr L \<and> off_protocol L < sizeof_iphdr L \<and>
     off_nexthdr L < sizeof_ipv6hdr L"

definition load8 :: "u8 list \<Rightarrow> nat \<Rightarrow> u8 option" where
  "load8 pkt i = (if i < length pkt then Some (pkt ! i) else None)"

text \<open>A two-byte load on a little-endian machine.\<close>

definition load16 :: "u8 list \<Rightarrow> nat \<Rightarrow> u16 option" where
  "load16 pkt i =
     (case (load8 pkt i, load8 pkt (Suc i)) of
        (Some b0, Some b1) \<Rightarrow> Some (ucast b0 OR push_bit 8 (ucast b1))
      | _ \<Rightarrow> None)"

record 'm net_state =
  proto_stats :: 'm
  total_packets :: "nat \<Rightarrow> u64 option"

definition net_key :: "u8 \<Rightarrow> net_stats_key" where
  "net_key proto = \<lparr>nk_proto = proto, nk_pad = [0, 0, 0]\<rparr>"

definition count_packet :: "'m percpu_hash \<Rightarrow> nat \<Rightarrow> u8 \<Rightarrow> u32 \<Rightarrow> 'm \<Rightarrow> 'm" where
  "count_packet M cpu proto pkt_len m =
     (let key = net_key proto in
      case pc_lookup M m cpu key of
        Some val \<Rightarrow> pc_store M m cpu key (val\<lparr>packets := packets val + 1, bytes := bytes val + ucast pkt_len\<rparr>)
      | None \<Rightarrow> snd (pc_update M m cpu key \<lparr>packets = 1, bytes = ucast pkt_len\<rparr>))"

definition xdp_net_stats ::
  "'m percpu_hash \<Rightarrow> hdr_layout \<Rightarrow> nat \<Rightarrow> u8 list \<Rightarrow> 'm net_state \<Rightarrow> (int \<times> 'm net_state) option" where
  "xdp_net_stats M L cpu pkt s0 =
     (let s = (case total_packets s0 cpu of
                 None \<Rightarrow> s0
               | Some n \<Rightarrow> s0\<lparr>total_packets := (total_packets s0)(cpu \<mapsto> n + 1)\<rparr>);
          eth_end = sizeof_ethhdr L
      in if length pkt < eth_end then Some (XDP_PASS, s)
         else case load16 pkt (off_h_proto L) of
           None \<Rightarrow> None
         | Some h_proto \<Rightarrow>
             (let eth_type = ntohs h_proto; pkt_len = of_nat (length pkt) :: u32
              in if eth_type = ETH_P_IP then
                   (if length pkt < eth_end + sizeof_iphdr L then Some (XDP_PASS, s)
                    else case load8 pkt (eth_end + off_protocol L) of
                      None \<Rightarrow> None
                    | Some proto \<Rightarrow>
                        Some (XDP_PASS, s\<lparr>proto_stats := count_packet M cpu proto pkt_len (proto_stats s)\<rparr>))
                 else if eth_type = ETH_P_IPV6 then
                   (if length pkt < eth_end + sizeof_ipv6hdr L then Some (XDP_PASS, s)
                    else case load8 pkt (eth_end + off_nexthdr L) of
                      None \<Rightarrow> None
                    | Some proto \<Rightarrow>
                        Some (XDP_PASS, s\<lparr>proto_stats := count_packet M cpu proto pkt_len (proto_stats s)\<rparr>))
                 else Some (XDP_PASS, s)))"

text \<open>Packets arriving one after another, each on some CPU; \<open>None\<close> if one is read out of bounds.\<close>

fun xdp_run :: "'m percpu_hash \<Rightarrow> hdr_layout \<Rightarrow> (nat \<times> u8 list) list \<Rightarrow> 'm net_state \<Rightarrow> 'm net_state option" where
  "xdp_run M L [] s = Some s"
| "xdp_run M L ((cpu, pkt) # ps) s =
     (case xdp_net_stats M L cpu pkt s of None \<Rightarrow> None | Some (verdict, s') \<Rightarrow> xdp_run M L ps s')"

section \<open>Specification\<close>

text \<open>The protocol a packet is to be counted under, if any.\<close>

definition classify :: "hdr_layout \<Rightarrow> u8 list \<Rightarrow> u8 option" where
  "classify L pkt =
     (let n = sizeof_ethhdr L;
          eth_type = ntohs (ucast (pkt ! off_h_proto L) OR push_bit 8 (ucast (pkt ! Suc (off_h_proto L))))
      in if n \<le> length pkt \<and> eth_type = ETH_P_IP \<and> n + sizeof_iphdr L \<le> length pkt
         then Some (pkt ! (n + off_protocol L))
         else if n \<le> length pkt \<and> eth_type = ETH_P_IPV6 \<and> n + sizeof_ipv6hdr L \<le> length pkt
         then Some (pkt ! (n + off_nexthdr L))
         else None)"

definition counted :: "hdr_layout \<Rightarrow> u8 \<Rightarrow> nat \<Rightarrow> (nat \<times> u8 list) list \<Rightarrow> u8 list list" where
  "counted L proto cpu ps = map snd (filter (\<lambda>(c, pkt). c = cpu \<and> classify L pkt = Some proto) ps)"

definition expected :: "hdr_layout \<Rightarrow> u8 \<Rightarrow> nat \<Rightarrow> (nat \<times> u8 list) list \<Rightarrow> net_stats_val" where
  "expected L proto cpu ps =
     \<lparr>packets = of_nat (length (counted L proto cpu ps)),
      bytes = sum_list (map (\<lambda>pkt. ucast (of_nat (length pkt) :: u32)) (counted L proto cpu ps))\<rparr>"

definition protocols :: "hdr_layout \<Rightarrow> (nat \<times> u8 list) list \<Rightarrow> u8 set" where
  "protocols L ps = {proto. \<exists>(c, pkt)\<in>set ps. classify L pkt = Some proto}"

section \<open>Lemmas\<close>

lemma xdp_net_stats_eq:
  assumes "layout_ok L"
  shows "xdp_net_stats M L cpu pkt s =
     Some (XDP_PASS,
       \<lparr>proto_stats = (case classify L pkt of None \<Rightarrow> proto_stats s
                       | Some proto \<Rightarrow> count_packet M cpu proto (of_nat (length pkt)) (proto_stats s)),
        total_packets = (case total_packets s cpu of None \<Rightarrow> total_packets s
                         | Some t \<Rightarrow> (total_packets s)(cpu \<mapsto> t + 1))\<rparr>)"
  using assms
  by (auto simp: xdp_net_stats_def classify_def layout_ok_def load8_def load16_def Let_def
      ETH_P_IP_def ETH_P_IPV6_def split: option.splits)

lemma net_key_eq [simp]: "net_key a = net_key b \<longleftrightarrow> a = b"
  by (simp add: net_key_def)

lemma nk_proto_net_key [simp]: "nk_proto (net_key p) = p"
  by (simp add: net_key_def)

lemma protocols_append: "protocols L (ps @ qs) = protocols L ps \<union> protocols L qs"
  by (auto simp: protocols_def)

lemma protocols_Nil [simp]: "protocols L [] = {}"
  by (simp add: protocols_def)

lemma protocols_single: "protocols L [(c, pkt)] = set_option (classify L pkt)"
  by (auto simp: protocols_def)

lemma finite_protocols: "finite (protocols L ps)"
proof -
  have "Some ` protocols L ps \<subseteq> (\<lambda>(c, pkt). classify L pkt) ` set ps"
    by (force simp: protocols_def)
  then have "finite (Some ` protocols L ps)" by (rule finite_subset) simp
  then show ?thesis by (simp add: finite_image_iff)
qed

lemma expected_snoc:
  "expected L proto cpu (ps @ [(c, pkt)]) =
     (if c = cpu \<and> classify L pkt = Some proto
      then (expected L proto cpu ps)\<lparr>packets := packets (expected L proto cpu ps) + 1,
             bytes := bytes (expected L proto cpu ps) + ucast (of_nat (length pkt) :: u32)\<rparr>
      else expected L proto cpu ps)"
  by (simp add: expected_def counted_def)

lemma expected_unseen: "proto \<notin> protocols L ps \<Longrightarrow> expected L proto cpu ps = val_zero"
proof -
  assume "proto \<notin> protocols L ps"
  then have "counted L proto cpu ps = []"
    by (auto simp: counted_def protocols_def filter_empty_conv)
  then show ?thesis by (simp add: expected_def)
qed

context bpf_percpu_map
begin

lemma count_packet_lookup:
  assumes "net_key proto \<in> entries m \<or> card (entries m) < max_entries"
  shows "pc_lookup M (count_packet M cpu proto len m) cpu' k =
     (if k \<noteq> net_key proto then pc_lookup M m cpu' k
      else let old = (case pc_lookup M m cpu' k of None \<Rightarrow> val_zero | Some v \<Rightarrow> v)
           in Some (if cpu' = cpu then old\<lparr>packets := packets old + 1, bytes := bytes old + ucast len\<rparr>
                    else old))"
proof (cases "net_key proto \<in> entries m")
  case True
  then obtain v where "pc_lookup M m cpu (net_key proto) = Some v"
    using lookup_entries by fastforce
  moreover have "pc_lookup M m cpu' (net_key proto) \<noteq> None" using True lookup_entries by blast
  ultimately show ?thesis
    using True by (auto simp: count_packet_def store_lookup Let_def)
next
  case False
  then have none: "pc_lookup M m c (net_key proto) = None" for c using lookup_entries by blast
  obtain m' where "pc_update M m cpu (net_key proto) \<lparr>packets = 1, bytes = ucast len\<rparr> = (0, m')"
    using update_room [OF assms] by (metis prod.collapse)
  with none False show ?thesis by (auto simp: count_packet_def update_ok Let_def)
qed

lemma count_packet_full:
  assumes "net_key proto \<notin> entries m" and "max_entries \<le> card (entries m)"
  shows "count_packet M cpu proto len m = m"
proof -
  let ?u = "pc_update M m cpu (net_key proto) \<lparr>packets = 1, bytes = ucast len\<rparr>"
  have "pc_lookup M m cpu (net_key proto) = None" using assms(1) lookup_entries by blast
  moreover have "snd ?u = m" using update_full [OF assms] update_fails by (metis prod.collapse)
  ultimately show ?thesis by (simp add: count_packet_def)
qed

text \<open>The map holds the exact counts of the packets seen so far.\<close>

lemma count_step:
  assumes ok: "\<forall>cpu. \<forall>k. pc_lookup M m cpu k =
       (if k \<in> net_key ` protocols L ps then Some (expected L (nk_proto k) cpu ps) else None)"
    and room: "card (protocols L (ps @ [(c, pkt)])) \<le> max_entries"
    and cl: "classify L pkt = Some proto"
  shows "pc_lookup M (count_packet M c proto (of_nat (length pkt)) m) cpu k =
       (if k \<in> net_key ` protocols L (ps @ [(c, pkt)])
        then Some (expected L (nk_proto k) cpu (ps @ [(c, pkt)])) else None)"
proof -
  have ents: "entries m = net_key ` protocols L ps"
  proof (rule set_eqI)
    fix k show "k \<in> entries m \<longleftrightarrow> k \<in> net_key ` protocols L ps"
      using ok lookup_entries [of m 0 k] by (auto split: if_splits)
  qed
  have "net_key proto \<in> entries m \<or> card (entries m) < max_entries"
  proof (cases "proto \<in> protocols L ps")
    case False
    then have "Suc (card (protocols L ps)) \<le> max_entries"
      using room cl by (simp add: protocols_append protocols_single finite_protocols)
    then show ?thesis using ents by (simp add: card_image inj_on_def)
  qed (simp add: ents)
  note lk = count_packet_lookup [OF this, of c "of_nat (length pkt)" cpu k]
  show ?thesis
  proof (cases "k = net_key proto")
    case True
    then have "k \<in> net_key ` protocols L ps \<longleftrightarrow> proto \<in> protocols L ps" by auto
    with True lk ok cl expected_unseen [of proto L ps cpu] show ?thesis
      by (auto simp: protocols_append protocols_single expected_snoc Let_def)
  next
    case False
    with lk ok cl show ?thesis
      by (auto simp: protocols_append protocols_single expected_snoc)
  qed
qed

lemma xdp_run_counts:
  assumes L: "layout_ok L" and room: "card (protocols L (hist @ ps)) \<le> max_entries"
    and ok: "\<forall>cpu k. pc_lookup M (proto_stats s) cpu k =
       (if k \<in> net_key ` protocols L hist then Some (expected L (nk_proto k) cpu hist) else None)"
  shows "\<exists>s'. xdp_run M L ps s = Some s' \<and>
     (\<forall>cpu k. pc_lookup M (proto_stats s') cpu k =
       (if k \<in> net_key ` protocols L (hist @ ps) then Some (expected L (nk_proto k) cpu (hist @ ps)) else None)) \<and>
     (\<forall>cpu. total_packets s' cpu =
        map_option (\<lambda>t. t + of_nat (length (filter (\<lambda>x. fst x = cpu) ps))) (total_packets s cpu))"
  using room ok
proof (induction ps arbitrary: hist s)
  case (Cons x ps)
  obtain c pkt where x: "x = (c, pkt)" by fastforce
  obtain s1 where s1: "xdp_net_stats M L c pkt s = Some (XDP_PASS, s1)"
    and st: "proto_stats s1 = (case classify L pkt of None \<Rightarrow> proto_stats s
        | Some proto \<Rightarrow> count_packet M c proto (of_nat (length pkt)) (proto_stats s))"
    and tot: "total_packets s1 = (case total_packets s c of None \<Rightarrow> total_packets s
        | Some t \<Rightarrow> (total_packets s)(c \<mapsto> t + 1))"
    using that [OF xdp_net_stats_eq [OF L, of M c pkt s]] by simp
  have "card (protocols L (hist @ [(c, pkt)])) \<le> card (protocols L (hist @ x # ps))"
    by (rule card_mono) (auto simp: finite_protocols protocols_def x)
  with Cons.prems(1) have room1: "card (protocols L (hist @ [(c, pkt)])) \<le> max_entries" by simp
  have ok1: "\<forall>cpu k. pc_lookup M (proto_stats s1) cpu k =
      (if k \<in> net_key ` protocols L (hist @ [(c, pkt)])
       then Some (expected L (nk_proto k) cpu (hist @ [(c, pkt)])) else None)"
  proof (cases "classify L pkt")
    case None
    with Cons.prems(2) st show ?thesis
      by (simp add: protocols_append protocols_single expected_snoc)
  next
    case (Some proto)
    with count_step [OF Cons.prems(2) room1 Some] st show ?thesis by simp
  qed
  have "card (protocols L ((hist @ [(c, pkt)]) @ ps)) \<le> max_entries" using Cons.prems(1) x by simp
  from Cons.IH [OF this ok1] s1 tot show ?case
    by (auto simp: x option.map_comp comp_def split: option.splits)
qed (simp add: option.map_ident)

end

section \<open>The map of the program\<close>

text \<open>
  A \<open>BPF_MAP_TYPE_PERCPU_HASH\<close> with \<open>max_entries = n\<close>, as a finite map from keys to one value
  per CPU; \<open>proto_stats\<close> is declared with 16 entries.
\<close>

definition percpu_ops :: "nat \<Rightarrow> ((net_stats_key \<times> (nat \<Rightarrow> net_stats_val)) list) percpu_hash" where
  "percpu_ops n = \<lparr>
     pc_lookup = (\<lambda>m cpu k. map_option (\<lambda>f. f cpu) (map_of m k)),
     pc_store = (\<lambda>m cpu k v. case map_of m k of None \<Rightarrow> m | Some f \<Rightarrow> (k, f(cpu := v)) # m),
     pc_update = (\<lambda>m cpu k v.
       case map_of m k of
         Some f \<Rightarrow> (0, (k, f(cpu := v)) # m)
       | None \<Rightarrow> if n \<le> card (set (map fst m)) then (- 7, m)
                 else (0, (k, (\<lambda>_. val_zero)(cpu := v)) # m))\<rparr>"

definition proto_stats_ops :: "((net_stats_key \<times> (nat \<Rightarrow> net_stats_val)) list) percpu_hash" where
  "proto_stats_ops = percpu_ops 16"

interpretation percpu_ops: bpf_percpu_map "percpu_ops n" "\<lambda>m. set (map fst m)" n for n
proof unfold_locales
  show "pc_lookup (percpu_ops n) m cpu k = None \<longleftrightarrow> k \<notin> set (map fst m)" for m cpu k
    by (simp add: percpu_ops_def map_of_eq_None_iff)
  fix m cpu k v cpu' k' m' e
  show "k \<in> set (map fst m) \<Longrightarrow> pc_lookup (percpu_ops n) (pc_store (percpu_ops n) m cpu k v) cpu' k' =
      (if cpu' = cpu \<and> k' = k then Some v else pc_lookup (percpu_ops n) m cpu' k')"
    by (auto simp: percpu_ops_def split: option.split dest: map_of_eq_None_iff [THEN iffD1])
  show "k \<in> set (map fst m) \<or> card (set (map fst m)) < n \<Longrightarrow> fst (pc_update (percpu_ops n) m cpu k v) = 0"
    by (auto simp: percpu_ops_def map_of_eq_None_iff split: option.split)
  show "k \<notin> set (map fst m) \<Longrightarrow> n \<le> card (set (map fst m)) \<Longrightarrow> fst (pc_update (percpu_ops n) m cpu k v) \<noteq> 0"
    by (simp add: percpu_ops_def map_of_eq_None_iff [THEN iffD2])
  show "pc_update (percpu_ops n) m cpu k v = (0, m') \<Longrightarrow> pc_lookup (percpu_ops n) m' cpu' k' =
      (if k' \<noteq> k then pc_lookup (percpu_ops n) m cpu' k' else if cpu' = cpu then Some v
       else if k \<in> set (map fst m) then pc_lookup (percpu_ops n) m cpu' k else Some val_zero)"
    using map_of_eq_None_iff [of m k] by (auto simp: percpu_ops_def split: option.splits if_splits)
  show "pc_update (percpu_ops n) m cpu k v = (e, m') \<Longrightarrow> e \<noteq> 0 \<Longrightarrow> m' = m"
    by (auto simp: percpu_ops_def split: option.splits if_splits)
qed simp

section \<open>Properties\<close>

text \<open>What user space adds up over the CPUs.\<close>

definition cpu_total :: "'m percpu_hash \<Rightarrow> 'm \<Rightarrow> nat \<Rightarrow> net_stats_key \<Rightarrow> (net_stats_val \<Rightarrow> u64) \<Rightarrow> u64" where
  "cpu_total M m n k f =
     (\<Sum>cpu<n. case pc_lookup M m cpu k of None \<Rightarrow> 0 | Some v \<Rightarrow> f v)"

definition of_proto :: "hdr_layout \<Rightarrow> u8 \<Rightarrow> (nat \<times> u8 list) list \<Rightarrow> u8 list list" where
  "of_proto L proto ps = filter (\<lambda>pkt. classify L pkt = Some proto) (map snd ps)"

lemma sum_expected:
  assumes "\<forall>(c, pkt)\<in>set ps. c < n"
  shows "(\<Sum>cpu<n. packets (expected L proto cpu ps)) = of_nat (length (of_proto L proto ps)) \<and>
    (\<Sum>cpu<n. bytes (expected L proto cpu ps))
      = sum_list (map (\<lambda>pkt. ucast (of_nat (length pkt) :: u32)) (of_proto L proto ps))"
  using assms
proof (induction ps)
  case (Cons x ps)
  obtain c pkt where x: "x = (c, pkt)" by fastforce
  have c: "c < n" and IH: "(\<Sum>cpu<n. packets (expected L proto cpu ps)) = of_nat (length (of_proto L proto ps))"
    "(\<Sum>cpu<n. bytes (expected L proto cpu ps))
      = sum_list (map (\<lambda>pkt. ucast (of_nat (length pkt) :: u32)) (of_proto L proto ps))"
    using Cons x by auto
  let ?hit = "\<lambda>cpu. if cpu = c \<and> classify L pkt = Some proto then 1 else 0 :: u64"
  have "packets (expected L proto cpu (x # ps)) = packets (expected L proto cpu ps) + ?hit cpu"
    "bytes (expected L proto cpu (x # ps))
      = bytes (expected L proto cpu ps) + ?hit cpu * ucast (of_nat (length pkt) :: u32)" for cpu
    by (auto simp: expected_def counted_def x)
  moreover have "(\<Sum>cpu<n. ?hit cpu) = of_bool (classify L pkt = Some proto)"
    using c by (auto simp: sum.delta')
  ultimately show ?case
    using IH by (simp add: sum.distrib sum_distrib_right [symmetric] of_proto_def x)
qed (simp add: expected_def counted_def of_proto_def)

text \<open>
  C12. Exact counts. Starting from an empty map, for packets arriving on any CPUs that carry
  no more protocols than the map has entries, the program reads no byte outside a packet,
  and for every protocol the packet and byte counts user space adds up over the CPUs are the
  number and the total length of the packets of that protocol (modulo \<open>2 ^ 64\<close>); each CPU's
  total counter has grown by the packets it saw.
\<close>

theorem net_stats_exact:
  assumes "bpf_percpu_map M entries max_entries" and "layout_ok L"
    and "entries (proto_stats s) = {}" and "card (protocols L ps) \<le> max_entries"
    and "\<forall>(c, pkt)\<in>set ps. c < n"
  shows "\<exists>s'. xdp_run M L ps s = Some s' \<and>
     (\<forall>proto. cpu_total M (proto_stats s') n (net_key proto) packets = of_nat (length (of_proto L proto ps)) \<and>
        cpu_total M (proto_stats s') n (net_key proto) bytes
          = sum_list (map (\<lambda>pkt. ucast (of_nat (length pkt) :: u32)) (of_proto L proto ps))) \<and>
     (\<forall>cpu. total_packets s' cpu =
        map_option (\<lambda>t. t + of_nat (length (filter (\<lambda>x. fst x = cpu) ps))) (total_packets s cpu))"
proof -
  have "\<forall>cpu k. pc_lookup M (proto_stats s) cpu k = None"
    using assms(3) bpf_percpu_map.lookup_entries [OF assms(1)] by blast
  then obtain s' where s': "xdp_run M L ps s = Some s'"
    and lk: "\<forall>cpu k. pc_lookup M (proto_stats s') cpu k =
       (if k \<in> net_key ` protocols L ps then Some (expected L (nk_proto k) cpu ps) else None)"
    and tot: "\<forall>cpu. total_packets s' cpu =
        map_option (\<lambda>t. t + of_nat (length (filter (\<lambda>x. fst x = cpu) ps))) (total_packets s cpu)"
    using bpf_percpu_map.xdp_run_counts [OF assms(1,2), of "[]" ps s] assms(4) by auto
  have "(case pc_lookup M (proto_stats s') cpu (net_key proto) of None \<Rightarrow> 0 | Some v \<Rightarrow> f v)
      = f (expected L proto cpu ps)" if "f val_zero = 0" for f :: "net_stats_val \<Rightarrow> u64" and cpu proto
    using that lk expected_unseen [of proto L ps cpu] by (cases "proto \<in> protocols L ps") (auto simp: net_key_def)
  then have "cpu_total M (proto_stats s') n (net_key proto) packets = (\<Sum>cpu<n. packets (expected L proto cpu ps))"
    "cpu_total M (proto_stats s') n (net_key proto) bytes = (\<Sum>cpu<n. bytes (expected L proto cpu ps))" for proto
    by (simp_all add: cpu_total_def)
  with sum_expected [OF assms(5)] s' tot show ?thesis by simp
qed

definition ipv4_layout :: hdr_layout where
  "ipv4_layout = \<lparr>sizeof_ethhdr = 14, off_h_proto = 12, sizeof_iphdr = 20, off_protocol = 9,
     sizeof_ipv6hdr = 40, off_nexthdr = 6\<rparr>"

definition ipv4_packet :: "u8 \<Rightarrow> nat \<Rightarrow> u8 list" where
  "ipv4_packet proto n = replicate 12 0 @ [8, 0] @ replicate 9 0 @ [proto] @ replicate n 0"

definition no_protocols :: "((net_stats_key \<times> (nat \<Rightarrow> net_stats_val)) list) net_state" where
  "no_protocols = \<lparr>proto_stats = [], total_packets = (\<lambda>cpu. Some 0)\<rparr>"

definition tcp_udp_packets :: "(nat \<times> u8 list) list" where
  "tcp_udp_packets = [(0, ipv4_packet 6 10), (1, ipv4_packet 17 30), (1, ipv4_packet 6 20), (0, [8, 0])]"

lemma protocols_tcp_udp: "protocols ipv4_layout tcp_udp_packets = {6, 17}"
  by (auto simp: protocols_def tcp_udp_packets_def classify_def ipv4_layout_def ipv4_packet_def ntohs_def bswap16_def
      ETH_P_IP_def ETH_P_IPV6_def nth_append Let_def)

theorem net_stats_exact_witness:
  "\<exists>s'. xdp_run proto_stats_ops ipv4_layout tcp_udp_packets no_protocols = Some s' \<and>
     cpu_total proto_stats_ops (proto_stats s') 2 (net_key 6) packets
       = of_nat (length (of_proto ipv4_layout 6 tcp_udp_packets))"
  using net_stats_exact [OF percpu_ops.bpf_percpu_map_axioms [of 16], of ipv4_layout no_protocols tcp_udp_packets 2]
    protocols_tcp_udp
  by (auto simp: layout_ok_def ipv4_layout_def no_protocols_def tcp_udp_packets_def proto_stats_ops_def)

text \<open>
  The monitor never disturbs the traffic: whatever the packet (truncated or malformed
  included) and the state of the maps, the XDP program reads only bytes of the packet and
  its verdict is \<open>XDP_PASS\<close>.
\<close>

theorem xdp_always_passes:
  assumes "layout_ok L"
  shows "\<exists>s'. xdp_net_stats M L cpu pkt s = Some (XDP_PASS, s')"
  using xdp_net_stats_eq [OF assms, of M cpu pkt s] by simp

theorem xdp_always_passes_witness:
  "\<exists>s'. xdp_net_stats proto_stats_ops ipv4_layout 0 (replicate 13 0) no_protocols = Some (XDP_PASS, s')"
  by (rule xdp_always_passes) (simp add: layout_ok_def ipv4_layout_def)

text \<open>
  Once \<open>max_entries\<close> protocols are in the map, packets of any other protocol pass
  uncounted: the update fails, its result is not looked at, and the protocol's statistics do
  not change, only the total does.
\<close>

theorem full_map_not_counted:
  assumes "bpf_percpu_map M entries max_entries" and "layout_ok L"
    and "max_entries \<le> card (entries (proto_stats s))"
    and "classify L pkt = Some proto" and "net_key proto \<notin> entries (proto_stats s)"
  shows "\<exists>s'. xdp_net_stats M L cpu pkt s = Some (XDP_PASS, s') \<and> proto_stats s' = proto_stats s \<and>
     total_packets s' cpu = map_option (\<lambda>n. n + 1) (total_packets s cpu)"
  using xdp_net_stats_eq [OF assms(2), of M cpu pkt s] assms(4)
    bpf_percpu_map.count_packet_full [OF assms(1,5,3)]
  by (auto split: option.split)

definition sixteen_protocols :: "((net_stats_key \<times> (nat \<Rightarrow> net_stats_val)) list) net_state" where
  "sixteen_protocols = \<lparr>proto_stats = map (\<lambda>p. (net_key p, \<lambda>_. \<lparr>packets = 1, bytes = 60\<rparr>))
     [20, 21, 22, 23, 24, 25, 26, 27, 28, 29, 30, 31, 32, 33, 34, 35], total_packets = (\<lambda>cpu. Some 16)\<rparr>"

theorem full_map_not_counted_witness:
  "\<exists>s'. xdp_net_stats proto_stats_ops ipv4_layout 0 (ipv4_packet 6 10) sixteen_protocols = Some (XDP_PASS, s') \<and>
     proto_stats s' = proto_stats sixteen_protocols \<and> total_packets s' 0 = Some 17"
  using full_map_not_counted [OF percpu_ops.bpf_percpu_map_axioms [of 16], of ipv4_layout sixteen_protocols
      "ipv4_packet 6 10" 6 0]
  by (simp add: layout_ok_def ipv4_layout_def sixteen_protocols_def proto_stats_ops_def net_key_def
      ipv4_packet_def classify_def nth_append ntohs_def bswap16_def ETH_P_IP_def Let_def)

end
