(* ===== verification/Thread_Pool.thy ===== *)
theory Thread_Pool
  imports Interfaces "HOL-Library.Multiset"
begin

text \<open>
  \<open>src/src/http/thread_pool.h\<close>: worker threads that take tasks from a mutex-protected queue
  and sleep on a condition variable. The step relation \<open>tp_step\<close> interleaves the workers,
  any number of submitting threads and the destructor. Each critical section is one step,
  since every access to \<open>m_tasks\<close> and \<open>m_stop\<close> is made with \<open>m_mtx\<close> held; what happens
  outside it is a step of its own: the notification after a submission, the body of a task,
  the increment of the completion counter, and the store of the result that makes the future
  ready. \<open>std::condition_variable\<close> may wake a waiter at any time.

  A task is the number of its future together with what its body returns or throws, of
  type \<open>'r\<close>; the model assumes that bodies end.
\<close>

section \<open>Definitions\<close>

type_synonym 'r task = "nat \<times> 'r"

text \<open>
  Where a worker is in \<open>worker_loop\<close>: about to lock the mutex and look at the queue (at the
  start of the loop or after a wake-up), asleep in \<open>m_cv.wait\<close>, running the body of a task,
  past the counter increment but with the result not yet stored, or returned.
\<close>

datatype 'r worker = Ready | Waiting | Run "'r task" | Counted "'r task" | Exited

text \<open>Where the destructor is: not called, flag set, notified, or returned.\<close>

datatype dtor_pc = Alive | Stopped | Joining | Joined

record 'r ThreadPool =
  m_tasks :: "'r task list"
  m_workers :: "'r worker list"
  m_stop :: bool
  m_pending :: size_t
  m_completed :: u64
  tp_notifies :: nat
  tp_dtor :: dtor_pc
  tp_futures :: "'r task list"
  tp_submitted :: "'r list"

text \<open>
  \<open>tp_notifies\<close> counts the submitting threads between the critical section and
  \<open>notify_one\<close>, \<open>tp_futures\<close> are the futures made ready so far, \<open>tp_submitted\<close> is the
  history of accepted submissions.
\<close>

definition ThreadPool_ctor :: "size_t \<Rightarrow> 'r ThreadPool" where
  "ThreadPool_ctor thread_count =
     (let n = (if thread_count = 0 then 1 else thread_count)
      in \<lparr>m_tasks = [], m_workers = replicate (unat n) Ready, m_stop = False, m_pending = 0,
          m_completed = 0, tp_notifies = 0, tp_dtor = Alive, tp_futures = [], tp_submitted = []\<rparr>)"

definition pool_workers :: "'r ThreadPool \<Rightarrow> nat" where
  "pool_workers s = length (m_workers s)"

text \<open>\<open>submit\<close> up to the end of its critical section; the future's number is returned.\<close>

definition submit :: "'r \<Rightarrow> 'r ThreadPool \<Rightarrow> (string + nat) \<times> 'r ThreadPool" where
  "submit r s =
     (if m_stop s then (Inl ''ThreadPool: submit after shutdown'', s)
      else let t = (length (tp_submitted s), r)
           in (Inr (fst t), s\<lparr>m_tasks := m_tasks s @ [t], m_pending := m_pending s + 1,
                 tp_notifies := tp_notifies s + 1, tp_submitted := tp_submitted s @ [r]\<rparr>))"

abbreviation set_worker :: "nat \<Rightarrow> 'r worker \<Rightarrow> 'r ThreadPool \<Rightarrow> 'r ThreadPool" where
  "set_worker i w s \<equiv> s\<lparr>m_workers := (m_workers s)[i := w]\<rparr>"

text \<open>The critical section of \<open>worker_loop\<close>.\<close>

definition worker_lock :: "nat \<Rightarrow> 'r ThreadPool \<Rightarrow> 'r ThreadPool" where
  "worker_lock i s =
     (if m_stop s \<or> m_tasks s \<noteq> [] then
        if m_stop s \<and> m_tasks s = [] then set_worker i Exited s
        else (set_worker i (Run (hd (m_tasks s))) s)
               \<lparr>m_tasks := tl (m_tasks s), m_pending := m_pending s - 1\<rparr>
      else set_worker i Waiting s)"

text \<open>The destructor of \<open>CompletionGuard\<close>, when the body of the task has returned or thrown.\<close>

definition worker_count :: "nat \<Rightarrow> 'r task \<Rightarrow> 'r ThreadPool \<Rightarrow> 'r ThreadPool" where
  "worker_count i t s = (set_worker i (Counted t) s)\<lparr>m_completed := m_completed s + 1\<rparr>"

text \<open>\<open>packaged_task\<close> stores the result, and the worker goes round its loop.\<close>

definition worker_store :: "nat \<Rightarrow> 'r task \<Rightarrow> 'r ThreadPool \<Rightarrow> 'r ThreadPool" where
  "worker_store i t s = (set_worker i Ready s)\<lparr>tp_futures := tp_futures s @ [t]\<rparr>"

definition notify_all :: "'r ThreadPool \<Rightarrow> 'r ThreadPool" where
  "notify_all s = s\<lparr>m_workers := map (\<lambda>w. if w = Waiting then Ready else w) (m_workers s)\<rparr>"

datatype 'r action =
    Submit 'r | Notify | Spurious nat | Lock nat | Body nat | Store nat
  | Dtor_Stop | Dtor_Notify | Dtor_Join

inductive tp_step :: "'r action \<Rightarrow> 'r ThreadPool \<Rightarrow> 'r ThreadPool \<Rightarrow> bool" where
  step_submit: "tp_dtor s \<noteq> Joined \<Longrightarrow> tp_step (Submit r) s (snd (submit r s))"
| step_notify: "tp_notifies s = Suc n \<Longrightarrow> i < length (m_workers s) \<Longrightarrow> m_workers s ! i = Waiting \<Longrightarrow>
    tp_step Notify s ((set_worker i Ready s)\<lparr>tp_notifies := n\<rparr>)"
| step_notify_none: "tp_notifies s = Suc n \<Longrightarrow> Waiting \<notin> set (m_workers s) \<Longrightarrow>
    tp_step Notify s (s\<lparr>tp_notifies := n\<rparr>)"
| step_spurious: "i < length (m_workers s) \<Longrightarrow> m_workers s ! i = Waiting \<Longrightarrow>
    tp_step (Spurious i) s (set_worker i Ready s)"
| step_lock: "i < length (m_workers s) \<Longrightarrow> m_workers s ! i = Ready \<Longrightarrow>
    tp_step (Lock i) s (worker_lock i s)"
| step_body: "i < length (m_workers s) \<Longrightarrow> m_workers s ! i = Run t \<Longrightarrow>
    tp_step (Body i) s (worker_count i t s)"
| step_store: "i < length (m_workers s) \<Longrightarrow> m_workers s ! i = Counted t \<Longrightarrow>
    tp_step (Store i) s (worker_store i t s)"
| step_dtor_stop: "tp_dtor s = Alive \<Longrightarrow> tp_step Dtor_Stop s (s\<lparr>m_stop := True, tp_dtor := Stopped\<rparr>)"
| step_dtor_notify: "tp_dtor s = Stopped \<Longrightarrow> tp_step Dtor_Notify s ((notify_all s)\<lparr>tp_dtor := Joining\<rparr>)"
| step_dtor_join: "tp_dtor s = Joining \<Longrightarrow> \<forall>w\<in>set (m_workers s). w = Exited \<Longrightarrow>
    tp_step Dtor_Join s (s\<lparr>tp_dtor := Joined\<rparr>)"

inductive_simps tp_step_simps:
  "tp_step (Submit r) s t"
  "tp_step Notify s t"
  "tp_step (Spurious i) s t"
  "tp_step (Lock i) s t"
  "tp_step (Body i) s t"
  "tp_step (Store i) s t"
  "tp_step Dtor_Stop s t"
  "tp_step Dtor_Notify s t"
  "tp_step Dtor_Join s t"

abbreviation tp_reach :: "size_t \<Rightarrow> 'r ThreadPool \<Rightarrow> bool" where
  "tp_reach n \<equiv> reach (\<lambda>s. s = ThreadPool_ctor n) (\<lambda>s t. \<exists>a. tp_step a s t)"

section \<open>Invariant\<close>

text \<open>A quantity added up over the workers.\<close>

definition over_workers :: "('r worker \<Rightarrow> 'a) \<Rightarrow> 'r ThreadPool \<Rightarrow> 'a :: comm_monoid_add" where
  "over_workers f s = sum_list (map f (m_workers s))"

fun in_flight :: "'r worker \<Rightarrow> 'r task multiset" where
  "in_flight (Run t) = {#t#}"
| "in_flight (Counted t) = {#t#}"
| "in_flight _ = {#}"

fun counted_only :: "'r worker \<Rightarrow> nat" where
  "counted_only (Counted t) = 1"
| "counted_only _ = 0"

definition is_ready :: "'r worker \<Rightarrow> nat" where
  "is_ready w = of_bool (w = Ready)"

text \<open>
  Every accepted task is in exactly one place: queued, with a worker, or done (\<open>inv_tasks\<close>);
  the queue is what is left of the submissions, in order (\<open>inv_fifo\<close>); the counters are exact
  (\<open>inv_counters\<close>); while a worker sleeps, at least as many wake-ups are under way as tasks
  are queued (\<open>inv_wakeups\<close>); the destructor's progress (\<open>inv_dtor\<close>).
\<close>

definition inv_tasks :: "'r ThreadPool \<Rightarrow> bool" where
  "inv_tasks s \<longleftrightarrow>
     mset (m_tasks s) + over_workers in_flight s + mset (tp_futures s) = mset (enumerate 0 (tp_submitted s))"

definition inv_fifo :: "'r ThreadPool \<Rightarrow> bool" where
  "inv_fifo s \<longleftrightarrow> (\<exists>k. m_tasks s = drop k (enumerate 0 (tp_submitted s)))"

definition inv_counters :: "'r ThreadPool \<Rightarrow> bool" where
  "inv_counters s \<longleftrightarrow> m_pending s = of_nat (length (m_tasks s)) \<and>
     m_completed s = of_nat (length (tp_futures s) + over_workers counted_only s)"

definition inv_wakeups :: "'r ThreadPool \<Rightarrow> bool" where
  "inv_wakeups s \<longleftrightarrow>
     (Waiting \<in> set (m_workers s) \<longrightarrow> length (m_tasks s) \<le> tp_notifies s + over_workers is_ready s)"

definition inv_dtor :: "'r ThreadPool \<Rightarrow> bool" where
  "inv_dtor s \<longleftrightarrow> m_workers s \<noteq> [] \<and> (m_stop s \<longleftrightarrow> tp_dtor s \<noteq> Alive) \<and>
     (Exited \<in> set (m_workers s) \<longrightarrow> m_stop s \<and> m_tasks s = []) \<and>
     (tp_dtor s \<in> {Joining, Joined} \<longrightarrow> Waiting \<notin> set (m_workers s)) \<and>
     (tp_dtor s = Joined \<longrightarrow> (\<forall>w\<in>set (m_workers s). w = Exited))"

definition tp_inv :: "'r ThreadPool \<Rightarrow> bool" where
  "tp_inv s \<longleftrightarrow> inv_tasks s \<and> inv_fifo s \<and> inv_counters s \<and> inv_wakeups s \<and> inv_dtor s"

lemma sum_list_update:
  fixes f :: "'b \<Rightarrow> 'a :: comm_monoid_add"
  shows "i < length xs \<Longrightarrow> sum_list (map f (xs[i := y])) + f (xs ! i) = sum_list (map f xs) + f y"
  by (induction xs arbitrary: i) (auto simp: ac_simps less_Suc_eq_0_disj)

lemmas pool_ops = submit_def worker_lock_def worker_count_def worker_store_def notify_all_def Let_def

lemma in_flight_update:
  assumes "i < length ws"
  shows "sum_list (map in_flight (ws[i := w])) + in_flight (ws ! i) = sum_list (map in_flight ws) + in_flight w"
    and "sum_list (map counted_only (ws[i := w])) + counted_only (ws ! i)
      = sum_list (map counted_only ws) + counted_only w"
    and "sum_list (map is_ready (ws[i := w])) + is_ready (ws ! i) = sum_list (map is_ready ws) + is_ready w"
  using assms by (simp_all add: sum_list_update)

lemma sum_list_wake:
  "f Waiting = f Ready \<Longrightarrow>
     sum_list (map (f \<circ> (\<lambda>w. if w = Waiting then Ready else w)) ws) = sum_list (map f ws)"
  by (rule arg_cong [where f = sum_list]) simp

lemma inv_tasks_step: "tp_step a s t \<Longrightarrow> inv_tasks s \<Longrightarrow> inv_tasks t"
proof (induction rule: tp_step.induct)
  case (step_lock i s)
  show ?case
  proof (cases "m_tasks s")
    case Nil
    with step_lock in_flight_update(1) [of i "m_workers s" Exited] in_flight_update(1) [of i "m_workers s" Waiting]
    show ?thesis by (simp add: inv_tasks_def over_workers_def pool_ops)
  next
    case (Cons x xs)
    with step_lock in_flight_update(1) [of i "m_workers s" "Run x"]
    show ?thesis by (simp add: inv_tasks_def over_workers_def pool_ops ac_simps)
  qed
next
  case (step_body i s t)
  with in_flight_update(1) [of i "m_workers s" "Counted t"]
  show ?case by (simp add: inv_tasks_def over_workers_def pool_ops)
next
  case (step_store i s t)
  with in_flight_update(1) [of i "m_workers s" Ready, symmetric]
  show ?case by (simp add: inv_tasks_def over_workers_def pool_ops ac_simps)
next
  case (step_notify s n i)
  with in_flight_update(1) [of i "m_workers s" Ready]
  show ?case by (simp add: inv_tasks_def over_workers_def)
next
  case (step_spurious i s)
  with in_flight_update(1) [of i "m_workers s" Ready]
  show ?case by (simp add: inv_tasks_def over_workers_def)
qed (simp_all add: inv_tasks_def over_workers_def pool_ops enumerate_append_eq sum_list_wake)

lemma inv_fifo_step: "tp_step a s t \<Longrightarrow> inv_fifo s \<Longrightarrow> inv_fifo t"
proof (induction rule: tp_step.induct)
  case (step_lock i s)
  then obtain k where "m_tasks s = drop k (enumerate 0 (tp_submitted s))" by (auto simp: inv_fifo_def)
  then have "tl (m_tasks s) = drop (Suc k) (enumerate 0 (tp_submitted s))" by (simp add: drop_Suc tl_drop)
  with step_lock show ?case by (auto simp: inv_fifo_def pool_ops)
next
  case (step_submit s r)
  then obtain k where k: "m_tasks s = drop k (enumerate 0 (tp_submitted s))" by (auto simp: inv_fifo_def)
  let ?k = "min k (length (tp_submitted s))"
  have "m_tasks s @ [(length (tp_submitted s), r)] = drop ?k (enumerate 0 (tp_submitted s @ [r]))"
    using k by (simp add: enumerate_append_eq min_def)
  with step_submit show ?case by (auto simp: inv_fifo_def pool_ops)
qed (simp_all add: inv_fifo_def pool_ops)

lemma inv_counters_step: "tp_step a s t \<Longrightarrow> inv_counters s \<Longrightarrow> inv_counters t"
proof (induction rule: tp_step.induct)
  case (step_lock i s)
  show ?case
  proof (cases "m_tasks s")
    case Nil
    with step_lock in_flight_update(2) [of i "m_workers s" Exited] in_flight_update(2) [of i "m_workers s" Waiting]
    show ?thesis by (simp add: inv_counters_def over_workers_def pool_ops)
  next
    case (Cons x xs)
    with step_lock in_flight_update(2) [of i "m_workers s" "Run x"]
    show ?thesis by (simp add: inv_counters_def over_workers_def pool_ops)
  qed
next
  case (step_body i s t)
  with in_flight_update(2) [of i "m_workers s" "Counted t"]
  show ?case by (simp add: inv_counters_def over_workers_def pool_ops)
next
  case (step_store i s t)
  with in_flight_update(2) [of i "m_workers s" Ready, symmetric]
  show ?case by (simp add: inv_counters_def over_workers_def pool_ops)
next
  case (step_notify s n i)
  with in_flight_update(2) [of i "m_workers s" Ready]
  show ?case by (simp add: inv_counters_def over_workers_def)
next
  case (step_spurious i s)
  with in_flight_update(2) [of i "m_workers s" Ready]
  show ?case by (simp add: inv_counters_def over_workers_def)
qed (simp_all add: inv_counters_def over_workers_def pool_ops sum_list_wake)

lemma inv_wakeups_step: "tp_step a s t \<Longrightarrow> inv_wakeups s \<Longrightarrow> inv_wakeups t"
proof (induction rule: tp_step.induct)
  case (step_lock i s)
  show ?case
  proof (cases "m_tasks s")
    case Nil
    then show ?thesis by (simp add: inv_wakeups_def over_workers_def pool_ops)
  next
    case (Cons x xs)
    have "Waiting \<in> set ((m_workers s)[i := Run x]) \<Longrightarrow> Waiting \<in> set (m_workers s)"
      by (meson set_update_subset_insert insertE subsetD worker.distinct)
    with Cons step_lock in_flight_update(3) [of i "m_workers s" "Run x"]
    show ?thesis by (auto simp: inv_wakeups_def over_workers_def pool_ops is_ready_def)
  qed
next
  case (step_body i s t)
  have "Waiting \<in> set ((m_workers s)[i := Counted t]) \<Longrightarrow> Waiting \<in> set (m_workers s)"
    by (meson set_update_subset_insert insertE subsetD worker.distinct)
  with step_body in_flight_update(3) [of i "m_workers s" "Counted t"]
  show ?case by (auto simp: inv_wakeups_def over_workers_def pool_ops is_ready_def)
next
  case (step_store i s t)
  have "Waiting \<in> set ((m_workers s)[i := Ready]) \<Longrightarrow> Waiting \<in> set (m_workers s)"
    by (meson set_update_subset_insert insertE subsetD worker.distinct)
  with step_store in_flight_update(3) [of i "m_workers s" Ready]
  show ?case by (auto simp: inv_wakeups_def over_workers_def pool_ops is_ready_def)
next
  case (step_notify s n i)
  then have "Waiting \<in> set (m_workers s)" by (metis nth_mem)
  with step_notify in_flight_update(3) [of i "m_workers s" Ready]
  show ?case by (auto simp: inv_wakeups_def over_workers_def is_ready_def)
next
  case (step_spurious i s)
  then have "Waiting \<in> set (m_workers s)" by (metis nth_mem)
  with step_spurious in_flight_update(3) [of i "m_workers s" Ready]
  show ?case by (auto simp: inv_wakeups_def over_workers_def is_ready_def)
qed (auto simp: inv_wakeups_def over_workers_def pool_ops)

lemma nth_in_set: "xs ! i = x \<Longrightarrow> i < length xs \<Longrightarrow> x \<in> set xs"
  by auto

lemma inv_dtor_step: "tp_step a s t \<Longrightarrow> inv_dtor s \<Longrightarrow> inv_dtor t"
  by (induction rule: tp_step.induct)
     (auto simp: inv_dtor_def pool_ops dest!: set_update_subset_insert [THEN subsetD] dest: nth_in_set split: if_splits)

lemma sum_list_replicate_0: "sum_list (replicate n 0) = (0 :: 'a :: comm_monoid_add)"
  by (induction n) auto

lemma tp_init_inv: "tp_inv (ThreadPool_ctor n)"
proof -
  have "unat (if n = 0 then 1 else n) \<noteq> 0" by (simp add: unat_eq_0)
  then show ?thesis
    by (simp add: tp_inv_def inv_tasks_def inv_fifo_def inv_counters_def inv_wakeups_def inv_dtor_def
        over_workers_def ThreadPool_ctor_def sum_list_replicate sum_list_replicate_0)
qed

lemma tp_step_inv: "tp_inv s \<Longrightarrow> tp_step a s t \<Longrightarrow> tp_inv t"
  by (auto simp: tp_inv_def
      intro: inv_tasks_step inv_fifo_step inv_counters_step inv_wakeups_step inv_dtor_step)

interpretation tpool: step_invariant "\<lambda>s. s = ThreadPool_ctor n" "\<lambda>s t. \<exists>a. tp_step a s t" tp_inv for n
  by unfold_locales (auto intro: tp_init_inv tp_step_inv)

section \<open>Progress\<close>

text \<open>
  The steps of the pool itself: not a new submission, not a wake-up the library makes up, not
  the client's decision to destroy the pool.
\<close>

fun internal :: "'r action \<Rightarrow> bool" where
  "internal (Submit r) = False"
| "internal (Spurious i) = False"
| "internal Dtor_Stop = False"
| "internal _ = True"

definition internal_step :: "'r ThreadPool \<Rightarrow> 'r ThreadPool \<Rightarrow> bool" where
  "internal_step s t \<longleftrightarrow> (\<exists>a. internal a \<and> tp_step a s t)"

fun weight :: "'r worker \<Rightarrow> nat" where
  "weight Ready = 1"
| "weight Waiting = 0"
| "weight (Run t) = 3"
| "weight (Counted t) = 2"
| "weight Exited = 0"

definition dtor_weight :: "'r ThreadPool \<Rightarrow> nat" where
  "dtor_weight s = (case tp_dtor s of Alive \<Rightarrow> length (m_workers s) + 2 | Stopped \<Rightarrow> length (m_workers s) + 2
     | Joining \<Rightarrow> 1 | Joined \<Rightarrow> 0)"

definition pool_measure :: "'r ThreadPool \<Rightarrow> nat" where
  "pool_measure s = 3 * length (m_tasks s) + 2 * tp_notifies s + over_workers weight s + dtor_weight s"

lemma sum_weight_wake:
  "sum_list (map (weight \<circ> (\<lambda>w. if w = Waiting then Ready else w)) ws) \<le> sum_list (map weight ws) + length ws"
proof (induction ws)
  case (Cons w ws) then show ?case by (cases w) auto
qed simp

lemma pool_measure_decreases: "tp_step a s t \<Longrightarrow> internal a \<Longrightarrow> pool_measure t < pool_measure s"
proof (induction rule: tp_step.induct)
  case (step_lock i s)
  show ?case
  proof (cases "m_tasks s")
    case Nil
    with step_lock sum_list_update [of i "m_workers s" weight Exited]
      sum_list_update [of i "m_workers s" weight Waiting]
    show ?thesis by (auto simp: pool_measure_def over_workers_def pool_ops dtor_weight_def split: dtor_pc.split)
  next
    case (Cons x xs)
    with step_lock sum_list_update [of i "m_workers s" weight "Run x"]
    show ?thesis by (auto simp: pool_measure_def over_workers_def pool_ops dtor_weight_def split: dtor_pc.split)
  qed
next
  case (step_body i s t)
  with sum_list_update [of i "m_workers s" weight "Counted t"]
  show ?case by (auto simp: pool_measure_def over_workers_def pool_ops dtor_weight_def split: dtor_pc.split)
next
  case (step_store i s t)
  with sum_list_update [of i "m_workers s" weight Ready]
  show ?case by (auto simp: pool_measure_def over_workers_def pool_ops dtor_weight_def split: dtor_pc.split)
next
  case (step_notify s n i)
  with sum_list_update [of i "m_workers s" weight Ready]
  show ?case by (auto simp: pool_measure_def over_workers_def dtor_weight_def split: dtor_pc.split)
next
  case (step_dtor_notify s)
  with sum_weight_wake [of "m_workers s"]
  show ?case by (simp add: pool_measure_def over_workers_def dtor_weight_def pool_ops)
qed (auto simp: pool_measure_def over_workers_def dtor_weight_def pool_ops split: dtor_pc.split)

lemma sum_list_zero: "\<forall>x\<in>set xs. f x = 0 \<Longrightarrow> sum_list (map f xs) = (0 :: 'a :: comm_monoid_add)"
  by (induction xs) auto

text \<open>In a state where no internal step is possible, nothing is left to do.\<close>

lemma quiescent:
  assumes inv: "tp_inv s" and stuck: "\<nexists>t. internal_step s t"
  shows "m_tasks s = []" and "over_workers in_flight s = {#}" and "over_workers counted_only s = 0"
    and "tp_dtor s = Alive \<or> tp_dtor s = Joined"
proof -
  have no: "\<not> tp_step a s t" if "internal a" for a t
    using stuck that by (auto simp: internal_step_def)
  have idle: "w = Waiting \<or> w = Exited" if w: "w \<in> set (m_workers s)" for w
  proof -
    obtain i where "i < length (m_workers s)" "m_workers s ! i = w" using w by (auto simp: in_set_conv_nth)
    then show ?thesis
      using no [of "Lock i"] no [of "Body i"] no [of "Store i"] by (cases w) (auto simp: tp_step_simps)
  qed
  then have zero: "sum_list (map f (m_workers s)) = 0" if "f Waiting = 0" "f Exited = 0"
    for f :: "'a worker \<Rightarrow> 'b :: comm_monoid_add"
    using that by (intro sum_list_zero) auto
  show "over_workers in_flight s = {#}" "over_workers counted_only s = 0"
    using zero [of in_flight] zero [of counted_only] by (simp_all add: over_workers_def)
  have "tp_notifies s = 0"
    using no [of Notify] by (cases "tp_notifies s") (auto simp: tp_step_simps in_set_conv_nth)
  moreover have "over_workers is_ready s = 0"
    using zero [of is_ready] by (simp add: over_workers_def is_ready_def)
  moreover have "Waiting \<notin> set (m_workers s) \<Longrightarrow> Exited \<in> set (m_workers s)"
    using inv idle by (cases "m_workers s") (auto simp: tp_inv_def inv_dtor_def)
  ultimately show "m_tasks s = []"
    using inv by (auto simp: tp_inv_def inv_wakeups_def inv_dtor_def)
  show "tp_dtor s = Alive \<or> tp_dtor s = Joined"
    using no [of Dtor_Notify] no [of Dtor_Join] inv idle
    by (cases "tp_dtor s") (auto simp: tp_step_simps tp_inv_def inv_dtor_def)
qed

text \<open>With nothing queued and nothing in flight, every future holds its task's result.\<close>

lemma all_futures_ready:
  assumes "inv_tasks s" and "m_tasks s = []" and "over_workers in_flight s = {#}"
  shows "i < length (tp_submitted s) \<Longrightarrow> map_of (tp_futures s) i = Some (tp_submitted s ! i)"
    and "length (tp_futures s) = length (tp_submitted s)"
proof -
  have m: "mset (tp_futures s) = mset (enumerate 0 (tp_submitted s))"
    using assms by (simp add: inv_tasks_def)
  then have "mset (map fst (tp_futures s)) = mset (map fst (enumerate 0 (tp_submitted s)))"
    by (simp only: mset_map)
  then have "distinct (map fst (tp_futures s)) \<longleftrightarrow> distinct (map fst (enumerate 0 (tp_submitted s)))"
    by (rule mset_eq_imp_distinct_iff)
  then have "distinct (map fst (tp_futures s))" by simp
  moreover have "i < length (tp_submitted s) \<Longrightarrow> (i, tp_submitted s ! i) \<in> set (tp_futures s)"
    using mset_eq_setD [OF m] by (simp add: in_set_enumerate_eq)
  ultimately show "i < length (tp_submitted s) \<Longrightarrow> map_of (tp_futures s) i = Some (tp_submitted s ! i)"
    by (rule map_of_is_SomeI)
  show "length (tp_futures s) = length (tp_submitted s)" using mset_eq_length [OF m] by simp
qed

lemma internal_step_reach: "tp_reach n s \<Longrightarrow> internal_step\<^sup>*\<^sup>* s t \<Longrightarrow> tp_reach n t"
  by (rotate_tac 1, induction rule: rtranclp_induct) (auto simp: internal_step_def intro: reach_step)

lemma internal_step_keeps:
  "internal_step\<^sup>*\<^sup>* s t \<Longrightarrow> tp_submitted t = tp_submitted s \<and> (tp_dtor t = Alive \<longleftrightarrow> tp_dtor s = Alive)"
proof (induction rule: rtranclp_induct)
  case (step t u)
  then obtain a where "tp_step a t u" "internal a" by (auto simp: internal_step_def)
  then have "tp_submitted u = tp_submitted t \<and> (tp_dtor u = Alive \<longleftrightarrow> tp_dtor t = Alive)"
    by (induction rule: tp_step.induct) (auto simp: pool_ops)
  with step.IH show ?case by simp
qed simp

lemma internal_run_bound: "(internal_step ^^ k) s t \<Longrightarrow> k + pool_measure t \<le> pool_measure s"
proof (induction k arbitrary: t)
  case (Suc k)
  then obtain u where "(internal_step ^^ k) s u" "internal_step u t" by auto
  with Suc.IH [of u] pool_measure_decreases [of _ u t] show ?case by (fastforce simp: internal_step_def)
qed simp

lemma counted_in_flight: "sum_list (map counted_only ws) \<le> size (sum_list (map in_flight ws))"
proof (induction ws)
  case (Cons w ws) then show ?case by (cases w) auto
qed simp

section \<open>A sample run\<close>

text \<open>One worker, one task; the pool before the result is stored, and after its destruction.\<close>

definition pool_counted_ex :: "int ThreadPool" where
  "pool_counted_ex = \<lparr>m_tasks = [], m_workers = [Counted (0, 42)], m_stop = False, m_pending = 0,
     m_completed = 1, tp_notifies = 1, tp_dtor = Alive, tp_futures = [], tp_submitted = [42]\<rparr>"

definition pool_stopped_ex :: "int ThreadPool" where
  "pool_stopped_ex = \<lparr>m_tasks = [], m_workers = [Counted (0, 42)], m_stop = True, m_pending = 0,
     m_completed = 1, tp_notifies = 1, tp_dtor = Stopped, tp_futures = [], tp_submitted = [42]\<rparr>"

definition pool_joined_ex :: "int ThreadPool" where
  "pool_joined_ex = \<lparr>m_tasks = [], m_workers = [Exited], m_stop = True, m_pending = 0,
     m_completed = 1, tp_notifies = 1, tp_dtor = Joined, tp_futures = [(0, 42)], tp_submitted = [42]\<rparr>"

lemma tp_reach_step: "tp_reach n s \<Longrightarrow> tp_step a s t \<Longrightarrow> tp_reach n t"
  by (auto intro: reach_step)

lemma pool_counted_ex_reach: "tp_reach 1 pool_counted_ex"
proof -
  have "tp_reach 1 (ThreadPool_ctor 1 :: int ThreadPool)" by (rule reach_init) simp
  from tp_reach_step [OF this step_submit [of _ 42]]
  have "tp_reach 1 (snd (submit 42 (ThreadPool_ctor 1 :: int ThreadPool)))"
    by (simp add: ThreadPool_ctor_def)
  from tp_reach_step [OF this step_lock [of 0]]
  have "tp_reach 1 (worker_lock 0 (snd (submit 42 (ThreadPool_ctor 1 :: int ThreadPool))))"
    by (simp add: ThreadPool_ctor_def pool_ops)
  from tp_reach_step [OF this step_body [of 0 _ "(0, 42)"]]
  show ?thesis by (simp add: ThreadPool_ctor_def pool_ops pool_counted_ex_def)
qed

lemma pool_stopped_ex_reach: "tp_reach 1 pool_stopped_ex"
  using tp_reach_step [OF pool_counted_ex_reach step_dtor_stop]
  by (simp add: pool_counted_ex_def pool_stopped_ex_def)

lemma pool_joined_ex_reach: "tp_reach 1 pool_joined_ex"
proof -
  from tp_reach_step [OF pool_stopped_ex_reach step_dtor_notify]
  have "tp_reach 1 (pool_stopped_ex\<lparr>tp_dtor := Joining\<rparr>)" by (simp add: pool_stopped_ex_def pool_ops)
  from tp_reach_step [OF this step_store [of 0 _ "(0, 42)"]]
  have "tp_reach 1 (pool_stopped_ex\<lparr>tp_dtor := Joining, m_workers := [Ready], tp_futures := [(0, 42)]\<rparr>)"
    by (simp add: pool_stopped_ex_def pool_ops)
  from tp_reach_step [OF this step_lock [of 0]]
  have "tp_reach 1 (pool_stopped_ex\<lparr>tp_dtor := Joining, m_workers := [Exited], tp_futures := [(0, 42)]\<rparr>)"
    by (simp add: pool_stopped_ex_def pool_ops)
  from tp_reach_step [OF this step_dtor_join]
  show ?thesis by (simp add: pool_stopped_ex_def pool_joined_ex_def)
qed

text \<open>The run of the pool's own steps from the call of the destructor to its end.\<close>

definition pool_end_ex :: "int ThreadPool" where
  "pool_end_ex = pool_joined_ex\<lparr>tp_notifies := 0\<rparr>"

lemma pool_end_ex_run: "internal_step\<^sup>*\<^sup>* pool_stopped_ex pool_end_ex"
proof -
  let ?j = "pool_stopped_ex\<lparr>tp_notifies := 0, tp_dtor := Joining\<rparr>"
  have "tp_step Notify pool_stopped_ex (pool_stopped_ex\<lparr>tp_notifies := 0\<rparr>)"
    by (rule step_notify_none) (simp_all add: pool_stopped_ex_def)
  moreover have "tp_step Dtor_Notify (pool_stopped_ex\<lparr>tp_notifies := 0\<rparr>) ?j"
    by (simp add: tp_step_simps pool_stopped_ex_def pool_ops)
  moreover have "tp_step (Store 0) ?j (?j\<lparr>m_workers := [Ready], tp_futures := [(0, 42)]\<rparr>)"
    by (simp add: tp_step_simps pool_stopped_ex_def pool_ops)
  moreover have "tp_step (Lock 0) (?j\<lparr>m_workers := [Ready], tp_futures := [(0, 42)]\<rparr>)
      (?j\<lparr>m_workers := [Exited], tp_futures := [(0, 42)]\<rparr>)"
    by (simp add: tp_step_simps pool_stopped_ex_def pool_ops)
  moreover have "tp_step Dtor_Join (?j\<lparr>m_workers := [Exited], tp_futures := [(0, 42)]\<rparr>) pool_end_ex"
    by (simp add: tp_step_simps pool_stopped_ex_def pool_joined_ex_def pool_end_ex_def)
  ultimately show ?thesis
    by (meson internal.simps internal_step_def rtranclp.intros)
qed

lemma pool_end_ex_stuck: "\<nexists>u. internal_step pool_end_ex u"
proof
  assume "\<exists>u. internal_step pool_end_ex u"
  then obtain a u where "internal a" "tp_step a pool_end_ex u" by (auto simp: internal_step_def)
  then show False by (cases a) (auto simp: tp_step_simps pool_end_ex_def pool_joined_ex_def)
qed

section \<open>Properties\<close>

text \<open>
  C5. Every accepted task runs exactly once. In every reachable state of the pool, under any
  interleaving, each accepted submission is in exactly one place: the queue, a worker, or the
  ready futures; a ready future holds what its own task returned; the queue holds the latest
  submissions in the order they came, and \<open>pending()\<close> is its length.
\<close>

theorem tasks_run_once:
  assumes "tp_reach n s"
  shows "image_mset fst (mset (m_tasks s) + over_workers in_flight s + mset (tp_futures s))
       = mset [0 ..< length (tp_submitted s)] \<and>
     (\<forall>(i, r)\<in>set (tp_futures s). i < length (tp_submitted s) \<and> r = tp_submitted s ! i) \<and>
     (\<exists>k. m_tasks s = drop k (enumerate 0 (tp_submitted s))) \<and>
     m_pending s = of_nat (length (m_tasks s))"
proof -
  have inv: "tp_inv s" using assms by (rule tpool.reach_inv)
  then have m: "mset (m_tasks s) + over_workers in_flight s + mset (tp_futures s) = mset (enumerate 0 (tp_submitted s))"
    by (simp add: tp_inv_def inv_tasks_def)
  have "set (tp_futures s) \<subseteq> set (enumerate 0 (tp_submitted s))"
    by (metis m mset_subset_eq_add_right set_mset_mono set_mset_mset)
  then have "\<forall>(i, r)\<in>set (tp_futures s). i < length (tp_submitted s) \<and> r = tp_submitted s ! i"
    by (force simp: in_set_enumerate_eq)
  moreover have "image_mset fst (mset (enumerate 0 (tp_submitted s))) = mset [0 ..< length (tp_submitted s)]"
    by (simp only: mset_map [symmetric] map_fst_enumerate) simp
  ultimately show ?thesis
    using inv m by (simp add: tp_inv_def inv_fifo_def inv_counters_def)
qed

theorem tasks_run_once_witness:
  "image_mset fst (mset (m_tasks pool_counted_ex) + over_workers in_flight pool_counted_ex
     + mset (tp_futures pool_counted_ex)) = mset [0 ..< length (tp_submitted pool_counted_ex)]"
  using tasks_run_once [OF pool_counted_ex_reach] by simp

text \<open>
  C29. A task is counted before its future is ready. In every reachable state,
  \<open>completed()\<close> is at least the number of ready futures, so whoever has seen a result also
  sees it counted, and at most the number of tasks taken from the queue.
\<close>

theorem completed_before_ready:
  assumes "tp_reach n s" and "length (tp_submitted s) < 2 ^ 64"
  shows "length (tp_futures s) \<le> unat (m_completed s) \<and>
     unat (m_completed s) \<le> length (tp_submitted s) - length (m_tasks s)"
proof -
  have inv: "tp_inv s" using assms(1) by (rule tpool.reach_inv)
  then have "size (mset (m_tasks s) + over_workers in_flight s + mset (tp_futures s)) = length (tp_submitted s)"
    by (simp add: tp_inv_def inv_tasks_def)
  then have "length (m_tasks s) + size (over_workers in_flight s) + length (tp_futures s) = length (tp_submitted s)"
    by simp
  moreover have "over_workers counted_only s \<le> size (over_workers in_flight s)"
    by (simp add: over_workers_def counted_in_flight)
  ultimately have le: "length (tp_futures s) + over_workers counted_only s
      \<le> length (tp_submitted s) - length (m_tasks s)" by linarith
  have "m_completed s = of_nat (length (tp_futures s) + over_workers counted_only s)"
    using inv by (simp add: tp_inv_def inv_counters_def)
  moreover have "length (tp_futures s) + over_workers counted_only s < 2 ^ 64" using le assms(2) by linarith
  ultimately have "unat (m_completed s) = length (tp_futures s) + over_workers counted_only s"
    by (simp only: unat_of_nat_size)
  with le show ?thesis by simp
qed

theorem completed_before_ready_witness:
  "length (tp_futures pool_joined_ex) \<le> unat (m_completed pool_joined_ex)"
  using completed_before_ready [OF pool_joined_ex_reach] by (simp add: pool_joined_ex_def)

text \<open>
  The destructor drains the queue. When it has returned, every task ever accepted has run
  and its future holds its result, none is left in the queue, all workers have returned, and
  the completion counter is the number of tasks.
\<close>

theorem destructor_drains:
  assumes "tp_reach n s" and "tp_dtor s = Joined"
  shows "m_tasks s = [] \<and> (\<forall>w\<in>set (m_workers s). w = Exited) \<and>
     (\<forall>i < length (tp_submitted s). map_of (tp_futures s) i = Some (tp_submitted s ! i)) \<and>
     m_completed s = of_nat (length (tp_submitted s))"
proof -
  have inv: "tp_inv s" using assms(1) by (rule tpool.reach_inv)
  then have exited: "\<forall>w\<in>set (m_workers s). w = Exited" and ne: "m_workers s \<noteq> []"
    using assms(2) by (simp_all add: tp_inv_def inv_dtor_def)
  then have "Exited \<in> set (m_workers s)" by (metis hd_in_set)
  then have tasks: "m_tasks s = []" using inv by (simp add: tp_inv_def inv_dtor_def)
  have "over_workers in_flight s = {#}" "over_workers counted_only s = 0"
    unfolding over_workers_def using exited by (auto intro!: sum_list_zero)
  then show ?thesis
    using inv tasks exited all_futures_ready [of s] by (simp add: tp_inv_def inv_counters_def)
qed

theorem destructor_drains_witness:
  "m_tasks pool_joined_ex = [] \<and> map_of (tp_futures pool_joined_ex) 0 = Some 42"
  using destructor_drains [OF pool_joined_ex_reach] by (simp add: pool_joined_ex_def)

text \<open>
  C6. No task is forgotten and no wake-up is lost. From any reachable state the pool's own
  steps number at most \<open>pool_measure\<close>, whatever the schedule, as long as nothing is submitted
  and nobody is woken for no reason; and where they end, every accepted task has run, its
  future holds its result, and a destructor that had begun has returned. In particular no
  schedule leaves a task queued with all workers asleep, and the destructor never hangs.
\<close>

theorem pool_finishes:
  assumes "tp_reach n s"
  shows "(\<forall>k t. (internal_step ^^ k) s t \<longrightarrow> k \<le> pool_measure s) \<and>
     (\<forall>t. internal_step\<^sup>*\<^sup>* s t \<and> (\<nexists>u. internal_step t u) \<longrightarrow>
        m_tasks t = [] \<and> tp_submitted t = tp_submitted s \<and>
        (\<forall>i < length (tp_submitted s). map_of (tp_futures t) i = Some (tp_submitted s ! i)) \<and>
        (tp_dtor s \<noteq> Alive \<longrightarrow> tp_dtor t = Joined))"
proof (intro conjI allI impI)
  show "(internal_step ^^ k) s t \<Longrightarrow> k \<le> pool_measure s" for k t
    using internal_run_bound [of k s t] by simp
  fix t assume t: "internal_step\<^sup>*\<^sup>* s t \<and> (\<nexists>u. internal_step t u)"
  then have "tp_reach n t" using assms internal_step_reach by blast
  then have inv: "tp_inv t" by (rule tpool.reach_inv)
  note q = quiescent [OF inv conjunct2 [OF t]]
  note keeps = internal_step_keeps [OF conjunct1 [OF t]]
  show "m_tasks t = []" by (rule q)
  show "tp_submitted t = tp_submitted s" using keeps by simp
  show "map_of (tp_futures t) i = Some (tp_submitted s ! i)" if "i < length (tp_submitted s)" for i
    using that keeps all_futures_ready(1) [of t i] inv q by (simp add: tp_inv_def)
  show "tp_dtor s \<noteq> Alive \<Longrightarrow> tp_dtor t = Joined" using q keeps by auto
qed

theorem pool_finishes_witness:
  "internal_step\<^sup>*\<^sup>* pool_stopped_ex pool_end_ex \<and> (\<nexists>u. internal_step pool_end_ex u) \<and>
   m_tasks pool_end_ex = [] \<and> map_of (tp_futures pool_end_ex) 0 = Some (tp_submitted pool_stopped_ex ! 0) \<and>
   tp_dtor pool_end_ex = Joined"
proof -
  have run: "internal_step\<^sup>*\<^sup>* pool_stopped_ex pool_end_ex \<and> (\<nexists>u. internal_step pool_end_ex u)"
    using pool_end_ex_run pool_end_ex_stuck by blast
  have "0 < length (tp_submitted pool_stopped_ex)" "tp_dtor pool_stopped_ex \<noteq> Alive"
    by (simp_all add: pool_stopped_ex_def)
  then show ?thesis
    using run conjunct2 [OF pool_finishes [OF pool_stopped_ex_reach], rule_format, OF run] by blast
qed

end
