(* ===== verification/Aggregation.thy ===== *)
theory Aggregation
  imports Prelude "HOL-Library.Multiset"
begin

text \<open>
  Statistics aggregated per key in a \<open>std::unordered_map\<close>, as both \<open>StatsReporter\<close> (per
  connection) and \<open>RequestStats\<close> (per route) keep them. The map is an association list: its
  elements in the order it stores them, which the C++ standard leaves open, so that an
  iteration over the map is any permutation of that list. The locale \<open>aggregator\<close> is the
  contract of such a \<open>record\<close> operation; \<open>commutative_aggregator\<close> adds that the update of
  one entry does not depend on the order of two events. Every call of \<open>record\<close> runs under the
  mutex of its class, so a run of several threads is a sequence of calls.
\<close>

section \<open>Insertion and update\<close>

text \<open>\<open>auto& s = m[k]; s = f(s)\<close>, with \<open>d\<close> the value of a new entry.\<close>

fun upsert :: "'k \<Rightarrow> 'v \<Rightarrow> ('v \<Rightarrow> 'v) \<Rightarrow> ('k \<times> 'v) list \<Rightarrow> ('k \<times> 'v) list" where
  "upsert k d f [] = [(k, f d)]"
| "upsert k d f ((k', v) # m) = (if k' = k then (k', f v) # m else (k', v) # upsert k d f m)"

abbreviation entry :: "('k \<times> 'v) list \<Rightarrow> 'k \<Rightarrow> 'v \<Rightarrow> 'v" where
  "entry m k d \<equiv> (case map_of m k of None \<Rightarrow> d | Some v \<Rightarrow> v)"

lemma map_of_upsert: "map_of (upsert k d f m) = (map_of m)(k \<mapsto> f (entry m k d))"
  by (induction k d f m rule: upsert.induct) auto

lemma keys_upsert [simp]: "fst ` set (upsert k d f m) = insert k (fst ` set m)"
  by (induction k d f m rule: upsert.induct) auto

lemma distinct_upsert: "distinct (map fst m) \<Longrightarrow> distinct (map fst (upsert k d f m))"
proof (induction k d f m rule: upsert.induct)
  case (2 k d f k' v m)
  have "k' \<noteq> k \<Longrightarrow> k' \<notin> fst ` set (upsert k d f m)" using 2(2) by simp
  with 2 show ?case by auto
qed simp

text \<open>A sum over the entries grows by what the update adds to one entry.\<close>

lemma sum_upsert:
  fixes w :: "'v \<Rightarrow> 'a :: comm_monoid_add"
  assumes "\<And>v. w (f v) = w v + c" and "w d = 0"
  shows "sum_list (map (w \<circ> snd) (upsert k d f m)) = sum_list (map (w \<circ> snd) m) + c"
  by (induction m) (auto simp: assms ac_simps)

section \<open>The contract of a recording operation\<close>

locale aggregator =
  fixes key_of :: "'e \<Rightarrow> 'k"
    and zero :: 's
    and upd :: "'e \<Rightarrow> 's \<Rightarrow> 's"
    and rec :: "'e \<Rightarrow> ('k \<times> 's) list \<Rightarrow> ('k \<times> 's) list"
  assumes rec_lookup: "map_of (rec e m) = (map_of m)(key_of e \<mapsto> upd e (entry m (key_of e) zero))"
    and rec_distinct: "distinct (map fst m) \<Longrightarrow> distinct (map fst (rec e m))"
begin

lemma runs_distinct: "distinct (map fst m) \<Longrightarrow> distinct (map fst (fold rec es m))"
  by (induction es arbitrary: m) (simp_all add: rec_distinct)

lemma runs_lookup:
  "map_of (fold rec es m) k =
     (if k \<in> key_of ` set es
      then Some (fold upd (filter (\<lambda>e. key_of e = k) es) (entry m k zero))
      else map_of m k)"
proof (induction es arbitrary: m)
  case (Cons e es)
  show ?case
  proof (cases "key_of e = k")
    case True
    then have "map_of (rec e m) k = Some (upd e (entry m k zero))" by (simp add: rec_lookup)
    moreover have "k \<notin> key_of ` set es \<Longrightarrow> filter (\<lambda>e. key_of e = k) es = []"
      by (auto simp: filter_empty_conv)
    ultimately show ?thesis
      using Cons True by (cases "k \<in> key_of ` set es") auto
  next
    case False
    then have "map_of (rec e m) k = map_of m k" by (simp add: rec_lookup)
    with Cons False show ?thesis by auto
  qed
qed simp

lemma runs_keys: "fst ` set (fold rec es m) = fst ` set m \<union> key_of ` set es"
proof -
  have "fst ` set (rec e m) = insert (key_of e) (fst ` set m)" for e m
    using rec_lookup [of e m] dom_map_of_conv_image_fst [of "rec e m"] dom_map_of_conv_image_fst [of m]
    by simp
  then show ?thesis by (induction es arbitrary: m) auto
qed

text \<open>The number of entries is the number of different keys seen.\<close>

lemma runs_count: "length (fold rec es []) = card (key_of ` set es)"
proof -
  have "length (fold rec es []) = card (fst ` set (fold rec es []))"
    using runs_distinct [of "[]" es] by (metis distinct_card distinct.simps(1) length_map list.set_map list.simps(8))
  then show ?thesis by (simp add: runs_keys)
qed

text \<open>
  Only the order of the events of one key matters: two interleavings of the same per-key
  event sequences give the same statistics.
\<close>

lemma runs_interleaving:
  assumes "\<And>k. filter (\<lambda>e. key_of e = k) es = filter (\<lambda>e. key_of e = k) es'"
  shows "map_of (fold rec es m) = map_of (fold rec es' m)"
proof (rule ext)
  fix k
  have "k \<in> key_of ` set xs \<longleftrightarrow> filter (\<lambda>e. key_of e = k) xs \<noteq> []" for xs
    by (auto simp: filter_empty_conv)
  then show "map_of (fold rec es m) k = map_of (fold rec es' m) k"
    using assms [of k] by (simp add: runs_lookup)
qed

end

locale commutative_aggregator = aggregator +
  assumes upd_commute: "upd a (upd b s) = upd b (upd a s)"
begin

text \<open>The order of the events does not matter at all.\<close>

lemma runs_mset:
  assumes "mset es = mset es'"
  shows "map_of (fold rec es m) = map_of (fold rec es' m)"
proof (rule ext)
  fix k
  have "mset (filter (\<lambda>e. key_of e = k) es) = mset (filter (\<lambda>e. key_of e = k) es')"
    using assms by (simp add: mset_filter)
  then have "fold upd (filter (\<lambda>e. key_of e = k) es) = fold upd (filter (\<lambda>e. key_of e = k) es')"
    by (rule fold_multiset_equiv [rotated]) (simp add: fun_eq_iff upd_commute)
  moreover have "set es = set es'" using assms by (rule mset_eq_setD)
  ultimately show "map_of (fold rec es m) k = map_of (fold rec es' m) k"
    by (simp add: runs_lookup)
qed

end

text \<open>\<open>upsert\<close> meets the contract, whatever the key and the update.\<close>

lemma aggregator_upsert:
  "aggregator key_of zero upd (\<lambda>e. upsert (key_of e) zero (upd e))"
  by unfold_locales (simp_all add: map_of_upsert distinct_upsert)

end
