(* ===== verification/Request_Stats.thy ===== *)
theory Request_Stats
  imports Complex_Main Aggregation
begin

text \<open>
  \<open>src/src/http/request_stats.h\<close>: latency statistics per route, and the timer object that
  records one request. \<open>RequestStats\<close> is the map \<open>m_stats\<close>; each method runs under the
  shared mutex, writers exclusively, so it is one function. The clock readings are arguments.
  Arithmetic on \<open>double\<close> is real arithmetic with the rounding of each operation, a function
  the machine provides, written out.
\<close>

section \<open>Definitions\<close>

record RouteStats =
  rs_requests :: u64
  rs_errors :: u64
  rs_total_us :: u64
  rs_min_us :: u64
  rs_max_us :: u64

definition RouteStats_init :: RouteStats where
  "RouteStats_init = \<lparr>rs_requests = 0, rs_errors = 0, rs_total_us = 0, rs_min_us = - 1, rs_max_us = 0\<rparr>"

definition mean_us :: "(real \<Rightarrow> real) \<Rightarrow> RouteStats \<Rightarrow> real" where
  "mean_us rnd s =
     (if rs_requests s > 0 then rnd (rnd (real (unat (rs_total_us s))) / rnd (real (unat (rs_requests s))))
      else 0)"

type_synonym RequestStats = "(string \<times> RouteStats) list"

definition update_route :: "u64 \<Rightarrow> bool \<Rightarrow> RouteStats \<Rightarrow> RouteStats" where
  "update_route elapsed_us ok s0 =
     (let s = s0\<lparr>rs_requests := rs_requests s0 + 1,
                 rs_total_us := rs_total_us s0 + elapsed_us,
                 rs_min_us := min (rs_min_us s0) elapsed_us,
                 rs_max_us := max (rs_max_us s0) elapsed_us\<rparr>
      in if \<not> ok then s\<lparr>rs_errors := rs_errors s + 1\<rparr> else s)"

definition request_record :: "string \<Rightarrow> u64 \<Rightarrow> bool \<Rightarrow> RequestStats \<Rightarrow> RequestStats" where
  "request_record route elapsed_us ok m = upsert route RouteStats_init (update_route elapsed_us ok) m"

definition snapshot :: "RequestStats \<Rightarrow> RequestStats" where
  "snapshot m = m"

text \<open>The loops add up in the iteration order of the map.\<close>

definition total_requests :: "(RequestStats \<Rightarrow> RequestStats) \<Rightarrow> RequestStats \<Rightarrow> u64" where
  "total_requests order m = fold (\<lambda>(route, s) n. n + rs_requests s) (order m) 0"

definition total_errors :: "(RequestStats \<Rightarrow> RequestStats) \<Rightarrow> RequestStats \<Rightarrow> u64" where
  "total_errors order m = fold (\<lambda>(route, s) n. n + rs_errors s) (order m) 0"

text \<open>\<open>RequestTimer\<close>; clock readings are in nanoseconds.\<close>

record RequestTimer =
  rt_route :: string
  rt_start :: int
  rt_done :: bool

definition RequestTimer_ctor :: "string \<Rightarrow> int \<Rightarrow> RequestTimer" where
  "RequestTimer_ctor route now = \<lparr>rt_route = route, rt_start = now, rt_done = False\<rparr>"

text \<open>\<open>duration_cast<microseconds>(d).count()\<close> truncates towards zero.\<close>

definition to_us :: "int \<Rightarrow> int" where
  "to_us d = (if 0 \<le> d then d div 1000 else - (- d div 1000))"

definition finish :: "int \<Rightarrow> bool \<Rightarrow> RequestTimer \<times> RequestStats \<Rightarrow> RequestTimer \<times> RequestStats" where
  "finish now ok = (\<lambda>(t, m).
     if rt_done t then (t, m)
     else (t\<lparr>rt_done := True\<rparr>, request_record (rt_route t) (word_of_int (to_us (now - rt_start t))) ok m))"

definition RequestTimer_dtor :: "int \<Rightarrow> RequestTimer \<times> RequestStats \<Rightarrow> RequestStats" where
  "RequestTimer_dtor now tm = snd (finish now False tm)"

section \<open>Lemmas\<close>

type_synonym request = "string \<times> u64 \<times> bool"

definition record_request :: "request \<Rightarrow> RequestStats \<Rightarrow> RequestStats" where
  "record_request = (\<lambda>(route, us, ok). request_record route us ok)"

definition update_request :: "request \<Rightarrow> RouteStats \<Rightarrow> RouteStats" where
  "update_request = (\<lambda>(route, us, ok). update_route us ok)"

lemma update_request_commute: "update_request a (update_request b s) = update_request b (update_request a s)"
  by (cases a; cases b)
     (auto simp: update_request_def update_route_def Let_def ac_simps intro!: RouteStats.equality)

lemma aggregator_requests: "aggregator fst RouteStats_init update_request record_request"
proof -
  have "record_request = (\<lambda>e. upsert (fst e) RouteStats_init (update_request e))"
    by (auto simp: record_request_def update_request_def request_record_def fun_eq_iff)
  then show ?thesis
    using aggregator_upsert [of fst RouteStats_init update_request] by simp
qed

interpretation requests: commutative_aggregator fst RouteStats_init update_request record_request
  by (rule commutative_aggregator.intro [OF aggregator_requests])
     (simp add: commutative_aggregator_axioms_def update_request_commute)

lemma fold_update_request:
  "fold update_request es s =
     s\<lparr>rs_requests := rs_requests s + of_nat (length es),
       rs_errors := rs_errors s + of_nat (length (filter (\<lambda>(r, us, ok). \<not> ok) es)),
       rs_total_us := rs_total_us s + sum_list (map (\<lambda>(r, us, ok). us) es),
       rs_min_us := fold min (map (\<lambda>(r, us, ok). us) es) (rs_min_us s),
       rs_max_us := fold max (map (\<lambda>(r, us, ok). us) es) (rs_max_us s)\<rparr>"
  by (induction es arbitrary: s)
     (auto simp: update_request_def update_route_def Let_def min.commute max.commute
       intro!: RouteStats.equality)

lemma fold_min_Min: "xs \<noteq> [] \<Longrightarrow> fold min xs (- 1) = Min (set xs)" for xs :: "u64 list"
proof (cases xs)
  case (Cons y ys)
  then show ?thesis using Min.set_eq_fold [of y ys] by (simp add: min_absorb1)
qed simp

lemma fold_max_Max: "xs \<noteq> [] \<Longrightarrow> fold max xs 0 = Max (set xs)" for xs :: "u64 list"
proof (cases xs)
  case (Cons y ys)
  then show ?thesis using Max.set_eq_fold [of y ys] by (simp add: max_absorb1)
qed simp

lemma fold_add: "fold (\<lambda>(k, v) n. n + w v) xs a = a + sum_list (map (w \<circ> snd) xs)" for a :: "'a :: comm_monoid_add"
  by (induction xs arbitrary: a) (auto simp: ac_simps)

lemma sum_list_mset: "mset xs = mset ys \<Longrightarrow> sum_list (map f xs) = sum_list (map f ys)"
  for f :: "'b \<Rightarrow> 'a :: comm_monoid_add"
  by (metis mset_map sum_mset_sum_list)

lemma totals:
  assumes "mset (order m) = mset m"
  shows "total_requests order m = sum_list (map (rs_requests \<circ> snd) m)"
    and "total_errors order m = sum_list (map (rs_errors \<circ> snd) m)"
  using sum_list_mset [OF assms] by (simp_all add: total_requests_def total_errors_def fold_add)

lemma sum_record:
  "sum_list (map (rs_requests \<circ> snd) (record_request e m)) = sum_list (map (rs_requests \<circ> snd) m) + 1"
  "sum_list (map (rs_errors \<circ> snd) (record_request e m)) =
     sum_list (map (rs_errors \<circ> snd) m) + (if snd (snd e) then 0 else 1)"
proof -
  obtain r us ok where e: "e = (r, us, ok)" by (cases e)
  show "sum_list (map (rs_requests \<circ> snd) (record_request e m)) = sum_list (map (rs_requests \<circ> snd) m) + 1"
    unfolding e record_request_def request_record_def prod.case
    by (rule sum_upsert) (simp_all add: update_route_def RouteStats_init_def Let_def)
  show "sum_list (map (rs_errors \<circ> snd) (record_request e m)) =
      sum_list (map (rs_errors \<circ> snd) m) + (if snd (snd e) then 0 else 1)"
    unfolding e record_request_def request_record_def prod.case
    by (rule sum_upsert) (simp_all add: update_route_def RouteStats_init_def Let_def)
qed

lemma sum_records:
  "sum_list (map (rs_requests \<circ> snd) (fold record_request es m))
     = sum_list (map (rs_requests \<circ> snd) m) + of_nat (length es)"
  "sum_list (map (rs_errors \<circ> snd) (fold record_request es m))
     = sum_list (map (rs_errors \<circ> snd) m) + of_nat (length (filter (\<lambda>(r, us, ok). \<not> ok) es))"
  by (induction es arbitrary: m) (auto simp: sum_record)

lemma unat_sum_list: "sum_list (map unat xs) < 2 ^ 53 \<Longrightarrow> unat (sum_list xs) = sum_list (map unat xs)"
  for xs :: "u64 list"
proof (induction xs)
  case (Cons x xs)
  then have "unat (sum_list xs) = sum_list (map unat xs)" by simp
  moreover have "unat x + sum_list (map unat xs) < 2 ^ 64" using Cons.prems by simp
  ultimately show ?case by (simp add: unat_word_ariths)
qed simp

lemma sum_list_bounds:
  "unat (Min (set us)) * length us \<le> sum_list (map unat us)"
  "sum_list (map unat us) \<le> unat (Max (set us)) * length us" for us :: "u64 list"
proof -
  have "sum_list (map (\<lambda>_. unat (Min (set us))) us) \<le> sum_list (map unat us)"
    "sum_list (map unat us) \<le> sum_list (map (\<lambda>_. unat (Max (set us))) us)"
    by (rule sum_list_mono, simp add: word_le_nat_alt [symmetric])+
  then show "unat (Min (set us)) * length us \<le> sum_list (map unat us)"
    "sum_list (map unat us) \<le> unat (Max (set us)) * length us"
    by (simp_all add: sum_list_triv mult.commute)
qed

section \<open>Properties\<close>

definition of_route :: "string \<Rightarrow> request list \<Rightarrow> request list" where
  "of_route r es = filter (\<lambda>e. fst e = r) es"

text \<open>
  Request statistics are exact and do not depend on the schedule. However the worker
  threads' \<open>record\<close> calls interleave (\<open>es'\<close> is any order of \<open>es\<close>) and in whatever order the
  map is iterated, a route has an entry exactly if it had a request, with its number of
  requests and errors, total (modulo \<open>2 ^ 64\<close>), smallest and largest latency; the totals are
  the number of all requests and of all failed ones.
\<close>

theorem request_stats_exact:
  assumes "mset es' = mset es" and "\<forall>m. mset (order m) = mset m"
  shows "map_of (snapshot (fold record_request es' [])) r =
     (if of_route r es = [] then None
      else Some \<lparr>rs_requests = of_nat (length (of_route r es)),
        rs_errors = of_nat (length (filter (\<lambda>(r, us, ok). \<not> ok) (of_route r es))),
        rs_total_us = sum_list (map (\<lambda>(r, us, ok). us) (of_route r es)),
        rs_min_us = Min (set (map (\<lambda>(r, us, ok). us) (of_route r es))),
        rs_max_us = Max (set (map (\<lambda>(r, us, ok). us) (of_route r es)))\<rparr>) \<and>
   total_requests order (fold record_request es' []) = of_nat (length es) \<and>
   total_errors order (fold record_request es' []) = of_nat (length (filter (\<lambda>(r, us, ok). \<not> ok) es))"
proof -
  have same: "map_of (fold record_request es' []) = map_of (fold record_request es [])"
    using assms(1) by (rule requests.runs_mset)
  have "r \<in> fst ` set es \<longleftrightarrow> of_route r es \<noteq> []"
    by (auto simp: of_route_def filter_empty_conv)
  then have "map_of (fold record_request es []) r =
      (if of_route r es = [] then None else Some (fold update_request (of_route r es) RouteStats_init))"
    using requests.runs_lookup [of es "[]" r] by (simp add: of_route_def)
  then have "map_of (fold record_request es []) r =
     (if of_route r es = [] then None
      else Some \<lparr>rs_requests = of_nat (length (of_route r es)),
        rs_errors = of_nat (length (filter (\<lambda>(r, us, ok). \<not> ok) (of_route r es))),
        rs_total_us = sum_list (map (\<lambda>(r, us, ok). us) (of_route r es)),
        rs_min_us = Min (set (map (\<lambda>(r, us, ok). us) (of_route r es))),
        rs_max_us = Max (set (map (\<lambda>(r, us, ok). us) (of_route r es)))\<rparr>)"
    using fold_min_Min [of "map (\<lambda>(r, us, ok). us) (of_route r es)"]
      fold_max_Max [of "map (\<lambda>(r, us, ok). us) (of_route r es)"]
    by (simp add: fold_update_request RouteStats_init_def)
  moreover have "length es' = length es" "length (filter P es') = length (filter P es)" for P
    using assms(1) by (metis mset_eq_length mset_filter)+
  ultimately show ?thesis
    using same assms(2) by (simp add: snapshot_def totals sum_records)
qed

definition requests_ex :: "request list" where
  "requests_ex = [(''/metrics'', 100, True), (''/health'', 50, False), (''/metrics'', 300, True)]"

theorem request_stats_exact_witness:
  "map_of (snapshot (fold record_request (rev requests_ex) [])) ''/metrics'' =
     Some \<lparr>rs_requests = 2, rs_errors = 0, rs_total_us = 400, rs_min_us = 100, rs_max_us = 300\<rparr> \<and>
   total_requests rev (fold record_request (rev requests_ex) []) = 3 \<and>
   total_errors rev (fold record_request (rev requests_ex) []) = 1"
  using request_stats_exact [of "rev requests_ex" requests_ex rev "''/metrics''"]
  by (simp add: requests_ex_def of_route_def)

text \<open>
  A timer records its request exactly once. Whatever calls of \<open>finish\<close> are made between
  the construction and the destruction of a \<open>RequestTimer\<close>, the statistics receive one
  record: that of the first call, with the time elapsed until it, or, without any call, a
  failed request lasting until the destruction.
\<close>

theorem timer_records_once:
  "RequestTimer_dtor t_end (fold (\<lambda>(now, ok). finish now ok) calls (RequestTimer_ctor route t0, m)) =
     (let (now, ok) = (case calls of [] \<Rightarrow> (t_end, False) | c # _ \<Rightarrow> c)
      in request_record route (word_of_int (to_us (now - t0))) ok m)"
proof -
  have stable: "finish now ok (t, m) = (t, m)" if "rt_done t" for now ok t m
    using that by (simp add: finish_def)
  then have "fold (\<lambda>(now, ok). finish now ok) cs (t, m) = (t, m)" if "rt_done t" for cs t m
    using that by (induction cs) auto
  moreover have "finish now ok (RequestTimer_ctor route t0, m) =
      ((RequestTimer_ctor route t0)\<lparr>rt_done := True\<rparr>,
       request_record route (word_of_int (to_us (now - t0))) ok m)" for now ok
    by (simp add: finish_def RequestTimer_ctor_def)
  ultimately show ?thesis
    using stable by (cases calls) (auto simp: RequestTimer_dtor_def)
qed

text \<open>
  The mean latency lies between the extremes. If a route's statistics come from recorded
  requests whose latencies add up to less than \<open>2 ^ 53\<close> microseconds, and rounding is monotone
  and exact on the integers below \<open>2 ^ 53\<close> as IEEE 754 requires of \<open>double\<close>, then
  \<open>mean_us()\<close> is at least the smallest and at most the largest latency.
\<close>

theorem mean_between_min_max:
  assumes "us \<noteq> []" and "length us < 2 ^ 53" and "sum_list (map unat us) < 2 ^ 53"
    and "\<forall>x y. x \<le> y \<longrightarrow> rnd x \<le> rnd y" and "\<forall>n < 2 ^ 53. rnd (real n) = real n"
  shows "(let s = fold update_request (map (\<lambda>u. (r, u, True)) us) RouteStats_init
     in real (unat (rs_min_us s)) \<le> mean_us rnd s \<and> mean_us rnd s \<le> real (unat (rs_max_us s)))"
proof -
  define s where "s = fold update_request (map (\<lambda>u. (r, u, True)) us) RouteStats_init"
  have f: "map ((\<lambda>(r, us, ok). us) \<circ> (\<lambda>u. (r, u, True))) us = us" by (simp add: comp_def)
  have s: "rs_min_us s = Min (set us)" "rs_max_us s = Max (set us)" "rs_requests s = of_nat (length us)"
    "rs_total_us s = sum_list us"
    using fold_min_Min [OF assms(1)] fold_max_Max [OF assms(1)]
    by (simp_all add: s_def fold_update_request RouteStats_init_def f comp_def)
  have tot: "unat (rs_total_us s) = sum_list (map unat us)" using s(4) unat_sum_list assms(3) by simp
  have req: "unat (rs_requests s) = length us"
    using s(3) assms(2) by (simp add: unat_of_nat take_bit_nat_eq_self)
  let ?q = "real (sum_list (map unat us)) / real (length us)"
  have n0: "0 < length us" using assms(1) by simp
  have "0 < rs_requests s" using n0 req by (metis unat_gt_0 word_gt_0)
  then have mean: "mean_us rnd s = rnd ?q"
    using assms(2,3,5) by (simp add: mean_us_def tot req)
  have q: "real (unat (Min (set us))) \<le> ?q" "?q \<le> real (unat (Max (set us)))"
    using of_nat_mono [OF sum_list_bounds(1) [of us], where 'a = real]
      of_nat_mono [OF sum_list_bounds(2) [of us], where 'a = real] n0
    by (simp_all add: pos_le_divide_eq pos_divide_le_eq)
  have "unat x \<le> sum_list (map unat us)" if "x \<in> set us" for x
    using that by (simp add: member_le_sum_list)
  then have "unat (Min (set us)) < 2 ^ 53" "unat (Max (set us)) < 2 ^ 53"
    using assms(1,3) by (meson List.finite_set Max_in Min_in order_le_less_trans set_empty)+
  then show ?thesis
    using q assms(4,5) mean s unfolding s_def [symmetric] Let_def by metis
qed

theorem mean_between_min_max_witness:
  "(let s = fold update_request (map (\<lambda>u. (''/api'', u, True)) [100, 300]) RouteStats_init
    in real (unat (rs_min_us s)) \<le> mean_us (\<lambda>x. x) s \<and> mean_us (\<lambda>x. x) s \<le> real (unat (rs_max_us s)))"
  by (rule mean_between_min_max) simp_all

end
