(* ===== verification/Served_Requests.thy ===== *)
theory Served_Requests
  imports Thread_Pool Request_Stats
begin

text \<open>
  Requests handled on the thread pool, the use for which \<open>src/src/http/request_stats.h\<close> and
  \<open>src/src/http/thread_pool.h\<close> are made: the body of a task constructs a \<open>RequestTimer\<close> for its
  route, may call \<open>finish\<close>, and destroys the timer. The statistics are shared by all workers;
  \<open>record\<close> holds the exclusive lock, so that its effect is one step, the step in which the
  body of the task ends. Everything else is the pool's own step relation.
\<close>

section \<open>Definitions\<close>

text \<open>A task: its route, and the clock readings and results of its timer.\<close>

record job =
  jb_route :: string
  jb_start :: int
  jb_finishes :: "(int \<times> bool) list"
  jb_end :: int

definition run_job :: "job \<Rightarrow> RequestStats \<Rightarrow> RequestStats" where
  "run_job j m =
     RequestTimer_dtor (jb_end j)
       (fold (\<lambda>(now, ok). finish now ok) (jb_finishes j) (RequestTimer_ctor (jb_route j) (jb_start j), m))"

inductive served_step :: "job ThreadPool \<times> RequestStats \<Rightarrow> job ThreadPool \<times> RequestStats \<Rightarrow> bool" where
  served_body: "tp_step (Body i) s t \<Longrightarrow> m_workers s ! i = Run (n, j) \<Longrightarrow> served_step (s, m) (t, run_job j m)"
| served_other: "tp_step a s t \<Longrightarrow> (\<And>i. a \<noteq> Body i) \<Longrightarrow> served_step (s, m) (t, m)"

inductive_simps served_step_simps: "served_step (s, m) (t, m')"

abbreviation served_reach :: "size_t \<Rightarrow> job ThreadPool \<times> RequestStats \<Rightarrow> bool" where
  "served_reach n \<equiv> reach (\<lambda>x. x = (ThreadPool_ctor n, [])) served_step"

section \<open>Invariant\<close>

text \<open>What a job is to leave in the statistics.\<close>

definition job_request :: "job \<Rightarrow> request" where
  "job_request j =
     (let (now, ok) = (case jb_finishes j of [] \<Rightarrow> (jb_end j, False) | c # _ \<Rightarrow> c)
      in (jb_route j, word_of_int (to_us (now - jb_start j)), ok))"

lemma run_job_records: "run_job j = record_request (job_request j)"
  by (auto simp: fun_eq_iff run_job_def timer_records_once record_request_def job_request_def split: list.split)

text \<open>The jobs whose bodies have not ended.\<close>

fun not_run :: "'r worker \<Rightarrow> 'r multiset" where
  "not_run (Run t) = {#snd t#}"
| "not_run _ = {#}"

definition waiting_jobs :: "'r ThreadPool \<Rightarrow> 'r multiset" where
  "waiting_jobs s = mset (map snd (m_tasks s)) + over_workers not_run s"

definition served_inv :: "job ThreadPool \<times> RequestStats \<Rightarrow> bool" where
  "served_inv = (\<lambda>(s, m). tp_inv s \<and>
     (\<exists>ran. m = fold record_request (map job_request ran) [] \<and> waiting_jobs s + mset ran = mset (tp_submitted s)))"

lemma not_run_update:
  "i < length ws \<Longrightarrow>
     sum_list (map not_run (ws[i := w])) + not_run (ws ! i) = sum_list (map not_run ws) + not_run w"
  by (rule sum_list_update)

lemma body_waiting:
  assumes "tp_step (Body i) s t" and "m_workers s ! i = Run (n, j)"
  shows "waiting_jobs t + {#j#} = waiting_jobs s \<and> tp_submitted t = tp_submitted s"
  using assms not_run_update [of i "m_workers s" "Counted (n, j)"]
  by (auto simp: tp_step_simps waiting_jobs_def over_workers_def pool_ops)

lemma other_waiting:
  assumes "tp_step a s t" and "\<And>i. a \<noteq> Body i"
  shows "waiting_jobs t + mset (tp_submitted s) = waiting_jobs s + mset (tp_submitted t)"
  using assms
proof (induction rule: tp_step.induct)
  case (step_lock i s)
  show ?case
  proof (cases "m_tasks s")
    case Nil
    with step_lock not_run_update [of i "m_workers s" Exited] not_run_update [of i "m_workers s" Waiting]
    show ?thesis by (simp add: waiting_jobs_def over_workers_def pool_ops)
  next
    case (Cons x xs)
    with step_lock not_run_update [of i "m_workers s" "Run x"]
    show ?thesis by (simp add: waiting_jobs_def over_workers_def pool_ops ac_simps)
  qed
next
  case (step_body i s t)
  then show ?case by blast
next
  case (step_store i s t)
  with not_run_update [of i "m_workers s" Ready]
  show ?case by (simp add: waiting_jobs_def over_workers_def pool_ops)
next
  case (step_notify s n i)
  with not_run_update [of i "m_workers s" Ready]
  show ?case by (simp add: waiting_jobs_def over_workers_def)
next
  case (step_spurious i s)
  with not_run_update [of i "m_workers s" Ready]
  show ?case by (simp add: waiting_jobs_def over_workers_def)
qed (simp_all add: waiting_jobs_def over_workers_def pool_ops sum_list_wake)

lemma served_step_inv:
  assumes "served_inv x" and "served_step x y"
  shows "served_inv y"
  using assms(2,1)
proof (induction rule: served_step.induct)
  case (served_body i s t n j m)
  then obtain ran where ran: "m = fold record_request (map job_request ran) []"
    "waiting_jobs s + mset ran = mset (tp_submitted s)" and inv: "tp_inv s" by (auto simp: served_inv_def)
  have "waiting_jobs t + mset (ran @ [j]) = mset (tp_submitted t)"
    using body_waiting [OF served_body(1,2)] ran(2) by (metis add.assoc add.commute mset_append mset_single_iff_right)
  moreover have "run_job j m = fold record_request (map job_request (ran @ [j])) []"
    using ran(1) by (simp add: run_job_records)
  moreover have "tp_inv t" using inv served_body(1) tpool.step_inv by blast
  ultimately show ?case unfolding served_inv_def prod.case by blast
next
  case (served_other a s t m)
  then obtain ran where ran: "m = fold record_request (map job_request ran) []"
    "waiting_jobs s + mset ran = mset (tp_submitted s)" and inv: "tp_inv s" by (auto simp: served_inv_def)
  have "waiting_jobs s + (waiting_jobs t + mset ran) = waiting_jobs t + mset (tp_submitted s)"
    by (simp add: ran(2) [symmetric] ac_simps)
  also have "\<dots> = waiting_jobs s + mset (tp_submitted t)" by (rule other_waiting [OF served_other(1,2)])
  finally have "waiting_jobs t + mset ran = mset (tp_submitted t)" by simp
  moreover have "tp_inv t" using inv served_other(1) tpool.step_inv by blast
  ultimately show ?case using ran(1) by (auto simp: served_inv_def)
qed

interpretation served: step_invariant "\<lambda>x. x = (ThreadPool_ctor n, [])" served_step served_inv for n
proof
  show "served_inv x" if "x = (ThreadPool_ctor n, [])" for x
    using that tp_init_inv [of n]
    by (auto simp: served_inv_def waiting_jobs_def over_workers_def ThreadPool_ctor_def sum_list_replicate_0)
qed (rule served_step_inv)

lemma joined_idle:
  assumes "tp_inv s" and "tp_dtor s = Joined"
  shows "waiting_jobs s = {#}"
proof -
  have exited: "\<forall>w\<in>set (m_workers s). w = Exited" and "m_workers s \<noteq> []"
    using assms by (simp_all add: tp_inv_def inv_dtor_def)
  then have "Exited \<in> set (m_workers s)" by (metis hd_in_set)
  then have "m_tasks s = []" using assms(1) by (simp add: tp_inv_def inv_dtor_def)
  with exited show ?thesis by (auto simp: waiting_jobs_def over_workers_def intro!: sum_list_zero)
qed

section \<open>A sample run\<close>

text \<open>One worker serves two requests, one that succeeds and one whose timer is never finished.\<close>

definition job_ok_ex :: job where
  "job_ok_ex = \<lparr>jb_route = ''/metrics'', jb_start = 1000, jb_finishes = [(301000, True)], jb_end = 400000\<rparr>"

definition job_lost_ex :: job where
  "job_lost_ex = \<lparr>jb_route = ''/metrics'', jb_start = 5000, jb_finishes = [], jb_end = 105000\<rparr>"

definition served_ex :: "job ThreadPool" where
  "served_ex = \<lparr>m_tasks = [], m_workers = [Exited], m_stop = True, m_pending = 0, m_completed = 2,
     tp_notifies = 2, tp_dtor = Joined, tp_futures = [(0, job_ok_ex), (1, job_lost_ex)],
     tp_submitted = [job_ok_ex, job_lost_ex]\<rparr>"

lemma served_reach_body:
  "served_reach k (s, m) \<Longrightarrow> i < length (m_workers s) \<Longrightarrow> m_workers s ! i = Run (n, j) \<Longrightarrow>
     served_reach k (worker_count i (n, j) s, run_job j m)"
  by (erule reach_step) (auto intro: served_body step_body)

lemma served_reach_other:
  "served_reach k (s, m) \<Longrightarrow> tp_step a s t \<Longrightarrow> (\<And>i. a \<noteq> Body i) \<Longrightarrow> served_reach k (t, m)"
  by (erule reach_step) (rule served_other)

lemma served_ex_reach: "served_reach 1 (served_ex, run_job job_lost_ex (run_job job_ok_ex []))"
proof -
  note other = served_reach_other
  let ?s = "\<lparr>m_tasks = [], m_workers = [Ready], m_stop = False, m_pending = 0, m_completed = 0,
     tp_notifies = 0, tp_dtor = Alive, tp_futures = [], tp_submitted = []\<rparr> :: job ThreadPool"
  let ?t = "snd (submit job_lost_ex (snd (submit job_ok_ex ?s)))"
  let ?u = "worker_store 0 (0, job_ok_ex) (worker_count 0 (0, job_ok_ex) (worker_lock 0 ?t))"
  let ?v = "worker_store 0 (1, job_lost_ex) (worker_count 0 (1, job_lost_ex) (worker_lock 0 ?u))"
  have "served_reach 1 (?s, [])" by (rule reach_init) (simp add: ThreadPool_ctor_def)
  from other [OF other [OF this step_submit] step_submit]
  have "served_reach 1 (?t, [])" by (simp add: pool_ops)
  from other [OF this step_lock [of 0]]
  have "served_reach 1 (worker_lock 0 ?t, [])" by (simp add: pool_ops)
  from other [OF served_reach_body [OF this, of 0 0 job_ok_ex] step_store [of 0 _ "(0, job_ok_ex)"]]
  have "served_reach 1 (?u, run_job job_ok_ex [])" by (simp add: pool_ops)
  from other [OF this step_lock [of 0]]
  have "served_reach 1 (worker_lock 0 ?u, run_job job_ok_ex [])" by (simp add: pool_ops)
  from other [OF served_reach_body [OF this, of 0 1 job_lost_ex] step_store [of 0 _ "(1, job_lost_ex)"]]
  have "served_reach 1 (?v, run_job job_lost_ex (run_job job_ok_ex []))" by (simp add: pool_ops)
  from other [OF other [OF this step_dtor_stop] step_dtor_notify]
  have "served_reach 1 ((notify_all (?v\<lparr>m_stop := True, tp_dtor := Stopped\<rparr>))\<lparr>tp_dtor := Joining\<rparr>,
     run_job job_lost_ex (run_job job_ok_ex []))" by (simp add: pool_ops)
  from other [OF other [OF this step_lock [of 0]] step_dtor_join]
  show ?thesis by (simp add: pool_ops served_ex_def numeral_2_eq_2)
qed

lemma served_ex_jobs:
  "job_request job_ok_ex = (''/metrics'', 300, True)"
  "job_request job_lost_ex = (''/metrics'', 100, False)"
  "tp_submitted served_ex = [job_ok_ex, job_lost_ex]"
  by (simp_all add: job_request_def job_ok_ex_def job_lost_ex_def served_ex_def to_us_def)

section \<open>Properties\<close>

text \<open>
  C13. Requests served on the pool are counted exactly. When the pool has been destroyed, the
  statistics hold the submitted requests, all of them and each once, whatever the schedule of
  the workers was and in whatever order the table is iterated: per route the number of
  requests and of failed ones, the total latency (modulo \<open>2 ^ 64\<close>), the smallest and the
  largest; over all routes the number of submitted and of failed requests. A request counts
  with its timer's first \<open>finish\<close>, and as failed if there was none.
\<close>

theorem served_requests_exact:
  assumes "served_reach n (s, m)" and "tp_dtor s = Joined" and "\<forall>m. mset (order m) = mset m"
  shows "let es = map job_request (tp_submitted s); rs = of_route r es in
     map_of (snapshot m) r =
       (if rs = [] then None
        else Some \<lparr>rs_requests = of_nat (length rs),
          rs_errors = of_nat (length (filter (\<lambda>(r, us, ok). \<not> ok) rs)),
          rs_total_us = sum_list (map (\<lambda>(r, us, ok). us) rs),
          rs_min_us = Min (set (map (\<lambda>(r, us, ok). us) rs)),
          rs_max_us = Max (set (map (\<lambda>(r, us, ok). us) rs))\<rparr>) \<and>
     total_requests order m = of_nat (length (tp_submitted s)) \<and>
     total_errors order m = of_nat (length (filter (\<lambda>(r, us, ok). \<not> ok) es))"
proof -
  from served.reach_inv [OF assms(1)] obtain ran where inv: "tp_inv s"
    and m: "m = fold record_request (map job_request ran) []"
    and ran: "waiting_jobs s + mset ran = mset (tp_submitted s)" by (auto simp: served_inv_def)
  have "mset (map job_request ran) = mset (map job_request (tp_submitted s))"
    using ran joined_idle [OF inv assms(2)] by simp
  from request_stats_exact [OF this assms(3), of r] show ?thesis by (simp add: m Let_def)
qed

theorem served_requests_exact_witness:
  "map_of (snapshot (run_job job_lost_ex (run_job job_ok_ex []))) ''/metrics'' =
     Some \<lparr>rs_requests = 2, rs_errors = 1, rs_total_us = 400, rs_min_us = 100, rs_max_us = 300\<rparr> \<and>
   total_requests rev (run_job job_lost_ex (run_job job_ok_ex [])) = 2 \<and>
   total_errors rev (run_job job_lost_ex (run_job job_ok_ex [])) = 1"
proof -
  have "tp_dtor served_ex = Joined" "\<forall>m :: RequestStats. mset (rev m) = mset m" by (simp_all add: served_ex_def)
  from served_requests_exact [OF served_ex_reach this, of "''/metrics''"] show ?thesis
    by (simp add: served_ex_jobs of_route_def Let_def)
qed

end
