(* ===== verification/Std_Text.thy ===== *)
theory Std_Text
  imports Prelude
begin

text \<open>
  The text functions of the standard library that the user-space programs call, over HOL
  strings: decimal numbers (\<open>std::to_string\<close>, \<open>operator<<\<close> and \<open>%u\<close>), \<open>std::setw\<close> with
  \<open>std::left\<close>, C strings in character arrays (\<open>strnlen\<close>), \<open>inet_ntop\<close> for IPv4, and
  \<open>std::string::find\<close>. Decimal numbers and addresses are shown to be readable back.
\<close>

section \<open>Decimal numbers\<close>

definition digit :: "nat \<Rightarrow> char" where
  "digit d = char_of (48 + d)"

fun to_string :: "nat \<Rightarrow> string" where
  "to_string n = (if n < 10 then [digit n] else to_string (n div 10) @ [digit (n mod 10)])"

declare to_string.simps [simp del]

definition is_digit :: "char \<Rightarrow> bool" where
  "is_digit c \<longleftrightarrow> 48 \<le> (of_char c :: nat) \<and> (of_char c :: nat) \<le> 57"

definition dec_val :: "string \<Rightarrow> nat" where
  "dec_val s = fold (\<lambda>c n. 10 * n + (of_char c - 48)) s 0"

lemma of_char_digit [simp]: "d < 10 \<Longrightarrow> of_char (digit d) = 48 + d"
  by (simp add: digit_def)

lemma is_digit_digit [simp]: "d < 10 \<Longrightarrow> is_digit (digit d)"
  by (simp add: is_digit_def)

lemma to_string_neq_Nil [simp]: "to_string n \<noteq> []"
  by (subst to_string.simps) simp

lemma to_string_digits: "c \<in> set (to_string n) \<Longrightarrow> is_digit c"
  by (induction n rule: to_string.induct) (subst (asm) (2) to_string.simps, auto split: if_splits)

lemma dec_val_to_string [simp]: "dec_val (to_string n) = n"
proof (induction n rule: to_string.induct)
  case (1 n)
  show ?case
  proof (cases "n < 10")
    case False
    with 1 have "dec_val (to_string (n div 10)) = n div 10" by simp
    with False show ?thesis by (subst to_string.simps) (simp add: dec_val_def)
  qed (subst to_string.simps, simp add: dec_val_def)
qed

lemma to_string_inj [simp]: "to_string m = to_string n \<longleftrightarrow> m = n"
  by (metis dec_val_to_string)

lemma not_digit_notin_to_string: "\<not> is_digit c \<Longrightarrow> c \<notin> set (to_string n)"
  using to_string_digits by blast

lemma separators_not_digits [simp]:
  "\<not> is_digit (CHR ''.'')" "\<not> is_digit (CHR '':'')" "\<not> is_digit (CHR '' '')"
  "\<not> is_digit (CHR 0x0D)" "\<not> is_digit (CHR 0x0A)" "\<not> is_digit (CHR 0x22)" "\<not> is_digit (CHR '','')"
  by (simp_all add: is_digit_def)

section \<open>Fields and character arrays\<close>

definition setw_left :: "nat \<Rightarrow> string \<Rightarrow> string" where
  "setw_left w s = s @ replicate (w - length s) (CHR '' '')"

text \<open>\<open>std::string(buf, strnlen(buf, n))\<close>: the characters before the first NUL, at most \<open>n\<close>.\<close>

definition strn :: "nat \<Rightarrow> char list \<Rightarrow> string" where
  "strn n buf = takeWhile (\<lambda>c. c \<noteq> CHR 0x00) (take n buf)"

lemma length_strn: "length (strn n buf) \<le> n"
  using length_takeWhile_le [of _ "take n buf"] by (simp add: strn_def order.trans)

section \<open>Splitting at a separator\<close>

definition cut :: "char \<Rightarrow> string \<Rightarrow> string \<times> string" where
  "cut c s = (takeWhile (\<lambda>x. x \<noteq> c) s, tl (dropWhile (\<lambda>x. x \<noteq> c) s))"

lemma cut_append [simp]: "c \<notin> set xs \<Longrightarrow> cut c (xs @ c # ys) = (xs, ys)"
proof -
  assume "c \<notin> set xs"
  then have "\<And>x. x \<in> set xs \<Longrightarrow> x \<noteq> c" by auto
  then show ?thesis by (simp add: cut_def takeWhile_append2 dropWhile_append2)
qed

section \<open>IPv4 addresses\<close>

text \<open>
  \<open>inet_ntop(AF_INET, &ip, ...)\<close> prints the four bytes of \<open>ip\<close> in memory order, so on a
  little-endian machine the least significant byte comes first.
\<close>

definition octet :: "u32 \<Rightarrow> nat \<Rightarrow> nat" where
  "octet ip i = unat ip div 256 ^ i mod 256"

definition inet_ntop :: "u32 \<Rightarrow> string" where
  "inet_ntop ip = to_string (octet ip 0) @ ''.'' @ to_string (octet ip 1) @ ''.'' @
     to_string (octet ip 2) @ ''.'' @ to_string (octet ip 3)"

definition inet_pton :: "string \<Rightarrow> u32" where
  "inet_pton s =
     (let (a, s1) = cut (CHR ''.'') s; (b, s2) = cut (CHR ''.'') s1; (c, d) = cut (CHR ''.'') s2
      in of_nat (dec_val a + 256 * dec_val b + 65536 * dec_val c + 16777216 * dec_val d))"

lemma octets: "octet ip 0 + 256 * octet ip 1 + 65536 * octet ip 2 + 16777216 * octet ip 3 = unat ip"
proof -
  define a where "a = unat ip div 256"
  define b where "b = a div 256"
  define c where "c = b div 256"
  have "unat ip < 2 ^ 32" using unsigned_less [of ip] by simp
  then have c: "c < 256" by (simp add: a_def b_def c_def div_mult2_eq [symmetric] div_less_iff_less_mult)
  have "unat ip = 256 * a + unat ip mod 256" "a = 256 * b + a mod 256" "b = 256 * c + b mod 256"
    by (simp_all add: a_def b_def c_def)
  moreover have "octet ip 0 = unat ip mod 256" "octet ip 1 = a mod 256" "octet ip 2 = b mod 256"
    "octet ip 3 = c"
    using c by (simp_all add: octet_def a_def b_def c_def div_mult2_eq [symmetric])
  ultimately show ?thesis by linarith
qed

lemma inet_pton_ntop [simp]: "inet_pton (inet_ntop ip) = ip"
proof -
  have "inet_pton (inet_ntop ip) =
      of_nat (octet ip 0 + 256 * octet ip 1 + 65536 * octet ip 2 + 16777216 * octet ip 3)"
    by (simp add: inet_pton_def inet_ntop_def not_digit_notin_to_string)
  then show ?thesis by (simp only: octets) simp
qed

lemma inet_ntop_chars: "c \<in> set (inet_ntop ip) \<Longrightarrow> is_digit c \<or> c = CHR ''.''"
  by (auto simp: inet_ntop_def dest: to_string_digits)

section \<open>Searching a string\<close>

text \<open>\<open>s.find(c, pos)\<close>; \<open>None\<close> is \<open>npos\<close>.\<close>

fun find_from :: "nat \<Rightarrow> char \<Rightarrow> string \<Rightarrow> nat option" where
  "find_from i c [] = None"
| "find_from i c (x # xs) = (if x = c then Some i else find_from (Suc i) c xs)"

definition string_find :: "char \<Rightarrow> string \<Rightarrow> nat \<Rightarrow> nat option" where
  "string_find c s pos = find_from pos c (drop pos s)"

text \<open>\<open>s.find(t) != npos\<close>.\<close>

fun contains :: "string \<Rightarrow> string \<Rightarrow> bool" where
  "contains t [] = (t = [])"
| "contains t (x # xs) = (take (length t) (x # xs) = t \<or> contains t xs)"

definition substr :: "string \<Rightarrow> nat \<Rightarrow> nat \<Rightarrow> string" where
  "substr s pos n = take n (drop pos s)"

lemma find_from_notin: "c \<notin> set s \<Longrightarrow> find_from i c s = None"
  by (induction s arbitrary: i) auto

lemma find_from_first: "c \<notin> set xs \<Longrightarrow> find_from i c (xs @ c # ys) = Some (i + length xs)"
  by (induction xs arbitrary: i) auto

lemma find_from_None: "find_from i c s = None \<longleftrightarrow> c \<notin> set s"
  by (induction s arbitrary: i) auto

lemma find_from_Some:
  "find_from i c s = Some j \<Longrightarrow> \<exists>xs ys. s = xs @ c # ys \<and> c \<notin> set xs \<and> j = i + length xs"
proof (induction s arbitrary: i)
  case (Cons x s)
  show ?case
  proof (cases "x = c")
    case False
    with Cons obtain xs ys where "s = xs @ c # ys" "c \<notin> set xs" "j = Suc i + length xs" by fastforce
    with False have "x # s = (x # xs) @ c # ys \<and> c \<notin> set (x # xs) \<and> j = i + length (x # xs)" by simp
    then show ?thesis by blast
  qed (use Cons in force)
qed simp

lemma contains_append: "contains t (xs @ t @ ys)"
proof (induction xs)
  case Nil show ?case by (cases t; cases ys) auto
qed simp

lemma contains_iff: "contains t s \<longleftrightarrow> (\<exists>xs ys. s = xs @ t @ ys)"
proof
  show "contains t s \<Longrightarrow> \<exists>xs ys. s = xs @ t @ ys"
  proof (induction s)
    case (Cons x s)
    show ?case
    proof (cases "take (length t) (x # s) = t")
      case True
      then have "x # s = [] @ t @ drop (length t) (x # s)" by (metis append_Nil append_take_drop_id)
      then show ?thesis by blast
    next
      case False
      with Cons obtain xs ys where "s = xs @ t @ ys" by auto
      then have "x # s = (x # xs) @ t @ ys" by simp
      then show ?thesis by blast
    qed
  qed simp
qed (auto simp: contains_append)

section \<open>Signed numbers and lines of text\<close>

definition int_string :: "int \<Rightarrow> string" where
  "int_string i = (if i < 0 then ''-'' @ to_string (nat (- i)) else to_string (nat i))"

lemma int_string_chars: "c \<in> set (int_string i) \<Longrightarrow> is_digit c \<or> c = CHR ''-''"
  by (auto simp: int_string_def dest: to_string_digits split: if_splits)

abbreviation LF :: char where
  "LF \<equiv> CHR 0x0A"

lemma length_snd_cut: "s \<noteq> [] \<Longrightarrow> length (snd (cut c s)) < length s"
  using length_dropWhile_le [of "\<lambda>x. x \<noteq> c" s] by (cases s) (auto simp: cut_def)

function text_lines :: "string \<Rightarrow> string list" where
  "text_lines s = (if s = [] then [] else let (l, r) = cut LF s in l # text_lines r)"
  by pat_completeness auto
termination
proof (relation "measure length")
  fix s x l r
  assume "s \<noteq> []" "x = cut LF s" "(l, r) = x"
  then show "(r, s) \<in> measure length" using length_snd_cut [of s LF] by (metis in_measure snd_conv)
qed simp

declare text_lines.simps [simp del]

lemma text_lines_Nil [simp]: "text_lines [] = []"
  by (subst text_lines.simps) simp

lemma text_lines_Cons: "LF \<notin> set l \<Longrightarrow> text_lines (l @ LF # s) = l # text_lines s"
  by (subst text_lines.simps) simp

lemma text_lines_concat:
  "list_all (\<lambda>l. LF \<notin> set l) ls \<Longrightarrow> text_lines (concat (map (\<lambda>l. l @ [LF]) ls)) = ls"
  by (induction ls) (simp_all add: text_lines_Cons)

end
