(* ===== verification/Stats_Reporter.thy ===== *)
theory Stats_Reporter
  imports Events Std_Text Aggregation
begin

text \<open>
  \<open>src/src/stats_reporter.h\<close>: TCP events aggregated per connection, and the table of the
  connections with the most traffic. \<open>StatsReporter\<close> is the map \<open>stats_\<close>; each method runs
  under \<open>mu_\<close> and is one function. Iteration over the map takes the iteration order as an
  argument; \<open>std::sort\<close>, which does not fix the order of equal elements, is an argument of
  \<open>print_top\<close> with its documented result as a hypothesis.
\<close>

section \<open>Definitions\<close>

record ConnectionKey =
  k_src_ip :: u32
  k_dst_ip :: u32
  k_src_port :: u16
  k_dst_port :: u16
  k_pid :: u32

definition ConnectionKey_eq :: "ConnectionKey \<Rightarrow> ConnectionKey \<Rightarrow> bool" where
  "ConnectionKey_eq a b \<longleftrightarrow> k_src_ip a = k_src_ip b \<and> k_dst_ip a = k_dst_ip b \<and>
     k_src_port a = k_src_port b \<and> k_dst_port a = k_dst_port b \<and> k_pid a = k_pid b"

text \<open>The hash of a key; what \<open>std::hash\<close> is for the two integer types is left to the library.\<close>

definition hash_mix :: "u64 \<Rightarrow> u64 \<Rightarrow> u64" where
  "hash_mix v h = h XOR (v + 0x9e3779b9 + push_bit 6 h + drop_bit 2 h)"

definition ConnectionKey_hash :: "(u32 \<Rightarrow> u64) \<Rightarrow> (u16 \<Rightarrow> u64) \<Rightarrow> ConnectionKey \<Rightarrow> u64" where
  "ConnectionKey_hash hash32 hash16 k =
     hash_mix (hash32 (k_pid k)) (hash_mix (hash16 (k_dst_port k)) (hash_mix (hash16 (k_src_port k))
       (hash_mix (hash32 (k_dst_ip k)) (hash_mix (hash32 (k_src_ip k)) 0))))"

record ConnectionStats =
  cs_comm :: string
  cs_uid :: u32
  cs_bytes_tx :: u64
  cs_bytes_rx :: u64
  cs_connects :: u64
  cs_timestamp :: u64

definition ConnectionStats_init :: ConnectionStats where
  "ConnectionStats_init = \<lparr>cs_comm = '''', cs_uid = 0, cs_bytes_tx = 0, cs_bytes_rx = 0,
     cs_connects = 0, cs_timestamp = 0\<rparr>"

type_synonym StatsReporter = "(ConnectionKey \<times> ConnectionStats) list"

definition event_key :: "tcp_event \<Rightarrow> ConnectionKey" where
  "event_key ev = \<lparr>k_src_ip = te_src_ip ev, k_dst_ip = te_dst_ip ev, k_src_port = te_src_port ev,
     k_dst_port = te_dst_port ev, k_pid = te_pid ev\<rparr>"

definition update_stats :: "tcp_event \<Rightarrow> ConnectionStats \<Rightarrow> ConnectionStats" where
  "update_stats ev s0 =
     (let s = s0\<lparr>cs_comm := strn 16 (te_comm ev), cs_uid := te_uid ev, cs_timestamp := te_timestamp_ns ev\<rparr>
      in if te_action ev = TCP_ACTION_CONNECT then s\<lparr>cs_connects := cs_connects s + 1\<rparr>
         else s\<lparr>cs_bytes_tx := cs_bytes_tx s + te_bytes_tx ev, cs_bytes_rx := cs_bytes_rx s + te_bytes_rx ev\<rparr>)"

definition record_event :: "tcp_event \<Rightarrow> StatsReporter \<Rightarrow> StatsReporter" where
  "record_event ev r = upsert (event_key ev) ConnectionStats_init (update_stats ev) r"

definition connection_count :: "StatsReporter \<Rightarrow> nat" where
  "connection_count r = length r"

definition reporter_clear :: "StatsReporter \<Rightarrow> StatsReporter" where
  "reporter_clear r = []"

text \<open>\<open>for_each\<close> passes every entry to the callback, which updates the caller's state.\<close>

definition for_each :: "(StatsReporter \<Rightarrow> StatsReporter) \<Rightarrow> (ConnectionKey \<Rightarrow> ConnectionStats \<Rightarrow> 'a \<Rightarrow> 'a) \<Rightarrow>
    StatsReporter \<Rightarrow> 'a \<Rightarrow> 'a" where
  "for_each order fn r = fold (\<lambda>(key, st). fn key st) (order r)"

definition ip_port :: "u32 \<Rightarrow> u16 \<Rightarrow> string" where
  "ip_port ip port = inet_ntop ip @ '':'' @ to_string (unat port)"

definition human_bytes :: "u64 \<Rightarrow> string" where
  "human_bytes b =
     (if b < 1024 then to_string (unat b) @ ''B''
      else if b < 1024 * 1024 then to_string (unat (b div 1024)) @ ''K''
      else to_string (unat (b div (1024 * 1024))) @ ''M'')"

definition traffic :: "ConnectionKey \<times> ConnectionStats \<Rightarrow> u64" where
  "traffic x = cs_bytes_tx (snd x) + cs_bytes_rx (snd x)"

text \<open>The comparison passed to \<open>std::sort\<close>.\<close>

definition more_traffic :: "ConnectionKey \<times> ConnectionStats \<Rightarrow> ConnectionKey \<times> ConnectionStats \<Rightarrow> bool" where
  "more_traffic a b \<longleftrightarrow> traffic b < traffic a"

text \<open>The heading: clear screen, a double rule of 55 characters (UTF-8), the title, the columns.\<close>

definition double_rule :: string where
  "double_rule = concat (replicate 55 [CHR 0xE2, CHR 0x95, CHR 0x90]) @ [CHR 0x0A]"

definition top_header :: string where
  "top_header =
     [CHR 0x1B] @ ''[2J'' @ [CHR 0x1B] @ ''[H'' @ double_rule @
     ''  eBPF System Monitor '' @ [CHR 0xE2, CHR 0x80, CHR 0x94] @ '' Top TCP Connections'' @ [CHR 0x0A] @
     double_rule @
     setw_left 6 ''PID'' @ setw_left 16 ''COMM'' @ setw_left 20 ''SRC'' @ setw_left 20 ''DST'' @
     setw_left 10 ''TX'' @ setw_left 10 ''RX'' @ [CHR 0x0A] @ replicate 80 (CHR ''='') @ [CHR 0x0A]"

fun top_row :: "ConnectionKey \<times> ConnectionStats \<Rightarrow> string" where
  "top_row (k, s) =
     setw_left 6 (to_string (unat (k_pid k))) @ setw_left 16 (cs_comm s) @
     setw_left 20 (ip_port (k_src_ip k) (k_src_port k)) @
     setw_left 20 (ip_port (k_dst_ip k) (k_dst_port k)) @
     setw_left 10 (human_bytes (cs_bytes_tx s)) @ setw_left 10 (human_bytes (cs_bytes_rx s)) @ [CHR 0x0A]"

fun print_rows :: "int \<Rightarrow> int \<Rightarrow> (ConnectionKey \<times> ConnectionStats) list \<Rightarrow> string" where
  "print_rows n shown [] = []"
| "print_rows n shown (x # items) =
     (if shown \<ge> n then [] else top_row x @ print_rows n (shown + 1) items)"

type_synonym sorter = "(ConnectionKey \<times> ConnectionStats \<Rightarrow> ConnectionKey \<times> ConnectionStats \<Rightarrow> bool) \<Rightarrow>
  (ConnectionKey \<times> ConnectionStats) list \<Rightarrow> (ConnectionKey \<times> ConnectionStats) list"

definition print_top :: "sorter \<Rightarrow> (StatsReporter \<Rightarrow> StatsReporter) \<Rightarrow> int \<Rightarrow> StatsReporter \<Rightarrow> string" where
  "print_top std_sort order n r =
     (let items = std_sort more_traffic (order r) in top_header @ print_rows n 0 items)"

section \<open>Lemmas\<close>

text \<open>
  What \<open>std::unordered_map\<close> asks of the key: \<open>operator==\<close> is equality of keys, so the map
  may be an association list, and equal keys have equal hashes.
\<close>

lemma ConnectionKey_eq_iff [simp]: "ConnectionKey_eq a b \<longleftrightarrow> a = b"
  by (auto simp: ConnectionKey_eq_def)

lemma equal_keys_equal_hashes:
  "ConnectionKey_eq a b \<Longrightarrow> ConnectionKey_hash hash32 hash16 a = ConnectionKey_hash hash32 hash16 b"
  by simp

interpretation reporter: aggregator event_key ConnectionStats_init update_stats record_event
  using aggregator_upsert [of event_key ConnectionStats_init update_stats]
  by (simp add: record_event_def [abs_def])

text \<open>One connection's statistics after a sequence of its events.\<close>

lemma fold_update_stats:
  "fold update_stats es s =
     s\<lparr>cs_comm := (if es = [] then cs_comm s else strn 16 (te_comm (last es))),
       cs_uid := (if es = [] then cs_uid s else te_uid (last es)),
       cs_timestamp := (if es = [] then cs_timestamp s else te_timestamp_ns (last es)),
       cs_connects := cs_connects s + of_nat (length (filter (\<lambda>e. te_action e = TCP_ACTION_CONNECT) es)),
       cs_bytes_tx := cs_bytes_tx s + sum_list (map te_bytes_tx (filter (\<lambda>e. te_action e \<noteq> TCP_ACTION_CONNECT) es)),
       cs_bytes_rx := cs_bytes_rx s + sum_list (map te_bytes_rx (filter (\<lambda>e. te_action e \<noteq> TCP_ACTION_CONNECT) es))\<rparr>"
  by (induction es arbitrary: s) (auto simp: update_stats_def Let_def intro!: ConnectionStats.equality)

lemma print_rows_take: "print_rows n shown items = concat (map top_row (take (nat (n - shown)) items))"
proof (induction n shown items rule: print_rows.induct)
  case (2 n shown x items)
  show ?case
  proof (cases "shown \<ge> n")
    case False
    then have "nat (n - shown) = Suc (nat (n - (shown + 1)))" by simp
    with False 2 show ?thesis by simp
  qed simp
qed simp

lemma sorted_wrt_take_drop:
  "sorted_wrt P xs \<Longrightarrow> x \<in> set (take n xs) \<Longrightarrow> y \<in> set (drop n xs) \<Longrightarrow> P x y"
  by (metis append_take_drop_id sorted_wrt_append)

section \<open>Properties\<close>

definition of_key :: "ConnectionKey \<Rightarrow> tcp_event list \<Rightarrow> tcp_event list" where
  "of_key k es = filter (\<lambda>e. event_key e = k) es"

text \<open>
  C18. Aggregation is exact. After any sequence of recorded events, a connection has an entry
  exactly if one of its events was recorded; its connect count is the number of its connect
  events, its byte counts are the sums over its other events (modulo \<open>2 ^ 64\<close>), and its
  command, user and time are those of its last event. There is one entry per connection.
\<close>

theorem reporter_exact:
  "map_of (fold record_event es []) k =
     (if of_key k es = [] then None
      else Some \<lparr>cs_comm = strn 16 (te_comm (last (of_key k es))), cs_uid = te_uid (last (of_key k es)),
        cs_bytes_tx = sum_list (map te_bytes_tx (filter (\<lambda>e. te_action e \<noteq> TCP_ACTION_CONNECT) (of_key k es))),
        cs_bytes_rx = sum_list (map te_bytes_rx (filter (\<lambda>e. te_action e \<noteq> TCP_ACTION_CONNECT) (of_key k es))),
        cs_connects = of_nat (length (filter (\<lambda>e. te_action e = TCP_ACTION_CONNECT) (of_key k es))),
        cs_timestamp = te_timestamp_ns (last (of_key k es))\<rparr>) \<and>
   distinct (map fst (fold record_event es [])) \<and>
   connection_count (fold record_event es []) = card (event_key ` set es)"
proof -
  have "k \<in> event_key ` set es \<longleftrightarrow> of_key k es \<noteq> []"
    by (auto simp: of_key_def filter_empty_conv)
  then show ?thesis
    using reporter.runs_distinct [of "[]" es] reporter.runs_count [of es] reporter.runs_lookup [of es "[]" k]
    by (simp add: connection_count_def fold_update_stats ConnectionStats_init_def of_key_def)
qed

text \<open>
  C31. The table shows the busiest connections. For any iteration order of the map and any
  sorting routine that meets the contract of \<open>std::sort\<close>, \<open>print_top(n)\<close> prints the heading
  and one row for each of \<open>min(n, size)\<close> different connections, in descending order of
  traffic, and no connection left out has more traffic than one that is shown.
\<close>

theorem print_top_correct:
  assumes order: "mset (order r) = mset r"
    and perm: "mset (std_sort more_traffic (order r)) = mset (order r)"
    and sorted: "sorted_wrt (\<lambda>a b. \<not> more_traffic b a) (std_sort more_traffic (order r))"
    and wf: "distinct (map fst r)"
  shows "\<exists>top. print_top std_sort order n r = top_header @ concat (map top_row top) \<and>
     length top = min (nat n) (connection_count r) \<and> set top \<subseteq> set r \<and> distinct (map fst top) \<and>
     sorted_wrt (\<lambda>a b. traffic b \<le> traffic a) top \<and>
     (\<forall>x\<in>set top. \<forall>y\<in>set r - set top. traffic y \<le> traffic x)"
proof -
  define items where "items = std_sort more_traffic (order r)"
  have m: "mset items = mset r" using order perm by (simp add: items_def)
  have sorted': "sorted_wrt (\<lambda>a b. traffic b \<le> traffic a) items"
    using sorted by (simp add: items_def more_traffic_def not_less)
  have set: "set items = set r" using m by (rule mset_eq_setD)
  have len: "length items = length r" using m by (rule mset_eq_length)
  have "mset (map fst items) = mset (map fst r)" using m by simp
  then have "distinct (map fst items)" using wf mset_eq_imp_distinct_iff by blast
  then have dist: "distinct (map fst (take (nat n) items))"
    by (metis distinct_take take_map)
  let ?top = "take (nat n) items"
  have "set items = set ?top \<union> set (drop (nat n) items)" by (metis append_take_drop_id set_append)
  then have "\<forall>x\<in>set ?top. \<forall>y\<in>set r - set ?top. traffic y \<le> traffic x"
    using sorted_wrt_take_drop [OF sorted'] set by blast
  moreover have "print_top std_sort order n r = top_header @ concat (map top_row ?top)"
    by (simp add: print_top_def Let_def print_rows_take items_def)
  moreover have "sorted_wrt (\<lambda>a b. traffic b \<le> traffic a) ?top"
    using sorted' by (rule sorted_wrt_take)
  ultimately show ?thesis
    using dist len set set_take_subset [of "nat n" items]
    by (intro exI [of _ ?top]) (simp add: connection_count_def min.commute)
qed

text \<open>A sorting routine, and a reporter with three connections.\<close>

fun insert_by :: "('a \<Rightarrow> 'a \<Rightarrow> bool) \<Rightarrow> 'a \<Rightarrow> 'a list \<Rightarrow> 'a list" where
  "insert_by lt x [] = [x]"
| "insert_by lt x (y # ys) = (if lt y x then y # insert_by lt x ys else x # y # ys)"

definition insertion_sort :: "('a \<Rightarrow> 'a \<Rightarrow> bool) \<Rightarrow> 'a list \<Rightarrow> 'a list" where
  "insertion_sort lt xs = foldr (insert_by lt) xs []"

definition event_ex :: "u32 \<Rightarrow> u8 \<Rightarrow> u64 \<Rightarrow> tcp_event" where
  "event_ex pid action tx = tcp_event_zero\<lparr>te_pid := pid, te_comm := ''curl'' @ replicate 12 (CHR 0x00),
     te_src_ip := 0x0100007F, te_dst_ip := 0x08080808, te_src_port := 54321, te_dst_port := 443,
     te_action := action, te_bytes_tx := tx\<rparr>"

definition reporter_ex :: StatsReporter where
  "reporter_ex = fold record_event
     [event_ex 1 0 0, event_ex 2 0 0, event_ex 1 1 100, event_ex 3 1 5000, event_ex 2 1 700] []"

theorem print_top_correct_witness:
  "\<exists>top. print_top insertion_sort rev 2 reporter_ex = top_header @ concat (map top_row top) \<and>
     length top = 2 \<and> set top \<subseteq> set reporter_ex \<and> sorted_wrt (\<lambda>a b. traffic b \<le> traffic a) top"
proof -
  have "mset (rev reporter_ex) = mset reporter_ex" by simp
  moreover have "mset (insertion_sort more_traffic (rev reporter_ex)) = mset (rev reporter_ex)"
    "sorted_wrt (\<lambda>a b. \<not> more_traffic b a) (insertion_sort more_traffic (rev reporter_ex))"
    "distinct (map fst reporter_ex)" "connection_count reporter_ex = 3"
    by code_simp+
  ultimately show ?thesis
    using print_top_correct [of rev reporter_ex insertion_sort 2] by auto
qed

text \<open>
  An endpoint is printed so that it can be read back: the address before the colon and
  the port after it are recovered from \<open>ip_port\<close>, so two different endpoints never look alike.
\<close>

theorem ip_port_roundtrip:
  "(let (a, p) = cut (CHR '':'') (ip_port ip port) in (inet_pton a, of_nat (dec_val p))) = (ip, port)"
proof -
  have "CHR '':'' \<notin> set (inet_ntop ip)" using inet_ntop_chars [of "CHR '':''" ip] by auto
  then show ?thesis by (simp add: ip_port_def)
qed

end
