(* ===== verification/Metrics.thy ===== *)
theory Metrics
  imports Stats_Reporter Packet_Processor
begin

text \<open>
  \<open>src/src/http/metrics.h\<close>: the Prometheus text exposition of the reporter and of the packet
  processor. The current time in milliseconds and the iteration order of the map are
  arguments. \<open>scrape\<close> is a reader of the format, written from its description: lines that
  begin with \<open>#\<close> and empty lines are skipped, the last two fields of a line are the value and
  the time, the rest is the series.
\<close>

section \<open>Definitions\<close>

definition emit_help :: "string \<Rightarrow> string \<Rightarrow> string" where
  "emit_help name help = ''# HELP '' @ name @ '' '' @ help @ [LF]"

definition emit_type :: "string \<Rightarrow> string \<Rightarrow> string" where
  "emit_type name type = ''# TYPE '' @ name @ '' '' @ type @ [LF]"

definition labels :: "ConnectionKey \<Rightarrow> ConnectionStats \<Rightarrow> string" where
  \<open>labels key st =
     ''{comm="'' @ cs_comm st @
     ''",pid="'' @ to_string (unat (k_pid key)) @
     ''",src="'' @ inet_ntop (k_src_ip key) @ '':'' @ to_string (unat (ntohs (k_src_port key))) @
     ''",dst="'' @ inet_ntop (k_dst_ip key) @ '':'' @ to_string (unat (ntohs (k_dst_port key))) @
     ''"}''\<close>

text \<open>The callback given to \<open>for_each\<close>, appending to the output.\<close>

definition emit_connection :: "int \<Rightarrow> ConnectionKey \<Rightarrow> ConnectionStats \<Rightarrow> string \<Rightarrow> string" where
  "emit_connection now_ms key st out = out @
     ''ebpf_connection_bytes_tx_total'' @ labels key st @ '' '' @ to_string (unat (cs_bytes_tx st)) @ '' '' @
       int_string now_ms @ [LF] @
     ''ebpf_connection_bytes_rx_total'' @ labels key st @ '' '' @ to_string (unat (cs_bytes_rx st)) @ '' '' @
       int_string now_ms @ [LF] @
     ''ebpf_connection_connects_total'' @ labels key st @ '' '' @ to_string (unat (cs_connects st)) @ '' '' @
       int_string now_ms @ [LF]"

text \<open>What \<open>from_reporter\<close> writes before the connections, \<open>n\<close> being their number.\<close>

definition reporter_heading :: "int \<Rightarrow> nat \<Rightarrow> string" where
  "reporter_heading now_ms n =
     emit_help ''ebpf_active_connections'' ''Number of tracked TCP connections'' @
     emit_type ''ebpf_active_connections'' ''gauge'' @
     ''ebpf_active_connections '' @ to_string n @ '' '' @ int_string now_ms @ [LF, LF] @
     emit_help ''ebpf_connection_bytes_tx_total'' ''Bytes transmitted per connection'' @
     emit_type ''ebpf_connection_bytes_tx_total'' ''counter'' @
     emit_help ''ebpf_connection_bytes_rx_total'' ''Bytes received per connection'' @
     emit_type ''ebpf_connection_bytes_rx_total'' ''counter'' @
     emit_help ''ebpf_connection_connects_total'' ''TCP connect events per connection'' @
     emit_type ''ebpf_connection_connects_total'' ''counter''"

definition from_reporter :: "int \<Rightarrow> (StatsReporter \<Rightarrow> StatsReporter) \<Rightarrow> StatsReporter \<Rightarrow> string" where
  "from_reporter now_ms order reporter =
     for_each order (emit_connection now_ms) reporter (reporter_heading now_ms (connection_count reporter))"

text \<open>One metric of \<open>from_processor\<close>: help, type, sample and an empty line.\<close>

definition emit_metric :: "int \<Rightarrow> string \<Rightarrow> string \<Rightarrow> string \<Rightarrow> u64 \<Rightarrow> string" where
  "emit_metric now_ms name help type v =
     emit_help name help @ emit_type name type @ name @ '' '' @ to_string (unat v) @ '' '' @ int_string now_ms @ [LF, LF]"

definition from_processor :: "int \<Rightarrow> 'w BatchProcessor \<Rightarrow> string" where
  "from_processor now_ms proc =
     (let s = bp_stats proc in
      emit_metric now_ms ''dpdk_sim_packets_processed_total'' ''Total packets processed'' ''counter'' (pkts_processed s) @
      emit_metric now_ms ''dpdk_sim_packets_dropped_total'' ''Total packets dropped (ring full)'' ''counter''
        (pkts_dropped s) @
      emit_metric now_ms ''dpdk_sim_bytes_processed_total'' ''Total bytes processed'' ''counter'' (bytes_processed s) @
      emit_metric now_ms ''dpdk_sim_pool_available'' ''Free objects in memory pool'' ''gauge'' (available (bp_pool proc)))"

section \<open>Reading the exposition format\<close>

definition read_sample :: "string \<Rightarrow> string \<times> nat" where
  "read_sample l =
     (let (t, r) = cut (CHR '' '') (rev l); (v, series) = cut (CHR '' '') r in (rev series, dec_val (rev v)))"

definition is_sample :: "string \<Rightarrow> bool" where
  "is_sample l \<longleftrightarrow> l \<noteq> [] \<and> hd l \<noteq> CHR ''#''"

definition scrape :: "string \<Rightarrow> (string \<times> nat) list" where
  "scrape s = map read_sample (filter is_sample (text_lines s))"

definition sample_line :: "int \<Rightarrow> string \<Rightarrow> nat \<Rightarrow> string" where
  "sample_line now_ms series v = series @ '' '' @ to_string v @ '' '' @ int_string now_ms"

lemma separators_notin [simp]:
  "CHR '' '' \<notin> set (int_string i)" "LF \<notin> set (int_string i)"
  "CHR '' '' \<notin> set (to_string n)" "LF \<notin> set (to_string n)" "LF \<notin> set (inet_ntop ip)"
  using int_string_chars [of "CHR '' ''" i] int_string_chars [of LF i] inet_ntop_chars [of LF ip]
  by (auto simp: not_digit_notin_to_string)

lemma read_sample_line: "read_sample (sample_line now_ms series v) = (series, v)"
proof -
  have "rev (sample_line now_ms series v) =
      rev (int_string now_ms) @ CHR '' '' # rev (to_string v) @ CHR '' '' # rev series"
    by (simp add: sample_line_def)
  then show ?thesis by (simp add: read_sample_def)
qed

lemma scrape_lines:
  "list_all (\<lambda>l. LF \<notin> set l) ls \<Longrightarrow>
     scrape (concat (map (\<lambda>l. l @ [LF]) ls)) = map read_sample (filter is_sample ls)"
  by (simp add: scrape_def text_lines_concat)

lemma is_sample_line [simp]: "series \<noteq> [] \<Longrightarrow> is_sample (sample_line now_ms series v) \<longleftrightarrow> hd series \<noteq> CHR ''#''"
  by (simp add: is_sample_def sample_line_def)

lemma is_sample_simps [simp]: "\<not> is_sample []" "\<not> is_sample (CHR ''#'' # l)"
  by (simp_all add: is_sample_def)

definition connection_lines :: "int \<Rightarrow> ConnectionKey \<times> ConnectionStats \<Rightarrow> string list" where
  "connection_lines now_ms = (\<lambda>(key, st).
     [sample_line now_ms (''ebpf_connection_bytes_tx_total'' @ labels key st) (unat (cs_bytes_tx st)),
      sample_line now_ms (''ebpf_connection_bytes_rx_total'' @ labels key st) (unat (cs_bytes_rx st)),
      sample_line now_ms (''ebpf_connection_connects_total'' @ labels key st) (unat (cs_connects st))])"

definition header_lines :: "int \<Rightarrow> nat \<Rightarrow> string list" where
  "header_lines now_ms n =
     [''# HELP ebpf_active_connections Number of tracked TCP connections'',
      ''# TYPE ebpf_active_connections gauge'',
      sample_line now_ms ''ebpf_active_connections'' n,
      '''',
      ''# HELP ebpf_connection_bytes_tx_total Bytes transmitted per connection'',
      ''# TYPE ebpf_connection_bytes_tx_total counter'',
      ''# HELP ebpf_connection_bytes_rx_total Bytes received per connection'',
      ''# TYPE ebpf_connection_bytes_rx_total counter'',
      ''# HELP ebpf_connection_connects_total TCP connect events per connection'',
      ''# TYPE ebpf_connection_connects_total counter'']"

abbreviation unlines :: "string list \<Rightarrow> string" where
  "unlines ls \<equiv> concat (map (\<lambda>l. l @ [LF]) ls)"

lemma heading_lines: "reporter_heading now_ms n = unlines (header_lines now_ms n)"
  by (simp add: reporter_heading_def header_lines_def emit_help_def emit_type_def sample_line_def)

lemma emit_connections_lines:
  "fold (\<lambda>(key, st). emit_connection now_ms key st) xs out =
     out @ unlines (concat (map (connection_lines now_ms) xs))"
proof -
  have "(\<lambda>(key, st). emit_connection now_ms key st) = (\<lambda>x out. out @ unlines (connection_lines now_ms x))"
    by (auto simp: fun_eq_iff emit_connection_def connection_lines_def sample_line_def)
  moreover have "fold (\<lambda>x out. out @ unlines (connection_lines now_ms x)) xs out =
      out @ unlines (concat (map (connection_lines now_ms) xs))"
    by (induction xs arbitrary: out) simp_all
  ultimately show ?thesis by simp
qed

lemma from_reporter_lines:
  "from_reporter now_ms order r =
     unlines (header_lines now_ms (connection_count r) @ concat (map (connection_lines now_ms) (order r)))"
  by (simp add: from_reporter_def for_each_def heading_lines emit_connections_lines)

text \<open>What a reader is to find.\<close>

definition connection_samples :: "ConnectionKey \<times> ConnectionStats \<Rightarrow> (string \<times> nat) list" where
  "connection_samples = (\<lambda>(key, st).
     [(''ebpf_connection_bytes_tx_total'' @ labels key st, unat (cs_bytes_tx st)),
      (''ebpf_connection_bytes_rx_total'' @ labels key st, unat (cs_bytes_rx st)),
      (''ebpf_connection_connects_total'' @ labels key st, unat (cs_connects st))])"

lemma connection_lines_samples:
  "map read_sample (filter is_sample (concat (map (connection_lines now_ms) xs))) = concat (map connection_samples xs)"
  by (induction xs) (auto simp: connection_lines_def connection_samples_def read_sample_line)

lemma header_lines_samples:
  "map read_sample (filter is_sample (header_lines now_ms n)) = [(''ebpf_active_connections'', n)]"
proof -
  have "filter is_sample (header_lines now_ms n) = [sample_line now_ms ''ebpf_active_connections'' n]"
    by (simp add: header_lines_def)
  then show ?thesis by (simp add: read_sample_line)
qed

lemma connection_lines_no_LF:
  assumes "LF \<notin> set (cs_comm (snd x))"
  shows "list_all (\<lambda>l. LF \<notin> set l) (connection_lines now_ms x)"
proof (cases x)
  case (Pair key st)
  with assms show ?thesis by (simp add: connection_lines_def sample_line_def labels_def)
qed

lemma header_lines_no_LF: "list_all (\<lambda>l. LF \<notin> set l) (header_lines now_ms n)"
  by (simp add: header_lines_def sample_line_def)

lemma append_sep_eq:
  "c \<notin> set xs \<Longrightarrow> c \<notin> set xs' \<Longrightarrow> xs @ c # ys = xs' @ c # ys' \<longleftrightarrow> xs = xs' \<and> ys = ys'" for c :: char
proof (induction xs arbitrary: xs')
  case Nil then show ?case by (cases xs') auto
next
  case (Cons x xs) then show ?case by (cases xs') auto
qed

lemma inet_ntop_inj [simp]: "inet_ntop a = inet_ntop b \<longleftrightarrow> a = b"
  by (metis inet_pton_ntop)

lemma ntohs_inj [simp]: "ntohs a = ntohs b \<longleftrightarrow> a = b"
  unfolding ntohs_def by (metis bswap16_bswap16)

lemma quote_notin [simp]:
  "CHR 0x22 \<notin> set (to_string n)" "CHR 0x22 \<notin> set (inet_ntop ip)" "CHR '':'' \<notin> set (inet_ntop ip)"
  using inet_ntop_chars [of "CHR 0x22" ip] inet_ntop_chars [of "CHR '':''" ip]
  by (auto simp: not_digit_notin_to_string)

lemma emit_metric_lines:
  "emit_metric now_ms name help type v =
     unlines [''# HELP '' @ name @ '' '' @ help, ''# TYPE '' @ name @ '' '' @ type, sample_line now_ms name (unat v), '''']"
  by (simp add: emit_metric_def emit_help_def emit_type_def sample_line_def)

section \<open>Properties\<close>

lemma scrape_exposition:
  assumes "\<forall>x\<in>set xs. LF \<notin> set (cs_comm (snd x))"
  shows "scrape (fold (\<lambda>(key, st). emit_connection now_ms key st) xs (reporter_heading now_ms n)) =
     (''ebpf_active_connections'', n) # concat (map connection_samples xs)"
proof -
  let ?ls = "header_lines now_ms n @ concat (map (connection_lines now_ms) xs)"
  have "list_all (\<lambda>l. LF \<notin> set l) ?ls"
    using assms connection_lines_no_LF [of _ now_ms] header_lines_no_LF [of now_ms]
    by (fastforce simp: list_all_iff)
  then have "scrape (unlines ?ls) = map read_sample (filter is_sample ?ls)" by (rule scrape_lines)
  then show ?thesis
    by (simp add: heading_lines emit_connections_lines header_lines_samples connection_lines_samples)
qed



text \<open>
  Different connections are different series. If no command name contains a double quote,
  the label sets of two connections with different keys differ, so that their exported series
  are never merged.
\<close>

theorem labels_unique:
  assumes "CHR 0x22 \<notin> set (cs_comm st)" and "CHR 0x22 \<notin> set (cs_comm st')"
    and "key \<noteq> key'"
  shows "labels key st \<noteq> labels key' st'"
proof
  assume "labels key st = labels key' st'"
  then have "k_pid key = k_pid key' \<and> k_src_ip key = k_src_ip key' \<and>
      k_src_port key = k_src_port key' \<and> k_dst_ip key = k_dst_ip key' \<and> k_dst_port key = k_dst_port key'"
    by (simp add: labels_def append_sep_eq assms(1,2) flip: word_unat_eq_iff)
  then have "key = key'" by (auto intro: ConnectionKey.equality)
  with assms(3) show False by simp
qed

theorem labels_unique_witness:
  "labels (fst (reporter_ex ! 0)) (snd (reporter_ex ! 0)) \<noteq> labels (fst (reporter_ex ! 1)) (snd (reporter_ex ! 1))"
proof -
  have "CHR 0x22 \<notin> set (cs_comm (snd (reporter_ex ! 0)))" "CHR 0x22 \<notin> set (cs_comm (snd (reporter_ex ! 1)))"
    "fst (reporter_ex ! 0) \<noteq> fst (reporter_ex ! 1)"
    by code_simp+
  then show ?thesis by (rule labels_unique)
qed

text \<open>
  The processor's counters are exported as they are: a reader gets exactly the numbers of
  processed and dropped packets, of processed bytes, and of free blocks in the pool.
\<close>

theorem processor_metrics_scraped:
  "scrape (from_processor now_ms proc) =
     [(''dpdk_sim_packets_processed_total'', unat (pkts_processed (bp_stats proc))),
      (''dpdk_sim_packets_dropped_total'', unat (pkts_dropped (bp_stats proc))),
      (''dpdk_sim_bytes_processed_total'', unat (bytes_processed (bp_stats proc))),
      (''dpdk_sim_pool_available'', unat (available (bp_pool proc)))]"
proof -
  let ?m = "\<lambda>name help type v.
    [''# HELP '' @ name @ '' '' @ help, ''# TYPE '' @ name @ '' '' @ type, sample_line now_ms name (unat v), '''']"
  let ?ls = "?m ''dpdk_sim_packets_processed_total'' ''Total packets processed'' ''counter'' (pkts_processed (bp_stats proc)) @
    ?m ''dpdk_sim_packets_dropped_total'' ''Total packets dropped (ring full)'' ''counter'' (pkts_dropped (bp_stats proc)) @
    ?m ''dpdk_sim_bytes_processed_total'' ''Total bytes processed'' ''counter'' (bytes_processed (bp_stats proc)) @
    ?m ''dpdk_sim_pool_available'' ''Free objects in memory pool'' ''gauge'' (available (bp_pool proc))"
  have "from_processor now_ms proc = unlines ?ls"
    by (simp add: from_processor_def emit_metric_lines Let_def)
  moreover have "list_all (\<lambda>l. LF \<notin> set l) ?ls" by (simp add: sample_line_def)
  ultimately have "scrape (from_processor now_ms proc) = map read_sample (filter is_sample ?ls)"
    by (simp only: scrape_lines)
  also have "\<dots> = map read_sample
      [sample_line now_ms ''dpdk_sim_packets_processed_total'' (unat (pkts_processed (bp_stats proc))),
       sample_line now_ms ''dpdk_sim_packets_dropped_total'' (unat (pkts_dropped (bp_stats proc))),
       sample_line now_ms ''dpdk_sim_bytes_processed_total'' (unat (bytes_processed (bp_stats proc))),
       sample_line now_ms ''dpdk_sim_pool_available'' (unat (available (bp_pool proc)))]"
    by simp
  finally show ?thesis by (simp add: read_sample_line)
qed

end
