(* ===== verification/Http_Route.thy ===== *)
theory Http_Route
  imports Metrics
begin

text \<open>
  The route handler of \<open>src/src/monitor.cpp\<close>: the Prometheus text, the connections as JSON, and
  the health check. A reader for JSON arrays of flat objects, written from the grammar of
  JSON (a string member ends at the next quotation mark and may not contain a backslash or a
  control character), shows that the JSON text says what the reporter holds.
\<close>

section \<open>Definitions\<close>

definition connection_json :: "ConnectionKey \<Rightarrow> ConnectionStats \<Rightarrow> string" where
  \<open>connection_json k s =
     ''{"comm":"'' @ cs_comm s @
     ''","pid":'' @ to_string (unat (k_pid k)) @
     '',"src":"'' @ inet_ntop (k_src_ip k) @ '':'' @ to_string (unat (ntohs (k_src_port k))) @
     ''","dst":"'' @ inet_ntop (k_dst_ip k) @ '':'' @ to_string (unat (ntohs (k_dst_port k))) @
     ''","tx":'' @ to_string (unat (cs_bytes_tx s)) @
     '',"rx":'' @ to_string (unat (cs_bytes_rx s)) @
     '',"connects":'' @ to_string (unat (cs_connects s)) @ ''}''\<close>

text \<open>The callback: the output so far, and whether the next entry is the first.\<close>

definition emit_json :: "ConnectionKey \<Rightarrow> ConnectionStats \<Rightarrow> string \<times> bool \<Rightarrow> string \<times> bool" where
  "emit_json k s = (\<lambda>(out, first). (out @ (if \<not> first then '','' else '''') @ connection_json k s, False))"

definition http_route :: "int \<Rightarrow> (StatsReporter \<Rightarrow> StatsReporter) \<Rightarrow> StatsReporter \<Rightarrow> string \<Rightarrow> string" where
  \<open>http_route now_ms order reporter path =
     (if path = ''/metrics'' then from_reporter now_ms order reporter
      else if path = ''/connections'' then fst (for_each order emit_json reporter (''['', True)) @ '']''
      else if path = ''/health'' then ''{"status":"ok"}''
      else '''')\<close>

section \<open>Reading JSON\<close>

datatype json = JStr string | JNum nat

abbreviation QUOTE :: char where
  "QUOTE \<equiv> CHR 0x22"

definition json_safe :: "string \<Rightarrow> bool" where
  "json_safe x \<longleftrightarrow> list_all (\<lambda>c. c \<noteq> QUOTE \<and> c \<noteq> CHR 0x5C \<and> 32 \<le> (of_char c :: nat)) x"

fun expect :: "char \<Rightarrow> string \<Rightarrow> string option" where
  "expect c [] = None"
| "expect c (x # xs) = (if x = c then Some xs else None)"

definition read_string :: "string \<Rightarrow> (string \<times> string) option" where
  "read_string s =
     (case expect QUOTE s of
        None \<Rightarrow> None
      | Some r \<Rightarrow>
          (if QUOTE \<notin> set r then None
           else let (x, r') = cut QUOTE r in if json_safe x then Some (x, r') else None))"

definition read_number :: "string \<Rightarrow> (nat \<times> string) option" where
  "read_number s =
     (let d = takeWhile is_digit s in if d = [] then None else Some (dec_val d, dropWhile is_digit s))"

definition read_value :: "string \<Rightarrow> (json \<times> string) option" where
  "read_value s =
     (case read_string s of
        Some (x, r) \<Rightarrow> Some (JStr x, r)
      | None \<Rightarrow> (case read_number s of Some (n, r) \<Rightarrow> Some (JNum n, r) | None \<Rightarrow> None))"

definition read_member :: "string \<Rightarrow> ((string \<times> json) \<times> string) option" where
  "read_member s =
     (case read_string s of
        None \<Rightarrow> None
      | Some (name, r) \<Rightarrow>
          (case expect (CHR '':'') r of
             None \<Rightarrow> None
           | Some r' \<Rightarrow> (case read_value r' of None \<Rightarrow> None | Some (v, r'') \<Rightarrow> Some ((name, v), r''))))"

text \<open>
  A comma-separated list of what \<open>item\<close> reads, up to the closing character; the number bounds
  the items and the length of the text is always enough.
\<close>

fun read_list :: "(string \<Rightarrow> ('a \<times> string) option) \<Rightarrow> char \<Rightarrow> nat \<Rightarrow> string \<Rightarrow> ('a list \<times> string) option" where
  "read_list item close 0 s = None"
| "read_list item close (Suc n) s =
     (case item s of
        None \<Rightarrow> None
      | Some (x, r) \<Rightarrow>
          (case expect close r of
             Some r' \<Rightarrow> Some ([x], r')
           | None \<Rightarrow>
               (case expect (CHR '','') r of
                  None \<Rightarrow> None
                | Some r' \<Rightarrow>
                    (case read_list item close n r' of
                       None \<Rightarrow> None
                     | Some (xs, r'') \<Rightarrow> Some (x # xs, r'')))))"

definition read_object :: "string \<Rightarrow> ((string \<times> json) list \<times> string) option" where
  "read_object s = (case expect (CHR ''{'') s of None \<Rightarrow> None | Some r \<Rightarrow> read_list read_member (CHR ''}'') (length r) r)"

definition read_json :: "string \<Rightarrow> (string \<times> json) list list option" where
  "read_json s =
     (case expect (CHR ''['') s of
        None \<Rightarrow> None
      | Some r \<Rightarrow>
          (if r = '']'' then Some []
           else case read_list read_object (CHR '']'') (length r) r of
             Some (xs, []) \<Rightarrow> Some xs
           | _ \<Rightarrow> None))"

section \<open>Lemmas\<close>

fun print_value :: "json \<Rightarrow> string" where
  "print_value (JStr x) = QUOTE # x @ [QUOTE]"
| "print_value (JNum n) = to_string n"

definition print_member :: "string \<times> json \<Rightarrow> string" where
  "print_member = (\<lambda>(name, v). QUOTE # name @ QUOTE # CHR '':'' # print_value v)"

fun commas :: "string list \<Rightarrow> string" where
  "commas [] = []"
| "commas [x] = x"
| "commas (x # xs) = x @ CHR '','' # commas xs"

fun value_safe :: "json \<Rightarrow> bool" where
  "value_safe (JStr x) = json_safe x"
| "value_safe (JNum n) = True"

lemma json_safe_no_quote: "json_safe x \<Longrightarrow> QUOTE \<notin> set x"
  by (auto simp: json_safe_def list_all_iff)

lemma read_string_print: "json_safe x \<Longrightarrow> read_string (QUOTE # x @ QUOTE # r) = Some (x, r)"
  by (simp add: read_string_def json_safe_no_quote)

lemma read_number_print:
  assumes "\<not> is_digit c" shows "read_number (to_string n @ c # r) = Some (n, c # r)"
proof -
  have "\<And>x. x \<in> set (to_string n) \<Longrightarrow> is_digit x" by (rule to_string_digits)
  then show ?thesis using assms by (simp add: read_number_def takeWhile_append2 dropWhile_append2)
qed

lemma read_string_digit: "read_string (to_string n @ r) = None"
proof -
  obtain c s where "to_string n = c # s" by (cases "to_string n") auto
  moreover from this have "c \<noteq> QUOTE" using to_string_digits [of c n] by auto
  ultimately show ?thesis by (simp add: read_string_def)
qed

lemma read_value_print:
  "value_safe v \<Longrightarrow> \<not> is_digit c \<Longrightarrow> read_value (print_value v @ c # r) = Some (v, c # r)"
  by (cases v) (simp_all add: read_value_def read_string_print read_string_digit read_number_print)

lemma read_member_print:
  assumes "json_safe (fst m)" and "value_safe (snd m)" and "\<not> is_digit c"
  shows "read_member (print_member m @ c # r) = Some (m, c # r)"
  using assms read_string_print [of "fst m" "CHR '':'' # print_value (snd m) @ c # r"]
  by (cases m) (simp add: read_member_def print_member_def read_value_print)

lemma read_list_print:
  assumes "\<And>x r c. x \<in> set xs \<Longrightarrow> c \<in> {close, CHR '',''} \<Longrightarrow> item (pr x @ c # r) = Some (x, c # r)"
    and "close \<noteq> CHR '',''" and "xs \<noteq> []" and "length xs \<le> n"
  shows "read_list item close n (commas (map pr xs) @ close # r) = Some (xs, r)"
  using assms
proof (induction xs arbitrary: n)
  case (Cons x xs)
  then obtain m where n: "n = Suc m" by (cases n) auto
  show ?case
  proof (cases xs)
    case Nil
    with Cons.prems n show ?thesis by simp
  next
    case (Cons y ys)
    have "read_list item close m (commas (map pr xs) @ close # r) = Some (xs, r)"
      using Cons.IH Cons.prems Cons n by simp
    with Cons Cons.prems(1) [of x "CHR '',''"] \<open>close \<noteq> CHR '',''\<close> n show ?thesis by simp
  qed
qed simp

text \<open>What the entry of a connection says.\<close>

definition connection_members :: "ConnectionKey \<times> ConnectionStats \<Rightarrow> (string \<times> json) list" where
  "connection_members = (\<lambda>(k, s).
     [(''comm'', JStr (cs_comm s)), (''pid'', JNum (unat (k_pid k))),
      (''src'', JStr (inet_ntop (k_src_ip k) @ '':'' @ to_string (unat (ntohs (k_src_port k))))),
      (''dst'', JStr (inet_ntop (k_dst_ip k) @ '':'' @ to_string (unat (ntohs (k_dst_port k))))),
      (''tx'', JNum (unat (cs_bytes_tx s))), (''rx'', JNum (unat (cs_bytes_rx s))),
      (''connects'', JNum (unat (cs_connects s)))])"

definition print_object :: "(string \<times> json) list \<Rightarrow> string" where
  "print_object ms = CHR ''{'' # commas (map print_member ms) @ ''}''"

lemma connection_json_print: "connection_json k s = print_object (connection_members (k, s))"
  by (simp add: connection_json_def print_object_def connection_members_def print_member_def)

lemma digit_safe: "is_digit c \<Longrightarrow> c \<noteq> QUOTE \<and> c \<noteq> CHR 0x5C \<and> 32 \<le> (of_char c :: nat)"
  by (auto simp: is_digit_def)

lemma json_safe_to_string [simp]: "json_safe (to_string n)"
  using to_string_digits digit_safe by (fastforce simp: json_safe_def list_all_iff)

lemma json_safe_inet_ntop [simp]: "json_safe (inet_ntop ip)"
  unfolding json_safe_def list_all_iff using inet_ntop_chars [of _ ip] digit_safe by fastforce

lemma json_safe_append [simp]:
  "json_safe [] = True"
  "json_safe (c # xs) \<longleftrightarrow> c \<noteq> QUOTE \<and> c \<noteq> CHR 0x5C \<and> 32 \<le> (of_char c :: nat) \<and> json_safe xs"
  "json_safe (xs @ ys) \<longleftrightarrow> json_safe xs \<and> json_safe ys"
  by (auto simp: json_safe_def)

lemma commas_Cons: "commas (x # xs) = x @ concat (map (\<lambda>y. CHR '','' # y) xs)"
  by (induction xs arbitrary: x) auto

lemma commas_length: "[] \<notin> set xs \<Longrightarrow> length xs \<le> length (commas xs)"
proof (induction xs rule: commas.induct)
  case (2 x) then show ?case by (cases x) auto
next
  case (3 x y ys) then show ?case by (cases x) auto
qed simp

lemma print_nonempty [simp]: "print_member m \<noteq> []" "print_object ms \<noteq> []"
  by (simp_all add: print_member_def print_object_def split: prod.split)

lemma read_object_print:
  assumes "ms \<noteq> []" and "\<forall>m\<in>set ms. json_safe (fst m) \<and> value_safe (snd m)"
  shows "read_object (print_object ms @ r) = Some (ms, r)"
proof -
  have "length ms \<le> length (commas (map print_member ms))"
    using commas_length [of "map print_member ms"] by (simp add: image_iff del: print_nonempty) (metis print_nonempty(1))
  then have "read_list read_member (CHR ''}'') (length (commas (map print_member ms) @ CHR ''}'' # r))
      (commas (map print_member ms) @ CHR ''}'' # r) = Some (ms, r)"
    using assms by (intro read_list_print read_member_print) (auto simp: is_digit_def)
  then show ?thesis by (simp add: read_object_def print_object_def)
qed

lemma read_json_print:
  assumes "\<forall>ms\<in>set oss. ms \<noteq> [] \<and> (\<forall>m\<in>set ms. json_safe (fst m) \<and> value_safe (snd m))"
  shows "read_json (CHR ''['' # commas (map print_object oss) @ '']'') = Some oss"
proof (cases "oss = []")
  case False
  let ?r = "commas (map print_object oss) @ CHR '']'' # []"
  obtain ms rest where o: "oss = ms # rest" using False by (cases oss) auto
  have "?r \<noteq> '']''"
    by (cases rest) (simp_all add: o print_object_def)
  moreover have "length oss \<le> length ?r"
    using commas_length [of "map print_object oss"] by (simp add: image_iff del: print_nonempty) (metis le_SucI print_nonempty(2))
  then have "read_list read_object (CHR '']'') (length ?r) ?r = Some (oss, [])"
    using assms False by (intro read_list_print) (auto intro: read_object_print)
  ultimately show ?thesis by (simp add: read_json_def)
qed (simp add: read_json_def)

lemma for_each_json:
  "fst (for_each order emit_json r (''['', True)) = CHR ''['' # commas (map (print_object \<circ> connection_members) (order r))"
proof -
  have rest: "fold (\<lambda>(k, s). emit_json k s) xs (out, False) =
      (out @ concat (map (\<lambda>x. CHR '','' # print_object (connection_members x)) xs), False)" for xs out
    by (induction xs arbitrary: out) (auto simp: emit_json_def connection_json_print)
  show ?thesis
  proof (cases "order r")
    case (Cons x xs)
    then show ?thesis
      using rest [of xs]
      by (cases x) (simp add: for_each_def emit_json_def connection_json_print commas_Cons comp_def)
  qed (simp add: for_each_def)
qed

section \<open>Properties\<close>

text \<open>
  C21. The connections page is JSON and says what was recorded. If no command name contains a
  quotation mark, a backslash or a control character, a reader of the text of
  \<open>/connections\<close> gets one object per connection, in iteration order, with its command,
  process, endpoints (the port numbers byte-swapped), byte counts and connect count.
\<close>

theorem connections_json:
  assumes "\<forall>x\<in>set (order r). json_safe (cs_comm (snd x))"
  shows "read_json (http_route now_ms order r ''/connections'') = Some (map connection_members (order r))"
proof -
  have "ms \<noteq> [] \<and> (\<forall>m\<in>set ms. json_safe (fst m) \<and> value_safe (snd m))"
    if "ms \<in> set (map connection_members (order r))" for ms
    using that assms by (fastforce simp: connection_members_def)
  then have "read_json (CHR ''['' # commas (map print_object (map connection_members (order r))) @ '']'')
      = Some (map connection_members (order r))"
    by (intro read_json_print) blast
  then show ?thesis by (simp add: http_route_def for_each_json)
qed

theorem connections_json_witness:
  "read_json (http_route 0 rev reporter_ex ''/connections'') = Some (map connection_members (rev reporter_ex))"
proof -
  have "\<forall>x\<in>set (rev reporter_ex). json_safe (cs_comm (snd x))" by code_simp
  then show ?thesis by (rule connections_json)
qed

end
