(* ===== verification/Reporter_Threads.thy ===== *)
theory Reporter_Threads
  imports Http_Route
begin

text \<open>
  The daemon's two threads on one \<open>StatsReporter\<close>: the main thread records events and prints
  the table (\<open>src/src/monitor.cpp\<close>, \<open>handle_tcp_event\<close> and the main loop), the HTTP thread
  answers requests (\<open>http_route\<close>). Every locking of the mutex \<open>mu_\<close>, every store to a member of
  an entry and every call of a callback is a step of its own, and the steps of the two threads
  interleave freely; a thread that wants the mutex waits while the other has it. In the
  middle of \<open>record\<close> the table holds a half-written entry.

  The numbers of events in \<open>http_pc\<close> and in the log are history: how many events had been
  recorded when the request began, when the connections were counted, and when they were
  listed. No step depends on them.
\<close>

section \<open>Definitions\<close>

datatype thread = Main_thread | Http_thread_id

text \<open>What the main thread has still to do: the events to record and the tables to print.\<close>

datatype main_op = Record tcp_event | Print

text \<open>The stores of \<open>record\<close> to the members of the entry, one after another.\<close>

definition field_stores :: "tcp_event \<Rightarrow> (ConnectionStats \<Rightarrow> ConnectionStats) list" where
  "field_stores ev =
     [\<lambda>s. s\<lparr>cs_comm := strn 16 (te_comm ev)\<rparr>, \<lambda>s. s\<lparr>cs_uid := te_uid ev\<rparr>,
      \<lambda>s. s\<lparr>cs_timestamp := te_timestamp_ns ev\<rparr>] @
     (if te_action ev = TCP_ACTION_CONNECT then [\<lambda>s. s\<lparr>cs_connects := cs_connects s + 1\<rparr>]
      else [\<lambda>s. s\<lparr>cs_bytes_tx := cs_bytes_tx s + te_bytes_tx ev\<rparr>, \<lambda>s. s\<lparr>cs_bytes_rx := cs_bytes_rx s + te_bytes_rx ev\<rparr>])"

datatype main_pc =
    M_idle
  | M_insert tcp_event
    \<comment> \<open>mutex taken, \<open>stats_[key]\<close> not yet evaluated\<close>
  | M_store tcp_event "(ConnectionStats \<Rightarrow> ConnectionStats) list"
    \<comment> \<open>the stores still to be made\<close>
  | M_copy
    \<comment> \<open>\<open>print_top\<close> has taken the mutex\<close>

datatype http_pc =
    H_idle
  | H_count int nat
    \<comment> \<open>\<open>/metrics\<close>: time read, mutex wanted for \<open>connection_count\<close>\<close>
  | H_counting int nat
  | H_metrics int nat nat nat
    \<comment> \<open>connections counted, mutex wanted for \<open>for_each\<close>\<close>
  | H_metrics_each int nat nat nat nat "ConnectionKey list" string
    \<comment> \<open>keys still to be visited, and the output so far\<close>
  | H_json nat
    \<comment> \<open>\<open>/connections\<close>: mutex wanted for \<open>for_each\<close>\<close>
  | H_json_each nat nat "ConnectionKey list" "string \<times> bool"

datatype log_entry =
    Metrics_answer int nat nat nat string
  | Json_answer nat nat string
  | Other_answer string string

record threads =
  th_lock :: "thread option"
  th_stats :: StatsReporter
  th_main :: main_pc
  th_ops :: "main_op list"
  th_recorded :: "tcp_event list"
  th_printed :: "StatsReporter list"
  th_http :: http_pc
  th_log :: "log_entry list"

text \<open>A visit of every entry of a hash map, in some order.\<close>

definition visits :: "ConnectionKey list \<Rightarrow> StatsReporter \<Rightarrow> bool" where
  "visits ks r \<longleftrightarrow> distinct ks \<and> set ks = fst ` set r"

inductive main_step :: "threads \<Rightarrow> threads \<Rightarrow> bool" where
  record_lock: "th_main s = M_idle \<Longrightarrow> th_ops s = Record ev # ops \<Longrightarrow> th_lock s = None \<Longrightarrow>
    main_step s (s\<lparr>th_lock := Some Main_thread, th_main := M_insert ev, th_ops := ops\<rparr>)"
| record_insert: "th_main s = M_insert ev \<Longrightarrow>
    main_step s (s\<lparr>th_stats := upsert (event_key ev) ConnectionStats_init id (th_stats s),
                   th_main := M_store ev (field_stores ev)\<rparr>)"
| record_store: "th_main s = M_store ev (f # fs) \<Longrightarrow>
    main_step s (s\<lparr>th_stats := upsert (event_key ev) ConnectionStats_init f (th_stats s), th_main := M_store ev fs\<rparr>)"
| record_unlock: "th_main s = M_store ev [] \<Longrightarrow>
    main_step s (s\<lparr>th_lock := None, th_main := M_idle, th_recorded := th_recorded s @ [ev]\<rparr>)"
| print_lock: "th_main s = M_idle \<Longrightarrow> th_ops s = Print # ops \<Longrightarrow> th_lock s = None \<Longrightarrow>
    main_step s (s\<lparr>th_lock := Some Main_thread, th_main := M_copy, th_ops := ops\<rparr>)"
| print_copy: "th_main s = M_copy \<Longrightarrow>
    main_step s (s\<lparr>th_lock := None, th_main := M_idle, th_printed := th_printed s @ [th_stats s]\<rparr>)"

text \<open>The HTTP thread takes up a request \<open>...\<close>\<close>

inductive http_begin :: "threads \<Rightarrow> threads \<Rightarrow> bool" where
  begin_metrics: "th_http s = H_idle \<Longrightarrow> http_begin s (s\<lparr>th_http := H_count now_ms (length (th_recorded s))\<rparr>)"
| begin_json: "th_http s = H_idle \<Longrightarrow> http_begin s (s\<lparr>th_http := H_json (length (th_recorded s))\<rparr>)"
| begin_other: "th_http s = H_idle \<Longrightarrow> path \<notin> {''/metrics'', ''/connections''} \<Longrightarrow>
    http_begin s (s\<lparr>th_log := th_log s @ [Other_answer path (http_route 0 id [] path)]\<rparr>)"

text \<open>\<open>...\<close> and answers it.\<close>

inductive http_step :: "threads \<Rightarrow> threads \<Rightarrow> bool" where
  count_lock: "th_http s = H_count now_ms b \<Longrightarrow> th_lock s = None \<Longrightarrow>
    http_step s (s\<lparr>th_lock := Some Http_thread_id, th_http := H_counting now_ms b\<rparr>)"
| count_unlock: "th_http s = H_counting now_ms b \<Longrightarrow>
    http_step s (s\<lparr>th_lock := None,
      th_http := H_metrics now_ms b (length (th_recorded s)) (connection_count (th_stats s))\<rparr>)"
| metrics_lock: "th_http s = H_metrics now_ms b i n \<Longrightarrow> th_lock s = None \<Longrightarrow> visits ks (th_stats s) \<Longrightarrow>
    http_step s (s\<lparr>th_lock := Some Http_thread_id,
      th_http := H_metrics_each now_ms b i n (length (th_recorded s)) ks (reporter_heading now_ms n)\<rparr>)"
| metrics_visit: "th_http s = H_metrics_each now_ms b i n j (k # ks) out \<Longrightarrow> map_of (th_stats s) k = Some st \<Longrightarrow>
    http_step s (s\<lparr>th_http := H_metrics_each now_ms b i n j ks (emit_connection now_ms k st out)\<rparr>)"
| metrics_unlock: "th_http s = H_metrics_each now_ms b i n j [] out \<Longrightarrow>
    http_step s (s\<lparr>th_lock := None, th_http := H_idle, th_log := th_log s @ [Metrics_answer now_ms b i j out]\<rparr>)"
| json_lock: "th_http s = H_json b \<Longrightarrow> th_lock s = None \<Longrightarrow> visits ks (th_stats s) \<Longrightarrow>
    http_step s (s\<lparr>th_lock := Some Http_thread_id,
      th_http := H_json_each b (length (th_recorded s)) ks (''['', True)\<rparr>)"
| json_visit: "th_http s = H_json_each b j (k # ks) out \<Longrightarrow> map_of (th_stats s) k = Some st \<Longrightarrow>
    http_step s (s\<lparr>th_http := H_json_each b j ks (emit_json k st out)\<rparr>)"
| json_unlock: "th_http s = H_json_each b j [] out \<Longrightarrow>
    http_step s (s\<lparr>th_lock := None, th_http := H_idle, th_log := th_log s @ [Json_answer b j (fst out @ '']'')]\<rparr>)"

inductive_simps main_step_simps: "main_step s t"
inductive_simps http_begin_simps: "http_begin s t"
inductive_simps http_step_simps: "http_step s t"

definition threads_init :: "main_op list \<Rightarrow> threads" where
  "threads_init ops = \<lparr>th_lock = None, th_stats = [], th_main = M_idle, th_ops = ops, th_recorded = [],
     th_printed = [], th_http = H_idle, th_log = []\<rparr>"

abbreviation threads_step :: "threads \<Rightarrow> threads \<Rightarrow> bool" where
  "threads_step s t \<equiv> main_step s t \<or> http_begin s t \<or> http_step s t"

abbreviation threads_reach :: "main_op list \<Rightarrow> threads \<Rightarrow> bool" where
  "threads_reach ops \<equiv> reach (\<lambda>s. s = threads_init ops) threads_step"

section \<open>Invariant\<close>

text \<open>The table after the first \<open>n\<close> of the recorded events.\<close>

abbreviation table_at :: "tcp_event list \<Rightarrow> nat \<Rightarrow> StatsReporter" where
  "table_at es n \<equiv> fold record_event (take n es) []"

abbreviation entries :: "StatsReporter \<Rightarrow> ConnectionKey list \<Rightarrow> StatsReporter" where
  "entries r ks \<equiv> map (\<lambda>k. (k, the (map_of r k))) ks"

fun http_holds :: "http_pc \<Rightarrow> bool" where
  "http_holds (H_counting _ _) = True"
| "http_holds (H_metrics_each _ _ _ _ _ _ _) = True"
| "http_holds (H_json_each _ _ _ _) = True"
| "http_holds _ = False"

definition lock_ok :: "threads \<Rightarrow> bool" where
  "lock_ok s \<longleftrightarrow> (th_lock s = Some Main_thread \<longleftrightarrow> th_main s \<noteq> M_idle) \<and>
     (th_lock s = Some Http_thread_id \<longleftrightarrow> http_holds (th_http s))"

text \<open>The table is what the recorded events make it, but for the entry being written.\<close>

fun stats_ok :: "main_pc \<Rightarrow> StatsReporter \<Rightarrow> StatsReporter \<Rightarrow> bool" where
  "stats_ok (M_store ev fs) r stats \<longleftrightarrow>
     (\<exists>made. field_stores ev = made @ fs \<and> stats = upsert (event_key ev) ConnectionStats_init (fold id made) r)"
| "stats_ok _ r stats \<longleftrightarrow> stats = r"

text \<open>
  An answer lists the table as it was at one moment; \<open>/metrics\<close> counts it as it was at an
  earlier or the same moment. Both are between the beginning of the request and the answer.
\<close>

fun answer_ok :: "tcp_event list \<Rightarrow> log_entry \<Rightarrow> bool" where
  "answer_ok es (Metrics_answer now_ms b i j out) \<longleftrightarrow> j \<le> length es \<and> i \<le> j \<and>
     (\<exists>ks. visits ks (table_at es j) \<and>
        out = fold (\<lambda>(k, st). emit_connection now_ms k st) (entries (table_at es j) ks)
          (reporter_heading now_ms (connection_count (table_at es i))))"
| "answer_ok es (Json_answer b j out) \<longleftrightarrow> j \<le> length es \<and>
     (\<exists>ks. visits ks (table_at es j) \<and>
        out = fst (fold (\<lambda>(k, st). emit_json k st) (entries (table_at es j) ks) (''['', True)) @ '']'')"
| "answer_ok es (Other_answer path out) \<longleftrightarrow> path \<notin> {''/metrics'', ''/connections''} \<and> out = http_route 0 id [] path"

fun http_ok :: "tcp_event list \<Rightarrow> http_pc \<Rightarrow> bool" where
  "http_ok es (H_metrics now_ms b i n) \<longleftrightarrow> i \<le> length es \<and> n = connection_count (table_at es i)"
| "http_ok es (H_metrics_each now_ms b i n j ks out) \<longleftrightarrow> i \<le> j \<and> j = length es \<and> n = connection_count (table_at es i) \<and>
     (\<exists>seen. visits (seen @ ks) (table_at es j) \<and>
        out = fold (\<lambda>(k, st). emit_connection now_ms k st) (entries (table_at es j) seen) (reporter_heading now_ms n))"
| "http_ok es (H_json_each b j ks out) \<longleftrightarrow> j = length es \<and>
     (\<exists>seen. visits (seen @ ks) (table_at es j) \<and>
        out = fold (\<lambda>(k, st). emit_json k st) (entries (table_at es j) seen) (''['', True))"
| "http_ok es _ \<longleftrightarrow> True"

text \<open>The moments that the answers speak of, in the order of the answers.\<close>

fun moments :: "log_entry \<Rightarrow> nat list" where
  "moments (Metrics_answer now_ms b i j out) = [b, i, j]"
| "moments (Json_answer b j out) = [b, j]"
| "moments (Other_answer path out) = []"

fun http_moments :: "http_pc \<Rightarrow> nat list" where
  "http_moments (H_count now_ms b) = [b]"
| "http_moments (H_counting now_ms b) = [b]"
| "http_moments (H_metrics now_ms b i n) = [b, i]"
| "http_moments (H_metrics_each now_ms b i n j ks out) = [b, i, j]"
| "http_moments (H_json b) = [b]"
| "http_moments (H_json_each b j ks out) = [b, j]"
| "http_moments H_idle = []"

definition all_moments :: "threads \<Rightarrow> nat list" where
  "all_moments s = concat (map moments (th_log s)) @ http_moments (th_http s) @ [length (th_recorded s)]"

text \<open>The events among the operations, and the one being recorded.\<close>

fun events_of :: "main_op list \<Rightarrow> tcp_event list" where
  "events_of [] = []"
| "events_of (Record ev # ops) = ev # events_of ops"
| "events_of (Print # ops) = events_of ops"

fun recording :: "main_pc \<Rightarrow> tcp_event list" where
  "recording (M_insert ev) = [ev]"
| "recording (M_store ev fs) = [ev]"
| "recording _ = []"

definition threads_inv :: "main_op list \<Rightarrow> threads \<Rightarrow> bool" where
  "threads_inv ops s \<longleftrightarrow> lock_ok s \<and> stats_ok (th_main s) (fold record_event (th_recorded s) []) (th_stats s) \<and>
     http_ok (th_recorded s) (th_http s) \<and> list_all (answer_ok (th_recorded s)) (th_log s) \<and>
     sorted (all_moments s) \<and> events_of ops = th_recorded s @ recording (th_main s) @ events_of (th_ops s)"

section \<open>The steps keep the invariant\<close>

lemma fold_field_stores: "fold id (field_stores ev) = update_stats ev"
  by (auto simp: fun_eq_iff field_stores_def update_stats_def Let_def)

lemma upsert_upsert: "upsert k d f (upsert k d g m) = upsert k d (f \<circ> g) m"
  by (induction k d g m rule: upsert.induct) auto

lemma answer_ok_append: "answer_ok es e \<Longrightarrow> answer_ok (es @ es') e"
  by (cases "(es, e)" rule: answer_ok.cases) auto

lemma http_ok_append: "\<not> http_holds h \<Longrightarrow> http_ok es h \<Longrightarrow> http_ok (es @ es') h"
  by (cases h) auto

lemma sorted_snoc_mono: "sorted (xs @ [m]) \<Longrightarrow> m \<le> n \<Longrightarrow> sorted (xs @ [n :: nat])"
  by (fastforce simp: sorted_append)

lemma sorted_snoc_again: "sorted (xs @ [n]) \<Longrightarrow> sorted (xs @ [n, n :: nat])"
  by (simp add: sorted_append)

lemma main_step_inv:
  assumes "threads_inv ops s" and "main_step s t"
  shows "threads_inv ops t"
  using assms(2)
proof cases
  case (record_unlock ev)
  have "\<not> http_holds (th_http s)" using assms(1) record_unlock by (auto simp: threads_inv_def lock_ok_def)
  then have "http_ok (th_recorded t) (th_http t)" "list_all (answer_ok (th_recorded t)) (th_log t)"
    using assms(1) record_unlock http_ok_append answer_ok_append by (auto simp: threads_inv_def list_all_iff)
  moreover have "th_stats t = fold record_event (th_recorded t) []"
    using assms(1) record_unlock by (auto simp: threads_inv_def fold_field_stores record_event_def)
  moreover have "sorted (all_moments t)"
    using assms(1) record_unlock
      sorted_snoc_mono [of "concat (map moments (th_log s)) @ http_moments (th_http s)" "length (th_recorded s)"]
    by (simp add: threads_inv_def all_moments_def)
  ultimately show ?thesis using assms(1) record_unlock by (auto simp: threads_inv_def lock_ok_def)
next
  case (record_insert ev)
  then show ?thesis
    using assms(1) by (auto simp: threads_inv_def lock_ok_def all_moments_def intro: exI [of _ "[]"])
next
  case (record_store ev f fs)
  then obtain made where "field_stores ev = made @ f # fs"
    "th_stats s = upsert (event_key ev) ConnectionStats_init (fold id made) (fold record_event (th_recorded s) [])"
    using assms(1) by (auto simp: threads_inv_def)
  then have "stats_ok (th_main t) (fold record_event (th_recorded t) []) (th_stats t)"
    using record_store by (auto simp: upsert_upsert intro!: exI [of _ "made @ [f]"])
  then show ?thesis using assms(1) record_store by (auto simp: threads_inv_def lock_ok_def all_moments_def)
qed (use assms(1) in \<open>auto simp: threads_inv_def lock_ok_def all_moments_def\<close>)

lemma http_begin_inv:
  assumes "threads_inv ops s" and "http_begin s t"
  shows "threads_inv ops t"
  using assms(2)
  by cases (use assms(1) sorted_snoc_again [of "concat (map moments (th_log s))" "length (th_recorded s)"]
    in \<open>auto simp: threads_inv_def lock_ok_def all_moments_def\<close>)

lemma visits_lookup:
  assumes "visits ks r" and "k \<in> set ks"
  shows "\<exists>st. map_of r k = Some st"
proof -
  have "map_of r k \<noteq> None" using assms by (simp add: visits_def map_of_eq_None_iff)
  then show ?thesis by blast
qed

lemma http_step_inv:
  assumes "threads_inv ops s" and "http_step s t"
  shows "threads_inv ops t"
proof -
  have idle: "th_lock s \<noteq> Some Main_thread \<Longrightarrow> th_stats s = fold record_event (th_recorded s) []"
    using assms(1) by (auto simp: threads_inv_def lock_ok_def)
  note again = sorted_snoc_again [of "concat (map moments (th_log s)) @ http_moments (th_http s)" "length (th_recorded s)"]
  from assms(2) show ?thesis
  proof cases
    case (metrics_visit now_ms b i n j k ks out st)
    then have stats: "th_stats s = fold record_event (th_recorded s) []"
      using idle assms(1) by (auto simp: threads_inv_def lock_ok_def)
    obtain seen where "visits (seen @ k # ks) (table_at (th_recorded s) j)" "j = length (th_recorded s)"
      "out = fold (\<lambda>(k, st). emit_connection now_ms k st) (entries (table_at (th_recorded s) j) seen)
         (reporter_heading now_ms n)"
      using assms(1) metrics_visit by (auto simp: threads_inv_def)
    then have "http_ok (th_recorded t) (th_http t)"
      using assms(1) metrics_visit stats by (auto simp: threads_inv_def intro!: exI [of _ "seen @ [k]"])
    then show ?thesis using assms(1) metrics_visit by (auto simp: threads_inv_def lock_ok_def all_moments_def)
  next
    case (json_visit b j k ks out st)
    then have stats: "th_stats s = fold record_event (th_recorded s) []"
      using idle assms(1) by (auto simp: threads_inv_def lock_ok_def)
    obtain seen where "visits (seen @ k # ks) (table_at (th_recorded s) j)" "j = length (th_recorded s)"
      "out = fold (\<lambda>(k, st). emit_json k st) (entries (table_at (th_recorded s) j) seen) (''['', True)"
      using assms(1) json_visit by (auto simp: threads_inv_def)
    then have "http_ok (th_recorded t) (th_http t)"
      using assms(1) json_visit stats by (auto simp: threads_inv_def intro!: exI [of _ "seen @ [k]"])
    then show ?thesis using assms(1) json_visit by (auto simp: threads_inv_def lock_ok_def all_moments_def)
  next
    case (metrics_lock now_ms b i n ks)
    then show ?thesis using assms(1) idle again
      by (auto simp: threads_inv_def lock_ok_def all_moments_def intro!: exI [of _ "[]"])
  next
    case (json_lock b ks)
    then show ?thesis using assms(1) idle again
      by (auto simp: threads_inv_def lock_ok_def all_moments_def intro!: exI [of _ "[]"])
  next
    case (count_unlock now_ms b)
    then have "th_stats s = fold record_event (th_recorded s) []"
      using idle assms(1) by (auto simp: threads_inv_def lock_ok_def)
    then show ?thesis using assms(1) count_unlock again by (auto simp: threads_inv_def lock_ok_def all_moments_def)
  qed (use assms(1) in \<open>auto simp: threads_inv_def lock_ok_def all_moments_def\<close>)
qed

lemma threads_init_inv: "threads_inv ops (threads_init ops)"
  by (simp add: threads_inv_def lock_ok_def all_moments_def threads_init_def)

interpretation reporter_threads: step_invariant "\<lambda>s. s = threads_init ops" threads_step "threads_inv ops" for ops
proof unfold_locales
  show "s = threads_init ops \<Longrightarrow> threads_inv ops s" for s by (simp add: threads_init_inv)
  show "threads_inv ops s \<Longrightarrow> threads_step s t \<Longrightarrow> threads_inv ops t" for s t
    using main_step_inv http_begin_inv http_step_inv by blast
qed


section \<open>Progress\<close>

text \<open>How many entries the table can have when the HTTP thread next takes the mutex.\<close>

definition table_bound :: "threads \<Rightarrow> nat" where
  "table_bound s = length (th_stats s) + length (events_of (th_ops s)) +
     (case th_main s of M_insert ev \<Rightarrow> 1 | _ \<Rightarrow> 0)"

fun main_cost :: "main_pc \<Rightarrow> nat" where
  "main_cost M_idle = 0"
| "main_cost (M_insert ev) = 7"
| "main_cost (M_store ev fs) = 1 + length fs"
| "main_cost M_copy = 1"

fun http_cost :: "nat \<Rightarrow> http_pc \<Rightarrow> nat" where
  "http_cost k H_idle = 0"
| "http_cost k (H_count now_ms b) = 4 + k"
| "http_cost k (H_counting now_ms b) = 3 + k"
| "http_cost k (H_metrics now_ms b i n) = 2 + k"
| "http_cost k (H_metrics_each now_ms b i n j ks out) = 1 + length ks"
| "http_cost k (H_json b) = 2 + k"
| "http_cost k (H_json_each b j ks out) = 1 + length ks"

definition threads_measure :: "threads \<Rightarrow> nat" where
  "threads_measure s = 8 * length (th_ops s) + main_cost (th_main s) + http_cost (table_bound s) (th_http s)"

lemma length_upsert: "length (upsert k d f m) = (if k \<in> fst ` set m then length m else Suc (length m))"
  by (induction k d f m rule: upsert.induct) auto

lemma http_cost_mono: "k \<le> k' \<Longrightarrow> http_cost k h \<le> http_cost k' h"
  by (cases h) auto

lemma length_field_stores: "length (field_stores ev) \<le> 5"
  by (simp add: field_stores_def)

lemma length_visits: "visits ks r \<Longrightarrow> length ks \<le> length r"
  using card_length [of "map fst r"] by (metis distinct_card length_map list.set_map visits_def)

lemma main_step_decreases:
  assumes "threads_inv ops s" and "main_step s t"
  shows "threads_measure t < threads_measure s"
proof -
  have "table_bound t \<le> table_bound s \<and>
      8 * length (th_ops t) + main_cost (th_main t) < 8 * length (th_ops s) + main_cost (th_main s) \<and>
      th_http t = th_http s"
    using assms(2)
  proof cases
    case (record_store ev f fs)
    then show ?thesis using assms(1) by (auto simp: threads_inv_def table_bound_def length_upsert)
  next
    case (record_insert ev)
    then show ?thesis using length_field_stores [of ev] by (simp add: table_bound_def length_upsert)
  qed (auto simp: table_bound_def)
  then show ?thesis using http_cost_mono [of "table_bound t" "table_bound s" "th_http s"] by (simp add: threads_measure_def)
qed

lemma http_step_decreases: "http_step s t \<Longrightarrow> threads_measure t < threads_measure s"
proof (induction rule: http_step.induct)
  case (metrics_lock s now_ms b i n ks)
  then show ?case using length_visits [of ks "th_stats s"] by (simp add: threads_measure_def table_bound_def)
next
  case (json_lock s b ks)
  then show ?case using length_visits [of ks "th_stats s"] by (simp add: threads_measure_def table_bound_def)
qed (simp_all add: threads_measure_def table_bound_def)

lemma stats_visitable: "\<exists>ks. visits ks r"
  by (rule exI [of _ "remdups (map fst r)"]) (simp add: visits_def)

text \<open>The thread that has the mutex can go on, and so can one that wants it when it is free.\<close>

lemma main_holder_steps: "th_main s \<noteq> M_idle \<Longrightarrow> \<exists>t. main_step s t"
proof (cases "th_main s")
  case (M_store ev fs)
  then show ?thesis by (cases fs) (blast intro: record_store record_unlock)+
qed (blast intro: record_insert print_copy)+

lemma http_holder_steps:
  assumes "threads_inv ops s" and "http_holds (th_http s)"
  shows "\<exists>t. http_step s t"
proof -
  have stats: "th_stats s = fold record_event (th_recorded s) []"
    using assms by (auto simp: threads_inv_def lock_ok_def)
  show ?thesis
  proof (cases "th_http s")
    case (H_metrics_each now_ms b i n j ks out)
    show ?thesis
    proof (cases ks)
      case (Cons k ks')
      obtain seen where "visits (seen @ ks) (th_stats s)"
        using assms(1) H_metrics_each stats by (auto simp: threads_inv_def)
      with Cons obtain st where "map_of (th_stats s) k = Some st" using visits_lookup by fastforce
      with Cons H_metrics_each show ?thesis by (blast intro: metrics_visit)
    qed (use H_metrics_each in \<open>blast intro: metrics_unlock\<close>)
  next
    case (H_json_each b j ks out)
    show ?thesis
    proof (cases ks)
      case (Cons k ks')
      obtain seen where "visits (seen @ ks) (th_stats s)"
        using assms(1) H_json_each stats by (auto simp: threads_inv_def)
      with Cons obtain st where "map_of (th_stats s) k = Some st" using visits_lookup by fastforce
      with Cons H_json_each show ?thesis by (blast intro: json_visit)
    qed (use H_json_each in \<open>blast intro: json_unlock\<close>)
  qed (use assms(2) count_unlock in auto)
qed

lemma free_lock_steps:
  assumes "th_lock s = None" and "th_main s = M_idle" and "th_ops s \<noteq> [] \<or> th_http s \<noteq> H_idle" and "\<not> http_holds (th_http s)"
  shows "\<exists>t. main_step s t \<or> http_step s t"
proof (cases "th_ops s")
  case (Cons op ops)
  then show ?thesis using assms(1,2) by (cases op) (blast intro: record_lock print_lock)+
next
  case Nil
  obtain ks where "visits ks (th_stats s)" using stats_visitable by blast
  with Nil assms show ?thesis by (cases "th_http s") (auto intro: count_lock metrics_lock json_lock)
qed


abbreviation own_step :: "threads \<Rightarrow> threads \<Rightarrow> bool" where
  "own_step s t \<equiv> main_step s t \<or> http_step s t"

lemma own_step_bound:
  assumes "(own_step ^^ k) s t" and "threads_reach ops s"
  shows "k + threads_measure t \<le> threads_measure s \<and> threads_reach ops t"
  using assms(1)
proof (induction k arbitrary: t)
  case 0
  then show ?case using assms(2) by simp
next
  case (Suc k)
  then obtain u where u: "(own_step ^^ k) s u" "own_step u t" by auto
  from Suc.IH [OF u(1)] have IH: "k + threads_measure u \<le> threads_measure s" "threads_reach ops u" by auto
  have "threads_measure t < threads_measure u"
    using u(2) main_step_decreases [OF reporter_threads.reach_inv [OF IH(2)]] http_step_decreases by blast
  moreover have "threads_reach ops t" using reach_step [OF IH(2)] u(2) by blast
  ultimately show ?case using IH(1) by simp
qed

lemma own_steps_reach: "own_step\<^sup>*\<^sup>* s t \<Longrightarrow> threads_reach ops s \<Longrightarrow> threads_reach ops t"
  using own_step_bound by (auto simp: rtranclp_power)

lemma stuck_done:
  assumes "threads_inv ops s" and "\<nexists>t. own_step s t"
  shows "th_ops s = [] \<and> th_main s = M_idle \<and> th_http s = H_idle"
proof -
  have main: "th_main s = M_idle" and http: "\<not> http_holds (th_http s)"
    using assms main_holder_steps http_holder_steps by blast+
  then have "th_lock s \<noteq> Some Main_thread" "th_lock s \<noteq> Some Http_thread_id"
    using assms(1) by (simp_all add: threads_inv_def lock_ok_def)
  then have "th_lock s = None" by (cases "th_lock s"; cases "the (th_lock s)") auto
  from free_lock_steps [OF this main _ http] main assms(2) show ?thesis by blast
qed

section \<open>Example runs\<close>

lemma stores_run:
  assumes "th_main s = M_store ev fs" and "th_stats s = upsert (event_key ev) ConnectionStats_init g m"
    and "h = fold id fs \<circ> g"
  shows "main_step\<^sup>*\<^sup>* s (s\<lparr>th_stats := upsert (event_key ev) ConnectionStats_init h m, th_main := M_store ev []\<rparr>)"
  using assms
proof (induction fs arbitrary: s g)
  case Nil
  then have "s\<lparr>th_stats := upsert (event_key ev) ConnectionStats_init h m, th_main := M_store ev []\<rparr> = s"
    by (cases s) simp
  then show ?case by simp
next
  case (Cons f fs)
  let ?t = "s\<lparr>th_stats := upsert (event_key ev) ConnectionStats_init f (th_stats s), th_main := M_store ev fs\<rparr>"
  have "main_step s ?t" using Cons.prems(1) by (rule record_store)
  moreover have "main_step\<^sup>*\<^sup>* ?t (?t\<lparr>th_stats := upsert (event_key ev) ConnectionStats_init h m, th_main := M_store ev []\<rparr>)"
    using Cons.prems(2,3) by (intro Cons.IH [of _ "f \<circ> g"]) (simp_all add: upsert_upsert fun_eq_iff comp_def)
  ultimately show ?case by (simp add: converse_rtranclp_into_rtranclp)
qed

lemma record_run:
  assumes "th_main s = M_idle" and "th_ops s = Record ev # ops" and "th_lock s = None"
  shows "main_step\<^sup>*\<^sup>* s (s\<lparr>th_stats := record_event ev (th_stats s), th_ops := ops, th_recorded := th_recorded s @ [ev]\<rparr>)"
proof -
  define s1 where "s1 = s\<lparr>th_lock := Some Main_thread, th_main := M_insert ev, th_ops := ops\<rparr>"
  define s2 where "s2 = s1\<lparr>th_stats := upsert (event_key ev) ConnectionStats_init id (th_stats s1),
     th_main := M_store ev (field_stores ev)\<rparr>"
  define s3 where "s3 = s2\<lparr>th_stats := upsert (event_key ev) ConnectionStats_init (update_stats ev) (th_stats s1),
     th_main := M_store ev []\<rparr>"
  have "main_step s s1" unfolding s1_def using assms by (rule record_lock)
  moreover have "main_step s1 s2" unfolding s2_def by (rule record_insert) (simp add: s1_def)
  moreover have "main_step\<^sup>*\<^sup>* s2 s3"
    unfolding s3_def by (rule stores_run [where g = id and fs = "field_stores ev"]) (simp_all add: s2_def fold_field_stores)
  moreover have "main_step s3 (s3\<lparr>th_lock := None, th_main := M_idle, th_recorded := th_recorded s3 @ [ev]\<rparr>)"
    by (rule record_unlock) (simp add: s3_def)
  moreover have "s3\<lparr>th_lock := None, th_main := M_idle, th_recorded := th_recorded s3 @ [ev]\<rparr> =
      s\<lparr>th_stats := record_event ev (th_stats s), th_ops := ops, th_recorded := th_recorded s @ [ev]\<rparr>"
    using assms by (cases s) (simp add: s1_def s2_def s3_def record_event_def)
  ultimately show ?thesis
    by (metis converse_rtranclp_into_rtranclp rtranclp.rtrancl_into_rtrancl)
qed

text \<open>
  A request for \<open>/metrics\<close> and one event: the connections are counted, the event is recorded,
  and only then are the connections listed.
\<close>

definition race_ex :: threads where
  "race_ex = (threads_init [])\<lparr>th_stats := record_event (event_ex 1 0 0) [], th_recorded := [event_ex 1 0 0],
     th_log := [Metrics_answer 0 0 0 1 (emit_connection 0 (event_key (event_ex 1 0 0))
       (update_stats (event_ex 1 0 0) ConnectionStats_init) (reporter_heading 0 0))]\<rparr>"

lemma reach_begin: "threads_reach ops s \<Longrightarrow> http_begin s t \<Longrightarrow> threads_reach ops t"
  by (erule reach_step) simp

lemma reach_http: "threads_reach ops s \<Longrightarrow> http_step s t \<Longrightarrow> threads_reach ops t"
  by (erule reach_step) simp

lemma race_ex_counts:
  "threads_reach [Record (event_ex 1 0 0)] ((threads_init [Record (event_ex 1 0 0)])\<lparr>th_http := H_metrics 0 0 0 0\<rparr>)"
proof -
  let ?ops = "[Record (event_ex 1 0 0)]" let ?s0 = "threads_init ?ops"
  let ?s1 = "?s0\<lparr>th_http := H_count 0 0\<rparr>"
  let ?s2 = "?s0\<lparr>th_lock := Some Http_thread_id, th_http := H_counting 0 0\<rparr>"
  have "threads_reach ?ops ?s0" by (simp add: reach_init)
  then have "threads_reach ?ops ?s1"
    by (rule reach_begin) (use begin_metrics [of ?s0 0] in \<open>simp add: threads_init_def\<close>)
  then have "threads_reach ?ops ?s2"
    by (rule reach_http) (use count_lock [of ?s1] in \<open>simp add: threads_init_def\<close>)
  then show ?thesis
    by (rule reach_http) (use count_unlock [of ?s2] in \<open>simp add: threads_init_def connection_count_def\<close>)
qed

lemma race_ex_reach: "threads_reach [Record (event_ex 1 0 0)] race_ex"
proof -
  let ?ev = "event_ex 1 0 0" let ?k = "event_key ?ev" let ?st = "update_stats ?ev ConnectionStats_init"
  let ?s1 = "(threads_init [Record ?ev])\<lparr>th_http := H_metrics 0 0 0 0\<rparr>"
  let ?s2 = "?s1\<lparr>th_stats := record_event ?ev [], th_ops := [], th_recorded := [?ev]\<rparr>"
  let ?s3 = "?s2\<lparr>th_lock := Some Http_thread_id, th_http := H_metrics_each 0 0 0 0 1 [?k] (reporter_heading 0 0)\<rparr>"
  let ?s4 = "?s3\<lparr>th_http := H_metrics_each 0 0 0 0 1 [] (emit_connection 0 ?k ?st (reporter_heading 0 0))\<rparr>"
  have "main_step\<^sup>*\<^sup>* ?s1 ?s2" using record_run [of ?s1 ?ev "[]"] by (simp add: threads_init_def)
  then have "own_step\<^sup>*\<^sup>* ?s1 ?s2" by (rule rtranclp_mono [THEN predicate2D, rotated]) auto
  from own_steps_reach [OF this race_ex_counts] have "threads_reach [Record ?ev] ?s2" .
  then have "threads_reach [Record ?ev] ?s3"
    by (rule reach_http)
       (use metrics_lock [of ?s2 0 0 0 0 "[?k]"] in \<open>simp add: threads_init_def visits_def record_event_def\<close>)
  then have "threads_reach [Record ?ev] ?s4"
    by (rule reach_http)
       (use metrics_visit [of ?s3 0 0 0 0 1 ?k "[]" "reporter_heading 0 0" ?st]
        in \<open>simp add: threads_init_def record_event_def\<close>)
  then show ?thesis
    by (rule reach_http) (use metrics_unlock [of ?s4] in \<open>simp add: threads_init_def race_ex_def\<close>)
qed

section \<open>Properties\<close>

lemma visits_mset:
  assumes "visits ks r" and "distinct (map fst r)"
  shows "mset (entries r ks) = mset r"
proof -
  have "mset ks = mset (map fst r)"
    using assms set_eq_iff_mset_eq_distinct [of ks "map fst r"] by (simp add: visits_def)
  then have "mset (entries r ks) = mset (entries r (map fst r))" by (simp only: mset_map)
  also have "entries r (map fst r) = r"
    unfolding map_map by (rule map_idI) (use map_of_is_SomeI [OF assms(2)] in force)
  finally show ?thesis .
qed

text \<open>
  What a client may expect of an answer: \<open>/connections\<close> is \<open>http_route\<close> of the table at one
  moment, \<open>/metrics\<close> that of the table at one moment but for the count, taken earlier.
\<close>

fun consistent_answer :: "tcp_event list \<Rightarrow> log_entry \<Rightarrow> bool" where
  "consistent_answer es (Json_answer b j out) \<longleftrightarrow>
     (\<exists>order. mset (order (table_at es j)) = mset (table_at es j) \<and>
        out = http_route 0 order (table_at es j) ''/connections'')"
| "consistent_answer es (Metrics_answer now_ms b i j out) \<longleftrightarrow>
     (\<exists>order. mset (order (table_at es j)) = mset (table_at es j) \<and>
        out = for_each order (emit_connection now_ms) (table_at es j)
          (reporter_heading now_ms (connection_count (table_at es i))) \<and>
        (i = j \<longrightarrow> out = http_route now_ms order (table_at es j) ''/metrics''))"
| "consistent_answer es (Other_answer path out) \<longleftrightarrow> (\<forall>now_ms order r. out = http_route now_ms order r path)"

lemma answer_ok_consistent:
  assumes "answer_ok es e"
  shows "consistent_answer es e"
proof (cases e)
  case (Metrics_answer now_ms b i j out)
  then obtain ks where ks: "visits ks (table_at es j)"
    "out = fold (\<lambda>(k, st). emit_connection now_ms k st) (entries (table_at es j) ks)
       (reporter_heading now_ms (connection_count (table_at es i)))"
    using assms by auto
  have "distinct (map fst (table_at es j))" using reporter.runs_distinct [of "[]"] by simp
  from visits_mset [OF ks(1) this] ks(2) Metrics_answer show ?thesis
    by (auto simp: for_each_def http_route_def from_reporter_def intro!: exI [of _ "\<lambda>r. entries r ks"])
next
  case (Json_answer b j out)
  then obtain ks where ks: "visits ks (table_at es j)"
    "out = fst (fold (\<lambda>(k, st). emit_json k st) (entries (table_at es j) ks) (''['', True)) @ '']''"
    using assms by auto
  have "distinct (map fst (table_at es j))" using reporter.runs_distinct [of "[]"] by simp
  from visits_mset [OF ks(1) this] ks(2) Json_answer show ?thesis
    by (auto simp: for_each_def http_route_def intro!: exI [of _ "\<lambda>r. entries r ks"])
qed (use assms in \<open>auto simp: http_route_def\<close>)



text \<open>
  C19. The two threads never stop each other for good. From any reachable state the threads'
  own steps number at most \<open>threads_measure\<close>, whatever the schedule, as long as no new request
  is taken up; and where they end, the main thread has recorded all its events, in their
  order, the table is what they make it, and the request has been answered.
\<close>

theorem threads_finish:
  assumes "threads_reach ops s"
  shows "(\<forall>k t. (own_step ^^ k) s t \<longrightarrow> k \<le> threads_measure s) \<and>
     (\<forall>t. own_step\<^sup>*\<^sup>* s t \<and> (\<nexists>u. own_step t u) \<longrightarrow>
        th_recorded t = events_of ops \<and> th_stats t = fold record_event (events_of ops) [] \<and> th_http t = H_idle)"
proof (intro conjI allI impI)
  show "(own_step ^^ k) s t \<Longrightarrow> k \<le> threads_measure s" for k t
    using own_step_bound [OF _ assms, of k t] by simp
  fix t assume t: "own_step\<^sup>*\<^sup>* s t \<and> (\<nexists>u. own_step t u)"
  note inv = reporter_threads.reach_inv [OF own_steps_reach [OF conjunct1 [OF t] assms]]
  have q: "th_ops t = [] \<and> th_main t = M_idle \<and> th_http t = H_idle" by (rule stuck_done [OF inv conjunct2 [OF t]])
  then show "th_recorded t = events_of ops" "th_stats t = fold record_event (events_of ops) []" "th_http t = H_idle"
    using inv by (simp_all add: threads_inv_def)
qed

theorem threads_finish_witness:
  "let s = threads_init [Record (event_ex 1 0 0)];
       t = s\<lparr>th_stats := record_event (event_ex 1 0 0) [], th_ops := [], th_recorded := [event_ex 1 0 0]\<rparr>
   in own_step\<^sup>*\<^sup>* s t \<and> (\<nexists>u. own_step t u) \<and> th_stats t = fold record_event [event_ex 1 0 0] [] \<and> th_http t = H_idle"
proof -
  let ?s = "threads_init [Record (event_ex 1 0 0)]"
  let ?t = "?s\<lparr>th_stats := record_event (event_ex 1 0 0) [], th_ops := [], th_recorded := [event_ex 1 0 0]\<rparr>"
  have "main_step\<^sup>*\<^sup>* ?s ?t" using record_run [of ?s "event_ex 1 0 0" "[]"] by (simp add: threads_init_def)
  then have run: "own_step\<^sup>*\<^sup>* ?s ?t" by (rule rtranclp_mono [THEN predicate2D, rotated]) auto
  moreover have stuck: "\<nexists>u. own_step ?t u"
    by (auto simp: main_step_simps http_step_simps threads_init_def)
  moreover have "threads_reach [Record (event_ex 1 0 0)] ?s" by (simp add: reach_init)
  ultimately have "th_stats ?t = fold record_event (events_of [Record (event_ex 1 0 0)]) [] \<and> th_http ?t = H_idle"
    using conjunct2 [OF threads_finish, rule_format, OF _ conjI [OF run stuck]] by blast
  then show ?thesis unfolding Let_def using run stuck by simp
qed

text \<open>
  C38. The count of \<open>/metrics\<close> and its list may disagree: \<open>connection_count\<close> and \<open>for_each\<close>
  take the mutex separately, and an event may be recorded in between. In a reachable state an
  answer says that there are no connections and lists one.
\<close>

theorem metrics_count_race:
  "\<exists>out. threads_reach [Record (event_ex 1 0 0)] race_ex \<and> th_log race_ex = [Metrics_answer 0 0 0 1 out] \<and>
     scrape out = (''ebpf_active_connections'', 0) #
       connection_samples (event_key (event_ex 1 0 0), update_stats (event_ex 1 0 0) ConnectionStats_init)"
proof -
  let ?x = "(event_key (event_ex 1 0 0), update_stats (event_ex 1 0 0) ConnectionStats_init)"
  have "\<forall>x\<in>set [?x]. LF \<notin> set (cs_comm (snd x))" by code_simp
  from scrape_exposition [OF this, of 0 0] race_ex_reach show ?thesis by (simp add: race_ex_def)
qed

end
