(* ===== verification/Event_Layout.thy ===== *)
theory Event_Layout
  imports Events
begin

text \<open>
  The structures of \<open>src/include/common.h\<close> as bytes. The probes and the daemon are compiled
  separately and meet only in memory: a probe writes a structure into a ring buffer, the
  handler of \<open>src/src/monitor.cpp\<close> casts the address of a sample back to the structure, and a
  map compares its keys byte by byte. Members are laid out by the rule of the C ABI on the
  little-endian 64-bit machines the program is written for: each at the next multiple of its
  alignment, the whole rounded up to the largest alignment. What the bytes between members
  hold is unspecified, so it is an argument (\<open>gap\<close>).
\<close>

section \<open>Layout of structures\<close>

datatype ctype = Scalar nat | Array nat nat

fun size_of :: "ctype \<Rightarrow> nat" where
  "size_of (Scalar n) = n"
| "size_of (Array k n) = k * n"

fun align_of :: "ctype \<Rightarrow> nat" where
  "align_of (Scalar n) = n"
| "align_of (Array k n) = n"

definition align_up :: "nat \<Rightarrow> nat \<Rightarrow> nat" where
  "align_up n a = (if n mod a = 0 then n else n + (a - n mod a))"

fun offsets :: "nat \<Rightarrow> ctype list \<Rightarrow> nat list" where
  "offsets n [] = []"
| "offsets n (t # ts) = align_up n (align_of t) # offsets (align_up n (align_of t) + size_of t) ts"

fun members_end :: "nat \<Rightarrow> ctype list \<Rightarrow> nat" where
  "members_end n [] = n"
| "members_end n (t # ts) = members_end (align_up n (align_of t) + size_of t) ts"

definition struct_size :: "ctype list \<Rightarrow> nat" where
  "struct_size ts = align_up (members_end 0 ts) (fold max (map align_of ts) 1)"

text \<open>The bytes of an object with the given members, and a member read back from bytes.\<close>

fun members_image :: "(nat \<Rightarrow> u8) \<Rightarrow> nat \<Rightarrow> (ctype \<times> u8 list) list \<Rightarrow> u8 list" where
  "members_image gap n [] = []"
| "members_image gap n ((t, bs) # ms) =
     map gap [n ..< align_up n (align_of t)] @ bs @
     members_image gap (align_up n (align_of t) + size_of t) ms"

definition struct_image :: "(nat \<Rightarrow> u8) \<Rightarrow> ctype list \<Rightarrow> u8 list list \<Rightarrow> u8 list" where
  "struct_image gap ts bss =
     members_image gap 0 (zip ts bss) @ map gap [members_end 0 ts ..< struct_size ts]"

definition member_at :: "ctype list \<Rightarrow> u8 list \<Rightarrow> nat \<Rightarrow> u8 list" where
  "member_at ts obj i = take (size_of (ts ! i)) (drop (offsets 0 ts ! i) obj)"

text \<open>Little-endian integers, characters and arrays.\<close>

fun le_bytes :: "nat \<Rightarrow> 'a :: len word \<Rightarrow> u8 list" where
  "le_bytes 0 w = []"
| "le_bytes (Suc n) w = ucast w # le_bytes n (drop_bit 8 w)"

fun le_word :: "u8 list \<Rightarrow> 'a :: len word" where
  "le_word [] = 0"
| "le_word (b # bs) = ucast b OR push_bit 8 (le_word bs)"

definition char_bytes :: "char list \<Rightarrow> u8 list" where
  "char_bytes = map (\<lambda>c. word_of_nat (of_char c))"

definition bytes_chars :: "u8 list \<Rightarrow> char list" where
  "bytes_chars = map (\<lambda>b. char_of (unat b))"

section \<open>The shared structures\<close>

definition tcp_event_members :: "ctype list" where
  "tcp_event_members = [Scalar 8, Scalar 4, Scalar 4, Array 16 1, Scalar 4, Scalar 4, Scalar 2, Scalar 2,
     Scalar 1, Scalar 1, Array 2 1, Scalar 8, Scalar 8]"

definition tcp_event_bytes :: "(nat \<Rightarrow> u8) \<Rightarrow> tcp_event \<Rightarrow> u8 list" where
  "tcp_event_bytes gap ev = struct_image gap tcp_event_members
     [le_bytes 8 (te_timestamp_ns ev), le_bytes 4 (te_pid ev), le_bytes 4 (te_uid ev), char_bytes (te_comm ev),
      le_bytes 4 (te_src_ip ev), le_bytes 4 (te_dst_ip ev), le_bytes 2 (te_src_port ev), le_bytes 2 (te_dst_port ev),
      le_bytes 1 (te_af ev), le_bytes 1 (te_action ev), te_pad ev, le_bytes 8 (te_bytes_tx ev),
      le_bytes 8 (te_bytes_rx ev)]"

definition tcp_event_read :: "u8 list \<Rightarrow> tcp_event" where
  "tcp_event_read obj = (let m = member_at tcp_event_members obj in
     \<lparr>te_timestamp_ns = le_word (m 0), te_pid = le_word (m 1), te_uid = le_word (m 2), te_comm = bytes_chars (m 3),
      te_src_ip = le_word (m 4), te_dst_ip = le_word (m 5), te_src_port = le_word (m 6), te_dst_port = le_word (m 7),
      te_af = le_word (m 8), te_action = le_word (m 9), te_pad = m 10, te_bytes_tx = le_word (m 11),
      te_bytes_rx = le_word (m 12)\<rparr>)"

definition syscall_event_members :: "ctype list" where
  "syscall_event_members = [Scalar 8, Scalar 4, Scalar 4, Array 16 1, Scalar 8, Array 3 8]"

definition syscall_event_bytes :: "(nat \<Rightarrow> u8) \<Rightarrow> syscall_event \<Rightarrow> u8 list" where
  "syscall_event_bytes gap ev = struct_image gap syscall_event_members
     [le_bytes 8 (se_timestamp_ns ev), le_bytes 4 (se_pid ev), le_bytes 4 (se_uid ev), char_bytes (se_comm ev),
      le_bytes 8 (se_syscall_nr ev), concat (map (le_bytes 8) (se_args ev))]"

definition syscall_event_read :: "u8 list \<Rightarrow> syscall_event" where
  "syscall_event_read obj = (let m = member_at syscall_event_members obj in
     \<lparr>se_timestamp_ns = le_word (m 0), se_pid = le_word (m 1), se_uid = le_word (m 2), se_comm = bytes_chars (m 3),
      se_syscall_nr = le_word (m 4), se_args = map (\<lambda>k. le_word (take 8 (drop (8 * k) (m 5)))) [0, 1, 2]\<rparr>)"

definition net_stats_key_bytes :: "(nat \<Rightarrow> u8) \<Rightarrow> net_stats_key \<Rightarrow> u8 list" where
  "net_stats_key_bytes gap k = struct_image gap [Scalar 1, Array 3 1] [le_bytes 1 (nk_proto k), nk_pad k]"

section \<open>Lemmas\<close>

lemma length_le_bytes [simp]: "length (le_bytes n w) = n"
  by (induction n arbitrary: w) auto

lemma le_word_le_bytes: "8 * n = LENGTH('a) \<Longrightarrow> le_word (le_bytes n w) = (w :: 'a :: len word)"
proof -
  have bit: "bit (le_word (le_bytes n w) :: 'a word) i \<longleftrightarrow> i < 8 * n \<and> bit w i" for i and w :: "'a word"
  proof (induction n arbitrary: w i)
    case (Suc n)
    have "bit w i \<Longrightarrow> i < LENGTH('a)" by (rule bit_imp_le_length)
    with Suc [of "drop_bit 8 w" "i - 8"] show ?case
      by (auto simp: bit_or_iff bit_push_bit_iff bit_ucast_iff bit_drop_bit_eq not_le)
  qed simp
  assume "8 * n = LENGTH('a)"
  with bit show ?thesis by (auto intro: bit_word_eqI)
qed

lemma bytes_chars_char_bytes [simp]: "bytes_chars (char_bytes cs) = cs"
proof -
  have "char_of (unat (word_of_nat (of_char c) :: u8)) = c" for c
    by (simp add: unat_of_nat take_bit_nat_eq_self)
  then show ?thesis by (simp add: bytes_chars_def char_bytes_def comp_def)
qed

lemma length_char_bytes [simp]: "length (char_bytes cs) = length cs"
  by (simp add: char_bytes_def)

text \<open>A member read at its offset is the member written, whatever lies between the members.\<close>

lemma align_up_ge: "n \<le> align_up n a"
  by (simp add: align_up_def)

lemma offsets_ge: "i < length ts \<Longrightarrow> n \<le> offsets n ts ! i"
proof (induction ts arbitrary: n i)
  case (Cons t ts)
  show ?case
  proof (cases i)
    case (Suc k)
    with Cons.IH [of k "align_up n (align_of t) + size_of t"] Cons.prems align_up_ge [of n "align_of t"]
    show ?thesis by simp
  qed (simp add: align_up_ge)
qed simp

lemma member_of_image:
  assumes "\<forall>(t, bs)\<in>set ms. length bs = size_of t" and "i < length ms"
  shows "take (size_of (fst (ms ! i))) (drop (offsets n (map fst ms) ! i - n) (members_image gap n ms @ rest))
           = snd (ms ! i)"
  using assms
proof (induction ms arbitrary: n i)
  case (Cons m ms)
  obtain t bs where m: "m = (t, bs)" by (cases m)
  let ?n = "align_up n (align_of t)"
  show ?case
  proof (cases i)
    case 0
    then show ?thesis using Cons.prems align_up_ge [of n "align_of t"] by (simp add: m)
  next
    case (Suc k)
    let ?o = "offsets (?n + size_of t) (map fst ms) ! k"
    have "?n + size_of t \<le> ?o" using offsets_ge [of k "map fst ms"] Cons.prems Suc by simp
    then have "?o - n = (?n - n) + (length bs + (?o - (?n + size_of t)))"
      using Cons.prems align_up_ge [of n "align_of t"] by (simp add: m)
    with Cons.IH [of k "?n + size_of t"] Cons.prems Suc show ?thesis by (simp add: m)
  qed
qed simp

lemma member_at_struct_image:
  assumes "map length bss = map size_of ts" and "i < length ts"
  shows "member_at ts (struct_image gap ts bss) i = bss ! i"
proof -
  have len: "length ts = length bss" using assms(1) by (metis length_map)
  have "\<forall>(t, bs)\<in>set (zip ts bss). length bs = size_of t"
    using assms(1) by (auto simp: in_set_zip list_eq_iff_nth_eq)
  from member_of_image [OF this, of i 0] show ?thesis
    using len assms(2) by (simp add: member_at_def struct_image_def)
qed

text \<open>The arrays of the structures have the lengths the declarations give them.\<close>

definition tcp_event_wf :: "tcp_event \<Rightarrow> bool" where
  "tcp_event_wf ev \<longleftrightarrow> length (te_comm ev) = 16 \<and> length (te_pad ev) = 2"

definition syscall_event_wf :: "syscall_event \<Rightarrow> bool" where
  "syscall_event_wf ev \<longleftrightarrow> length (se_comm ev) = 16 \<and> length (se_args ev) = 3"

definition net_stats_key_wf :: "net_stats_key \<Rightarrow> bool" where
  "net_stats_key_wf k \<longleftrightarrow> length (nk_pad k) = 3"

lemmas layout = struct_image_def struct_size_def align_up_def upt_rec

lemma struct_sizes:
  "struct_size tcp_event_members = 64" "struct_size syscall_event_members = 64"
  "offsets 0 tcp_event_members = [0, 8, 12, 16, 32, 36, 40, 42, 44, 45, 46, 48, 56]"
  "offsets 0 syscall_event_members = [0, 8, 12, 16, 32, 40]"
  by (simp_all add: struct_size_def align_up_def tcp_event_members_def syscall_event_members_def)

text \<open>No structure has a hole: the bytes are those of the members, one after another.\<close>

lemma tcp_event_packed:
  "tcp_event_wf ev \<Longrightarrow> tcp_event_bytes gap ev = tcp_event_bytes gap' ev \<and> length (tcp_event_bytes gap ev) = 64"
  by (simp add: tcp_event_bytes_def tcp_event_members_def layout tcp_event_wf_def)

lemma syscall_event_packed:
  "syscall_event_wf ev \<Longrightarrow>
     syscall_event_bytes gap ev = syscall_event_bytes gap' ev \<and> length (syscall_event_bytes gap ev) = 64"
  by (simp add: syscall_event_bytes_def syscall_event_members_def layout syscall_event_wf_def
      length_concat comp_def sum_list_triv)

lemma net_stats_key_bytes_eq:
  assumes "net_stats_key_wf k" and "net_stats_key_wf k'"
  shows "net_stats_key_bytes gap k = net_stats_key_bytes gap' k' \<longleftrightarrow> k = k'"
proof -
  have b: "net_stats_key_bytes g x = nk_proto x # nk_pad x" if "net_stats_key_wf x" for g and x :: net_stats_key
    using that by (simp add: net_stats_key_bytes_def layout net_stats_key_wf_def)
  show ?thesis using b [OF assms(1)] b [OF assms(2)] by auto
qed

lemma tcp_event_read_bytes:
  assumes "tcp_event_wf ev"
  shows "tcp_event_read (tcp_event_bytes gap ev) = ev"
proof -
  have "member_at tcp_event_members (tcp_event_bytes gap ev) i =
     [le_bytes 8 (te_timestamp_ns ev), le_bytes 4 (te_pid ev), le_bytes 4 (te_uid ev), char_bytes (te_comm ev),
      le_bytes 4 (te_src_ip ev), le_bytes 4 (te_dst_ip ev), le_bytes 2 (te_src_port ev), le_bytes 2 (te_dst_port ev),
      le_bytes 1 (te_af ev), le_bytes 1 (te_action ev), te_pad ev, le_bytes 8 (te_bytes_tx ev),
      le_bytes 8 (te_bytes_rx ev)] ! i" if "i < 13" for i
    unfolding tcp_event_bytes_def using assms that
    by (intro member_at_struct_image) (simp_all add: tcp_event_members_def tcp_event_wf_def)
  then show ?thesis
    by (simp add: tcp_event_read_def Let_def le_word_le_bytes del: le_bytes.simps le_word.simps)
qed

lemma syscall_event_read_bytes:
  assumes "syscall_event_wf ev"
  shows "syscall_event_read (syscall_event_bytes gap ev) = ev"
proof -
  have "length (se_args ev) = 3" using assms by (simp add: syscall_event_wf_def)
  then obtain a b c where args: "se_args ev = [a, b, c]"
    by (auto simp: numeral_3_eq_3 length_Suc_conv)
  have "member_at syscall_event_members (syscall_event_bytes gap ev) i =
     [le_bytes 8 (se_timestamp_ns ev), le_bytes 4 (se_pid ev), le_bytes 4 (se_uid ev), char_bytes (se_comm ev),
      le_bytes 8 (se_syscall_nr ev), concat (map (le_bytes 8) (se_args ev))] ! i" if "i < 6" for i
    unfolding syscall_event_bytes_def using assms that
    by (intro member_at_struct_image)
       (simp_all add: syscall_event_members_def syscall_event_wf_def args)
  then show ?thesis
    by (simp add: syscall_event_read_def Let_def le_word_le_bytes args [symmetric] del: le_bytes.simps le_word.simps)
       (simp add: args le_word_le_bytes del: le_bytes.simps le_word.simps)
qed

end
