(* ===== verification/Async_Server.thy ===== *)
theory Async_Server
  imports Std_Text Aggregation
begin

text \<open>
  \<open>src/src/http/async_server.h\<close>: the HTTP server over edge-triggered epoll. The kernel is not
  part of the repository: what its calls return is an input of each operation (the results of
  \<open>read\<close>, \<open>accept4\<close>, \<open>epoll_wait\<close> and of the set-up calls), and the calls the server makes
  that matter to the outside, opening, registering, writing and closing descriptors, are
  appended to the trace \<open>sv_sys\<close>. The route handler is a parameter.
\<close>

section \<open>Definitions\<close>

datatype errno = EAGAIN | EWOULDBLOCK | ECONNRESET | Other_errno

text \<open>The result of one \<open>read\<close>: \<open>n > 0\<close> bytes, end of file, or an error.\<close>

datatype read_result = Data string | Eof | Err errno

text \<open>The exceptions the server throws.\<close>

datatype http_error =
  Socket_failed | Bind_failed | Listen_failed | Epoll_create_failed | Epoll_add_failed | Eventfd_failed
  | Getfl_failed | Setfl_failed

datatype sys =
    Opened int
  | Bound int u16
  | Epoll_Add int
  | Epoll_Del int
  | Written int string
  | Closed int

record AsyncHttpServer =
  sv_listen_fd :: int
  sv_epoll_fd :: int
  sv_stop_fd :: int
  sv_port :: u16
  sv_running :: bool
  sv_read_bufs :: "(int \<times> string) list"
  sv_sys :: "sys list"

type_synonym RouteHandler = "string \<Rightarrow> string"

definition AsyncHttpServer_ctor :: "u16 \<Rightarrow> AsyncHttpServer" where
  "AsyncHttpServer_ctor port = \<lparr>sv_listen_fd = - 1, sv_epoll_fd = - 1, sv_stop_fd = - 1, sv_port = port,
     sv_running = False, sv_read_bufs = [], sv_sys = []\<rparr>"

abbreviation emit :: "sys list \<Rightarrow> AsyncHttpServer \<Rightarrow> AsyncHttpServer" where
  "emit c s \<equiv> s\<lparr>sv_sys := sv_sys s @ c\<rparr>"

abbreviation CRLF :: string where
  "CRLF \<equiv> [CHR 0x0D, CHR 0x0A]"

definition parse_path :: "string \<Rightarrow> string" where
  "parse_path req =
     (case string_find (CHR '' '') req 0 of
        None \<Rightarrow> ''''
      | Some sp1 \<Rightarrow>
          (case string_find (CHR '' '') req (sp1 + 1) of
             None \<Rightarrow> ''''
           | Some sp2 \<Rightarrow> substr req (sp1 + 1) (sp2 - sp1 - 1)))"

definition build_response :: "nat \<Rightarrow> string \<Rightarrow> string \<Rightarrow> string" where
  "build_response status content_type body =
     (let reason = (if status = 200 then ''OK'' else ''Not Found'')
      in ''HTTP/1.1 '' @ to_string status @ '' '' @ reason @ CRLF @ ''Content-Type: '' @ content_type @ CRLF @
         ''Content-Length: '' @ to_string (length body) @ CRLF @ ''Connection: close'' @ CRLF @ CRLF @ body)"

text \<open>\<open>epoll_ctl\<close> returned \<open>result\<close>.\<close>

definition epoll_add :: "int \<Rightarrow> int \<Rightarrow> AsyncHttpServer \<Rightarrow> (http_error + unit) \<times> AsyncHttpServer" where
  "epoll_add fd result s = (if result < 0 then (Inl Epoll_add_failed, s) else (Inr (), emit [Epoll_Add fd] s))"

definition epoll_del :: "int \<Rightarrow> AsyncHttpServer \<Rightarrow> AsyncHttpServer" where
  "epoll_del fd s = emit [Epoll_Del fd] s"

definition close_client :: "int \<Rightarrow> AsyncHttpServer \<Rightarrow> AsyncHttpServer" where
  "close_client fd s =
     (let s1 = epoll_del fd s;
          s2 = s1\<lparr>sv_read_bufs := filter (\<lambda>x. fst x \<noteq> fd) (sv_read_bufs s1)\<rparr>
      in emit [Closed fd] s2)"

text \<open>
  The read loop of \<open>handle_client\<close> over the results of the successive reads: \<open>Some (Some buf)\<close>
  when it leaves the loop with \<open>buf\<close> to answer, \<open>Some None\<close> when the connection is to be
  closed unanswered, \<open>None\<close> when it asks for another read.
\<close>

fun read_loop :: "string \<Rightarrow> read_result list \<Rightarrow> string option option" where
  "read_loop buf [] = None"
| "read_loop buf (Data tmp # rs) =
     (let buf' = buf @ tmp in if contains (CRLF @ CRLF) buf' then Some (Some buf') else read_loop buf' rs)"
| "read_loop buf (Eof # rs) = Some None"
| "read_loop buf (Err e # rs) =
     (if e = ECONNRESET then Some None
      else if e = EAGAIN \<or> e = EWOULDBLOCK then Some (Some buf)
      else Some None)"

definition content_type :: "string \<Rightarrow> string" where
  "content_type path =
     (if path = ''/metrics'' then ''text/plain; version=0.0.4; charset=utf-8'' else ''application/json'')"

text \<open>The answer to the bytes received so far.\<close>

definition respond :: "RouteHandler option \<Rightarrow> string \<Rightarrow> string" where
  "respond handler buf =
     (let path = parse_path buf;
          body = (case handler of None \<Rightarrow> ''Not Found'' | Some h \<Rightarrow> h path)
      in build_response (if path = '''' \<or> body = '''' then 404 else 200) (content_type path) body)"

definition handle_client ::
  "RouteHandler option \<Rightarrow> int \<Rightarrow> read_result list \<Rightarrow> AsyncHttpServer \<Rightarrow> AsyncHttpServer option" where
  "handle_client handler fd reads s =
     (case read_loop (entry (sv_read_bufs s) fd '''') reads of
        None \<Rightarrow> None
      | Some None \<Rightarrow> Some (close_client fd s)
      | Some (Some buf) \<Rightarrow>
          Some (close_client fd
            (emit [Written fd (respond handler buf)]
              (s\<lparr>sv_read_bufs := upsert fd '''' (\<lambda>_. buf) (sv_read_bufs s)\<rparr>))))"

text \<open>
  \<open>accept_clients\<close>: the results of the successive \<open>accept4\<close> calls, each with the result of
  the \<open>epoll_ctl\<close> that follows it; after the last of them \<open>accept4\<close> fails. \<open>Inl\<close> is the exception \<open>epoll_add\<close> throws.
\<close>

fun accept_clients :: "(int \<times> int) list \<Rightarrow> AsyncHttpServer \<Rightarrow> (http_error + unit) \<times> AsyncHttpServer" where
  "accept_clients [] s = (Inr (), s)"
| "accept_clients ((client, added) # rs) s =
     (if client < 0 then (Inr (), s)
      else case epoll_add client added (emit [Opened client] s) of
        (Inl err, s') \<Rightarrow> (Inl err, s')
      | (Inr u, s') \<Rightarrow> accept_clients rs s')"

text \<open>The results of the calls \<open>start\<close> makes.\<close>

record start_results =
  st_socket :: int
  st_bind :: int
  st_listen :: int
  st_epoll_create :: int
  st_add_listen :: int
  st_eventfd :: int
  st_add_stop :: int

definition opened :: "int \<Rightarrow> sys list" where
  "opened fd = (if fd < 0 then [] else [Opened fd])"

definition start :: "start_results \<Rightarrow> AsyncHttpServer \<Rightarrow> (http_error + unit) \<times> AsyncHttpServer" where
  "start r s0 =
     (let s1 = emit (opened (st_socket r)) (s0\<lparr>sv_listen_fd := st_socket r\<rparr>) in
      if st_socket r < 0 then (Inl Socket_failed, s1)
      else if st_bind r < 0 then (Inl Bind_failed, s1)
      else
        let s2 = emit [Bound (st_socket r) (sv_port s1)] s1 in
        if st_listen r < 0 then (Inl Listen_failed, s2)
        else
          let s3 = emit (opened (st_epoll_create r)) (s2\<lparr>sv_epoll_fd := st_epoll_create r\<rparr>) in
          if st_epoll_create r < 0 then (Inl Epoll_create_failed, s3)
          else case epoll_add (st_socket r) (st_add_listen r) s3 of
            (Inl err, s4) \<Rightarrow> (Inl err, s4)
          | (Inr u, s4) \<Rightarrow>
              (let s5 = emit (opened (st_eventfd r)) (s4\<lparr>sv_stop_fd := st_eventfd r\<rparr>) in
               if st_eventfd r < 0 then (Inl Eventfd_failed, s5)
               else case epoll_add (st_eventfd r) (st_add_stop r) s5 of
                 (Inl err, s6) \<Rightarrow> (Inl err, s6)
               | (Inr u, s6) \<Rightarrow> (Inr (), s6\<lparr>sv_running := True\<rparr>)))"

text \<open>\<open>if (fd >= 0) close(fd)\<close>.\<close>

definition close_fd :: "int \<Rightarrow> sys list" where
  "close_fd fd = (if fd \<ge> 0 then [Closed fd] else [])"

text \<open>The three closing statements at the end of \<open>run\<close> and of the destructor.\<close>

definition close_all :: "AsyncHttpServer \<Rightarrow> AsyncHttpServer" where
  "close_all s = (emit (close_fd (sv_listen_fd s) @ close_fd (sv_epoll_fd s) @ close_fd (sv_stop_fd s)) s)
     \<lparr>sv_listen_fd := - 1, sv_epoll_fd := - 1, sv_stop_fd := - 1\<rparr>"

text \<open>One event of \<open>epoll_wait\<close>, with what the calls made while handling it return.\<close>

record http_event =
  ev_fd :: int
  ev_accepts :: "(int \<times> int) list"
  ev_reads :: "read_result list"

text \<open>
  The inner loop of \<open>run\<close> over one batch; \<open>None\<close> while a client keeps it reading.
\<close>

fun run_batch :: "RouteHandler option \<Rightarrow> http_event list \<Rightarrow> AsyncHttpServer \<Rightarrow>
    ((http_error + unit) \<times> AsyncHttpServer) option" where
  "run_batch handler [] s = Some (Inr (), s)"
| "run_batch handler (e # es) s =
     (if ev_fd e = sv_stop_fd s then Some (Inr (), s\<lparr>sv_running := False\<rparr>)
      else if ev_fd e = sv_listen_fd s then
        (case accept_clients (ev_accepts e) s of
           (Inl err, s') \<Rightarrow> Some (Inl err, s')
         | (Inr u, s') \<Rightarrow> run_batch handler es s')
      else
        (case handle_client handler (ev_fd e) (ev_reads e) s of
           None \<Rightarrow> None
         | Some s' \<Rightarrow> run_batch handler es s'))"

text \<open>
  \<open>run\<close> over the batches the successive \<open>epoll_wait\<close> calls deliver (empty on a timeout or an
  error); \<open>None\<close> if it is still running when they are used up.
\<close>

fun run :: "RouteHandler option \<Rightarrow> http_event list list \<Rightarrow> AsyncHttpServer \<Rightarrow>
    ((http_error + unit) \<times> AsyncHttpServer) option" where
  "run handler batches s =
     (if \<not> sv_running s then Some (Inr (), close_all s)
      else case batches of
        [] \<Rightarrow> None
      | b # bs \<Rightarrow>
          (case run_batch handler b s of
             None \<Rightarrow> None
           | Some (Inl err, s') \<Rightarrow> Some (Inl err, s')
           | Some (Inr u, s') \<Rightarrow> run handler bs s'))"

declare run.simps [simp del]

text \<open>\<open>stop\<close> writes the eight bytes of the number 1, which makes the stop descriptor readable.\<close>

definition stop :: "AsyncHttpServer \<Rightarrow> AsyncHttpServer" where
  "stop s = (if sv_stop_fd s \<ge> 0 \<and> sv_running s then emit [Written (sv_stop_fd s) (CHR 0x01 # replicate 7 (CHR 0x00))] s else s)"

definition AsyncHttpServer_dtor :: "AsyncHttpServer \<Rightarrow> AsyncHttpServer" where
  "AsyncHttpServer_dtor s = close_all (stop s)"

definition is_running :: "AsyncHttpServer \<Rightarrow> bool" where
  "is_running s = sv_running s"

definition server_port :: "AsyncHttpServer \<Rightarrow> u16" where
  "server_port s = sv_port s"

text \<open>
  \<open>set_nonblocking\<close>, which no other member calls: the flags \<open>F_GETFL\<close> returned and the result of
  \<open>F_SETFL\<close> are arguments, the value is the flags that were set.
\<close>

definition O_NONBLOCK :: int where
  "O_NONBLOCK = 2048"

definition set_nonblocking :: "int \<Rightarrow> int \<Rightarrow> http_error + int" where
  "set_nonblocking flags set_result =
     (if flags < 0 then Inl Getfl_failed
      else if set_result < 0 then Inl Setfl_failed
      else Inr (or flags O_NONBLOCK))"

section \<open>Lemmas\<close>

declare epoll_add_def [simp]

lemma parse_path_request:
  assumes "CHR '' '' \<notin> set m" and "CHR '' '' \<notin> set p"
  shows "parse_path (m @ CHR '' '' # p @ CHR '' '' # rest) = p"
proof -
  have "string_find (CHR '' '') (m @ CHR '' '' # p @ CHR '' '' # rest) 0 = Some (length m)"
    using assms(1) by (simp add: string_find_def find_from_first)
  moreover have "string_find (CHR '' '') (m @ CHR '' '' # p @ CHR '' '' # rest) (length m + 1)
      = Some (length m + 1 + length p)"
    using assms(2) by (simp add: string_find_def find_from_first)
  ultimately show ?thesis by (simp add: parse_path_def substr_def)
qed

text \<open>A client's view of a response: the header lines up to the empty one, and the body.\<close>

lemma length_cut: "s \<noteq> [] \<Longrightarrow> length (tl (snd (cut c s))) < length s"
  using length_dropWhile_le [of "\<lambda>x. x \<noteq> c" s] by (cases s) (auto simp: cut_def)

function http_lines :: "string \<Rightarrow> string list \<times> string" where
  "http_lines s =
     (let (l, r) = cut (CHR 0x0D) s
      in if l = [] then ([], tl r) else let (ls, body) = http_lines (tl r) in (l # ls, body))"
  by pat_completeness auto
termination
proof (relation "measure length")
  fix s x l r
  assume a: "x = cut (CHR 0x0D) s" "(l, r) = x" "l \<noteq> []"
  then have "s \<noteq> []" by (auto simp: cut_def)
  then show "(tl r, s) \<in> measure length" using a length_cut [of s "CHR 0x0D"] by (metis in_measure snd_conv)
qed simp

declare http_lines.simps [simp del]

lemma http_lines_Cons:
  "l \<noteq> [] \<Longrightarrow> CHR 0x0D \<notin> set l \<Longrightarrow> http_lines (l @ CRLF @ s) = (l # fst (http_lines s), snd (http_lines s))"
  by (subst http_lines.simps) (simp add: case_prod_beta)

lemma http_lines_end: "http_lines (CRLF @ s) = ([], s)"
  using cut_append [of "CHR 0x0D" "[]" "CHR 0x0A # s"] by (subst http_lines.simps) simp

lemma http_lines_response:
  "list_all (\<lambda>l. l \<noteq> [] \<and> CHR 0x0D \<notin> set l) ls \<Longrightarrow>
     http_lines (concat (map (\<lambda>l. l @ CRLF) ls) @ CRLF @ body) = (ls, body)"
proof (induction ls)
  case Nil then show ?case using http_lines_end [of body] by simp
next
  case (Cons l ls)
  then have "http_lines (l @ CRLF @ concat (map (\<lambda>l. l @ CRLF) ls) @ CRLF @ body) = (l # ls, body)"
    by (subst http_lines_Cons) simp_all
  then show ?case by simp
qed

definition closes :: "sys list \<Rightarrow> int list" where
  "closes tr = concat (map (\<lambda>c. case c of Closed fd \<Rightarrow> [fd] | _ \<Rightarrow> []) tr)"

definition opens :: "sys list \<Rightarrow> int list" where
  "opens tr = concat (map (\<lambda>c. case c of Opened fd \<Rightarrow> [fd] | _ \<Rightarrow> []) tr)"

lemma closes_simps [simp]:
  "closes [] = []" "closes (xs @ ys) = closes xs @ closes ys"
  "closes (Closed fd # xs) = fd # closes xs" "closes (Opened fd # xs) = closes xs"
  "closes (Epoll_Add fd # xs) = closes xs" "closes (Epoll_Del fd # xs) = closes xs"
  "closes (Written fd b # xs) = closes xs" "closes (Bound fd p # xs) = closes xs"
  by (simp_all add: closes_def)

lemma opens_simps [simp]:
  "opens [] = []" "opens (xs @ ys) = opens xs @ opens ys"
  "opens (Opened fd # xs) = fd # opens xs" "opens (Closed fd # xs) = opens xs"
  "opens (Epoll_Add fd # xs) = opens xs" "opens (Epoll_Del fd # xs) = opens xs"
  "opens (Written fd b # xs) = opens xs" "opens (Bound fd p # xs) = opens xs"
  by (simp_all add: opens_def)

lemma filter_upsert [simp]: "filter (\<lambda>x. fst x \<noteq> k) (upsert k d f m) = filter (\<lambda>x. fst x \<noteq> k) m"
  by (induction k d f m rule: upsert.induct) auto

text \<open>The loop ends when a read has no data.\<close>

lemma read_loop_ends: "\<exists>r\<in>set rs. \<forall>d. r \<noteq> Data d \<Longrightarrow> read_loop buf rs \<noteq> None"
  by (induction buf rs rule: read_loop.induct) (auto simp: Let_def)

lemma read_loop_pieces:
  assumes "contains (CRLF @ CRLF) (buf @ concat ps)" and "ps \<noteq> []"
    and "\<forall>k < length ps. \<not> contains (CRLF @ CRLF) (buf @ concat (take k ps))"
  shows "read_loop buf (map Data ps @ rs) = Some (Some (buf @ concat ps))"
  using assms
proof (induction ps arbitrary: buf)
  case (Cons p ps)
  show ?case
  proof (cases "ps = []")
    case False
    have "\<not> contains (CRLF @ CRLF) ((buf @ p) @ concat (take k ps))" if "k < length ps" for k
      using Cons.prems(3) [rule_format, of "Suc k"] that by simp
    moreover from this [of 0] have "\<not> contains (CRLF @ CRLF) (buf @ p)" using False by simp
    ultimately show ?thesis
      using Cons.IH [of "buf @ p"] Cons.prems(1) False by simp
  qed (use Cons.prems in simp)
qed simp

lemma read_loop_blocked:
  assumes "\<forall>k \<le> length ps. \<not> contains (CRLF @ CRLF) (buf @ concat (take k ps))"
  shows "read_loop buf (map Data ps @ Err EAGAIN # rs) = Some (Some (buf @ concat ps))"
  using assms
proof (induction ps arbitrary: buf)
  case (Cons p ps)
  have "\<not> contains (CRLF @ CRLF) ((buf @ p) @ concat (take k ps))" if "k \<le> length ps" for k
    using Cons.prems [rule_format, of "Suc k"] that by simp
  with this [of 0] Cons.IH [of "buf @ p"] show ?case by simp
qed simp

lemma parse_path_few_spaces: "length (filter (\<lambda>c. c = CHR '' '') s) < 2 \<Longrightarrow> parse_path s = ''''"
proof (cases "string_find (CHR '' '') s 0")
  case (Some i)
  assume few: "length (filter (\<lambda>c. c = CHR '' '') s) < 2"
  from Some obtain xs ys where s: "s = xs @ CHR '' '' # ys" "i = length xs"
    by (auto simp: string_find_def dest: find_from_Some)
  with few have "filter (\<lambda>c. c = CHR '' '') ys = []" by simp
  then have "CHR '' '' \<notin> set ys" by (auto simp: filter_empty_conv)
  then have "string_find (CHR '' '') s (i + 1) = None" by (simp add: string_find_def s find_from_None)
  with Some show ?thesis by (simp add: parse_path_def)
qed (simp add: parse_path_def)

text \<open>Handling a client ends with its descriptor closed, whatever arrived.\<close>

lemma handle_client_closes:
  assumes "read_loop (entry (sv_read_bufs s) fd '''') reads = Some res"
  shows "handle_client handler fd reads s =
     Some (s\<lparr>sv_read_bufs := filter (\<lambda>x. fst x \<noteq> fd) (sv_read_bufs s),
             sv_sys := sv_sys s @ (case res of None \<Rightarrow> [] | Some buf \<Rightarrow> [Written fd (respond handler buf)])
               @ [Epoll_Del fd, Closed fd]\<rparr>)"
  using assms by (auto simp: handle_client_def close_client_def epoll_del_def Let_def split: option.split)

text \<open>What the kernel has to deliver for an event to be handled to its end.\<close>

fun no_data :: "read_result \<Rightarrow> bool" where
  "no_data (Data d) = False"
| "no_data _ = True"

definition event_ok :: "int \<Rightarrow> http_event \<Rightarrow> bool" where
  "event_ok listen_fd e \<longleftrightarrow>
     (if ev_fd e = listen_fd then list_all (\<lambda>(client, added). 0 \<le> added) (ev_accepts e)
      else list_ex no_data (ev_reads e))"

definition before_stop :: "int \<Rightarrow> http_event list \<Rightarrow> http_event list" where
  "before_stop stop_fd es = takeWhile (\<lambda>e. ev_fd e \<noteq> stop_fd) es"

definition client_fds :: "int \<Rightarrow> http_event list \<Rightarrow> int list" where
  "client_fds listen_fd es = map ev_fd (filter (\<lambda>e. ev_fd e \<noteq> listen_fd) es)"

lemma no_data_iff: "no_data r \<longleftrightarrow> (\<forall>d. r \<noteq> Data d)"
  by (cases r) auto

lemma accept_clients_effect:
  "list_all (\<lambda>(client, added). 0 \<le> added) rs \<Longrightarrow>
     \<exists>tr. accept_clients rs s = (Inr (), s\<lparr>sv_sys := sv_sys s @ tr\<rparr>) \<and> closes tr = []"
proof (induction rs s rule: accept_clients.induct)
  case (2 client added rs s)
  show ?case
  proof (cases "client < 0")
    case False
    with 2 obtain tr where
      "accept_clients rs (emit [Opened client, Epoll_Add client] s)
         = (Inr (), s\<lparr>sv_sys := sv_sys s @ [Opened client, Epoll_Add client] @ tr\<rparr>)" "closes tr = []"
      by auto
    with False 2(2) show ?thesis by (intro exI [of _ "[Opened client, Epoll_Add client] @ tr"]) auto
  qed (auto intro: exI [of _ "[]"])
qed (auto intro: exI [of _ "[]"])

lemma handle_client_effect:
  assumes "list_ex no_data reads" and "sv_read_bufs s = []"
  shows "\<exists>tr. handle_client handler fd reads s = Some (s\<lparr>sv_sys := sv_sys s @ tr\<rparr>) \<and> closes tr = [fd]"
proof -
  obtain res where "read_loop (entry (sv_read_bufs s) fd '''') reads = Some res"
    using assms(1) read_loop_ends [of reads] by (auto simp: list_ex_iff no_data_iff)
  from handle_client_closes [OF this] assms(2) show ?thesis
    by (intro exI [of _ "(case res of None \<Rightarrow> [] | Some buf \<Rightarrow> [Written fd (respond handler buf)])
          @ [Epoll_Del fd, Closed fd]"])
       (auto split: option.split)
qed

lemma run_batch_effect:
  assumes "\<forall>e\<in>set (before_stop (sv_stop_fd s) es). event_ok (sv_listen_fd s) e" and "sv_read_bufs s = []"
  shows "\<exists>tr. run_batch handler es s =
       Some (Inr (), s\<lparr>sv_running := (sv_running s \<and> (\<forall>e\<in>set es. ev_fd e \<noteq> sv_stop_fd s)),
                       sv_sys := sv_sys s @ tr\<rparr>) \<and>
     closes tr = client_fds (sv_listen_fd s) (before_stop (sv_stop_fd s) es)"
  using assms
proof (induction es arbitrary: s)
  case Nil
  show ?case by (rule exI [of _ "[]"]) (simp add: before_stop_def client_fds_def)
next
  case (Cons e es)
  show ?case
  proof (cases "ev_fd e = sv_stop_fd s")
    case True
    then show ?thesis by (intro exI [of _ "[]"]) (simp add: before_stop_def client_fds_def)
  next
    case False
    then have ok: "event_ok (sv_listen_fd s) e"
      and oks: "\<forall>e\<in>set (before_stop (sv_stop_fd s) es). event_ok (sv_listen_fd s) e"
      using Cons.prems(1) by (simp_all add: before_stop_def)
    have "\<exists>tr1. run_batch handler (e # es) s = run_batch handler es (s\<lparr>sv_sys := sv_sys s @ tr1\<rparr>) \<and>
        closes tr1 = (if ev_fd e = sv_listen_fd s then [] else [ev_fd e])"
    proof (cases "ev_fd e = sv_listen_fd s")
      case True
      then have "list_all (\<lambda>(client, added). 0 \<le> added) (ev_accepts e)" using ok by (simp add: event_ok_def)
      from accept_clients_effect [OF this, of s] obtain tr where
        "accept_clients (ev_accepts e) s = (Inr (), s\<lparr>sv_sys := sv_sys s @ tr\<rparr>)" "closes tr = []" by blast
      with True False show ?thesis by (intro exI [of _ tr]) simp
    next
      case not_listen: False
      then have "list_ex no_data (ev_reads e)" using ok by (simp add: event_ok_def)
      from handle_client_effect [OF this Cons.prems(2), of handler "ev_fd e"] obtain tr where
        "handle_client handler (ev_fd e) (ev_reads e) s = Some (s\<lparr>sv_sys := sv_sys s @ tr\<rparr>)"
        "closes tr = [ev_fd e]" by blast
      with not_listen False show ?thesis by (intro exI [of _ tr]) simp
    qed
    then obtain tr1 where step: "run_batch handler (e # es) s = run_batch handler es (s\<lparr>sv_sys := sv_sys s @ tr1\<rparr>)"
      and c1: "closes tr1 = (if ev_fd e = sv_listen_fd s then [] else [ev_fd e])" by blast
    note IH = Cons.IH [of "s\<lparr>sv_sys := sv_sys s @ tr1\<rparr>", simplified, OF oks Cons.prems(2)]
    then obtain tr2 where
      "run_batch handler es (s\<lparr>sv_sys := sv_sys s @ tr1\<rparr>) =
         Some (Inr (), s\<lparr>sv_running := (sv_running s \<and> (\<forall>e\<in>set es. ev_fd e \<noteq> sv_stop_fd s)),
                         sv_sys := sv_sys s @ tr1 @ tr2\<rparr>)"
      and "closes tr2 = client_fds (sv_listen_fd s) (before_stop (sv_stop_fd s) es)"
      by blast
    with step c1 False show ?thesis
      by (intro exI [of _ "tr1 @ tr2"]) (simp add: before_stop_def client_fds_def)
  qed
qed

lemma running_id: "sv_running s \<Longrightarrow> s\<lparr>sv_running := True, sv_sys := x\<rparr> = s\<lparr>sv_sys := x\<rparr>"
  by (cases s) simp

lemma run_effect:
  assumes "sv_running s" and "\<exists>e\<in>set (concat bs). ev_fd e = sv_stop_fd s"
    and "\<forall>e\<in>set (before_stop (sv_stop_fd s) (concat bs)). event_ok (sv_listen_fd s) e" and "sv_read_bufs s = []"
  shows "\<exists>tr. run handler bs s = Some (Inr (), close_all (s\<lparr>sv_running := False, sv_sys := sv_sys s @ tr\<rparr>)) \<and>
     closes tr = client_fds (sv_listen_fd s) (before_stop (sv_stop_fd s) (concat bs))"
  using assms
proof (induction bs arbitrary: s)
  case (Cons b bs)
  show ?case
  proof (cases "\<forall>e\<in>set b. ev_fd e \<noteq> sv_stop_fd s")
    case True
    then have split: "before_stop (sv_stop_fd s) (concat (b # bs)) = b @ before_stop (sv_stop_fd s) (concat bs)"
      and b: "before_stop (sv_stop_fd s) b = b"
      by (auto simp: before_stop_def)
    have "\<forall>e\<in>set (before_stop (sv_stop_fd s) b). event_ok (sv_listen_fd s) e"
      and oks: "\<forall>e\<in>set (before_stop (sv_stop_fd s) (concat bs)). event_ok (sv_listen_fd s) e"
      using Cons.prems(3) by (simp_all only: split b) simp_all
    from run_batch_effect [OF this(1) Cons.prems(4), of handler] obtain tr1 where
      tr1: "run_batch handler b s = Some (Inr (), s\<lparr>sv_sys := sv_sys s @ tr1\<rparr>)"
        "closes tr1 = client_fds (sv_listen_fd s) b"
      using True Cons.prems(1) by (simp only: b) (auto simp: running_id)
    have "\<exists>e\<in>set (concat bs). ev_fd e = sv_stop_fd s" using Cons.prems(2) True by auto
    from Cons.IH [of "s\<lparr>sv_sys := sv_sys s @ tr1\<rparr>", simplified, OF Cons.prems(1) this [simplified] oks Cons.prems(4)]
    obtain tr2 where
      "run handler bs (s\<lparr>sv_sys := sv_sys s @ tr1\<rparr>)
         = Some (Inr (), close_all (s\<lparr>sv_running := False, sv_sys := sv_sys s @ tr1 @ tr2\<rparr>))"
      "closes tr2 = client_fds (sv_listen_fd s) (before_stop (sv_stop_fd s) (concat bs))"
      by blast
    with tr1 split Cons.prems(1) show ?thesis
      by (intro exI [of _ "tr1 @ tr2"]) (simp add: run.simps [of handler "b # bs"] client_fds_def)
  next
    case False
    then have split: "before_stop (sv_stop_fd s) (concat (b # bs)) = before_stop (sv_stop_fd s) b"
      by (auto simp: before_stop_def)
    have "\<forall>e\<in>set (before_stop (sv_stop_fd s) b). event_ok (sv_listen_fd s) e"
      using Cons.prems(3) by (simp only: split)
    from run_batch_effect [OF this Cons.prems(4), of handler] obtain tr where
      "run_batch handler b s = Some (Inr (), s\<lparr>sv_running := False, sv_sys := sv_sys s @ tr\<rparr>)"
      "closes tr = client_fds (sv_listen_fd s) (before_stop (sv_stop_fd s) b)"
      using False by auto
    with split Cons.prems(1) show ?thesis
      by (intro exI [of _ tr]) (simp add: run.simps [of handler "b # bs"] run.simps [of handler bs])
  qed
qed simp

text \<open>Without a stop event the loop does not return.\<close>

lemma accept_clients_keeps:
  "sv_running (snd (accept_clients rs s)) = sv_running s \<and>
   sv_stop_fd (snd (accept_clients rs s)) = sv_stop_fd s \<and> sv_listen_fd (snd (accept_clients rs s)) = sv_listen_fd s"
  by (induction rs s rule: accept_clients.induct) auto

lemma handle_client_keeps:
  "handle_client handler fd reads s = Some s' \<Longrightarrow>
     sv_running s' = sv_running s \<and> sv_stop_fd s' = sv_stop_fd s \<and> sv_listen_fd s' = sv_listen_fd s"
  by (auto simp: handle_client_def close_client_def epoll_del_def Let_def split: option.splits)

lemma run_batch_keeps:
  "run_batch handler es s = Some (Inr u, s') \<Longrightarrow> \<forall>e\<in>set es. ev_fd e \<noteq> sv_stop_fd s \<Longrightarrow>
     sv_running s' = sv_running s \<and> sv_stop_fd s' = sv_stop_fd s"
proof (induction es arbitrary: s)
  case (Cons e es)
  show ?case
  proof (cases "ev_fd e = sv_listen_fd s")
    case True
    then obtain v s1 where s1: "accept_clients (ev_accepts e) s = (Inr v, s1)"
      using Cons.prems by (cases "accept_clients (ev_accepts e) s") (auto split: sum.splits)
    with accept_clients_keeps [of "ev_accepts e" s]
    have "sv_running s1 = sv_running s" "sv_stop_fd s1 = sv_stop_fd s" by simp_all
    moreover have "run_batch handler es s1 = Some (Inr u, s')" using Cons.prems True s1 by simp
    ultimately show ?thesis using Cons.IH [of s1] Cons.prems(2) by simp
  next
    case False
    then obtain s1 where s1: "handle_client handler (ev_fd e) (ev_reads e) s = Some s1"
      using Cons.prems by (cases "handle_client handler (ev_fd e) (ev_reads e) s") auto
    with handle_client_keeps [OF s1]
    have "sv_running s1 = sv_running s" "sv_stop_fd s1 = sv_stop_fd s" by simp_all
    moreover have "run_batch handler es s1 = Some (Inr u, s')" using Cons.prems False s1 by simp
    ultimately show ?thesis using Cons.IH [of s1] Cons.prems(2) by simp
  qed
qed simp

lemma run_without_stop:
  "sv_running s \<Longrightarrow> \<forall>e\<in>set (concat bs). ev_fd e \<noteq> sv_stop_fd s \<Longrightarrow> run handler bs s \<noteq> Some (Inr u, s')"
proof (induction bs arbitrary: s)
  case Nil then show ?case by (simp add: run.simps)
next
  case (Cons b bs)
  show ?case
  proof (cases "run_batch handler b s")
    case (Some x)
    obtain res s1 where x: "x = (res, s1)" by fastforce
    show ?thesis
    proof (cases res)
      case (Inr v)
      with Some x run_batch_keeps [of handler b s v s1] Cons.prems
      have "sv_running s1" "sv_stop_fd s1 = sv_stop_fd s" by auto
      with Cons.IH [of s1] Cons.prems Some x Inr show ?thesis by (simp add: run.simps [of handler "b # bs"])
    qed (use Cons.prems Some x in \<open>simp add: run.simps [of handler "b # bs"]\<close>)
  qed (use Cons.prems in \<open>simp add: run.simps [of handler "b # bs"]\<close>)
qed

section \<open>Properties\<close>

text \<open>
  C14. A request is answered, however it is cut into reads. If the pieces read so far make up
  \<open>METHOD SP path SP ...\<close> and the last of them completes the blank line, the server writes
  one response, the handler's answer for exactly that path, with status 200 unless the path or
  the answer is empty and with the content type of the path; then it closes the connection and
  keeps nothing of it. Later reads are not made.
\<close>

theorem request_answered:
  assumes "sv_read_bufs s = []" and "ps \<noteq> []"
    and "concat ps = m @ CHR '' '' # path @ CHR '' '' # rest"
    and "CHR '' '' \<notin> set m" and "CHR '' '' \<notin> set path"
    and "contains (CRLF @ CRLF) (concat ps)"
    and "\<forall>k < length ps. \<not> contains (CRLF @ CRLF) (concat (take k ps))"
  shows "handle_client (Some h) fd (map Data ps @ later) s =
     Some (s\<lparr>sv_sys := sv_sys s @
       [Written fd (build_response (if path = '''' \<or> h path = '''' then 404 else 200) (content_type path) (h path)),
        Epoll_Del fd, Closed fd]\<rparr>)"
proof -
  have "read_loop (entry (sv_read_bufs s) fd '''') (map Data ps @ later) = Some (Some (concat ps))"
    using read_loop_pieces [of "''''" ps later] assms by simp
  from handle_client_closes [OF this, of "Some h"] assms(1) parse_path_request [OF assms(4,5), of rest]
  show ?thesis by (simp add: respond_def assms(3) Let_def)
qed

definition server_ex :: AsyncHttpServer where
  "server_ex = \<lparr>sv_listen_fd = 3, sv_epoll_fd = 4, sv_stop_fd = 5, sv_port = 9090, sv_running = True,
     sv_read_bufs = [], sv_sys = []\<rparr>"

theorem request_answered_witness:
  "handle_client (Some (\<lambda>path. path @ path)) 7
     [Data ''GET /hea'', Data (''lth HTTP/1.1'' @ CRLF @ CRLF), Data ''more''] server_ex =
   Some (server_ex\<lparr>sv_sys :=
     [Written 7 (build_response 200 ''application/json'' ''/health/health''), Epoll_Del 7, Closed 7]\<rparr>)"
proof -
  have "\<forall>k < length [''GET /hea'', ''lth HTTP/1.1'' @ CRLF @ CRLF].
      \<not> contains (CRLF @ CRLF) (concat (take k [''GET /hea'', ''lth HTTP/1.1'' @ CRLF @ CRLF]))"
    by (simp add: less_Suc_eq)
  then show ?thesis
    using request_answered [of server_ex "[''GET /hea'', ''lth HTTP/1.1'' @ CRLF @ CRLF]" "''GET''" "''/health''"
        "''HTTP/1.1'' @ CRLF @ CRLF" "\<lambda>path. path @ path" 7 "[Data ''more'']"]
    by (simp add: server_ex_def content_type_def)
qed

text \<open>
  C32. A response can be read back. A client that reads header lines up to the empty one and
  takes the rest as the body gets the status line, the content type, \<open>Content-Length\<close> with the
  exact length of the body, \<open>Connection: close\<close>, and the body unchanged, whatever bytes it
  contains.
\<close>

theorem response_roundtrip:
  assumes "CHR 0x0D \<notin> set ct"
  shows "http_lines (build_response status ct body) =
     ([''HTTP/1.1 '' @ to_string status @ '' '' @ (if status = 200 then ''OK'' else ''Not Found''),
       ''Content-Type: '' @ ct, ''Content-Length: '' @ to_string (length body), ''Connection: close''], body)"
proof -
  let ?ls = "[''HTTP/1.1 '' @ to_string status @ '' '' @ (if status = 200 then ''OK'' else ''Not Found''),
      ''Content-Type: '' @ ct, ''Content-Length: '' @ to_string (length body), ''Connection: close'']"
  have "build_response status ct body = concat (map (\<lambda>l. l @ CRLF) ?ls) @ CRLF @ body"
    by (simp add: build_response_def)
  moreover have "list_all (\<lambda>l. l \<noteq> [] \<and> CHR 0x0D \<notin> set l) ?ls"
    using assms by (simp add: not_digit_notin_to_string)
  ultimately show ?thesis by (simp only: http_lines_response)
qed

theorem response_roundtrip_witness:
  "http_lines (build_response 404 ''application/json'' ''Not Found'') =
     ([''HTTP/1.1 404 Not Found'', ''Content-Type: application/json'', ''Content-Length: 9'',
       ''Connection: close''], ''Not Found'')"
proof -
  have "to_string 404 = ''404''" and len: "to_string (length ''Not Found'') = ''9''" by code_simp+
  moreover have "CHR 0x0D \<notin> set ''application/json''" by simp
  ultimately show ?thesis
    using response_roundtrip [of "''application/json''" 404 "''Not Found''", unfolded len] by simp
qed


definition batches_ex :: "http_event list list" where
  "batches_ex = [[\<lparr>ev_fd = 3, ev_accepts = [(7, 0), (8, 0), (- 1, 0)], ev_reads = []\<rparr>], [],
     [\<lparr>ev_fd = 7, ev_accepts = [], ev_reads = [Data ''GET /health HTTP/1.1'', Err EAGAIN]\<rparr>,
      \<lparr>ev_fd = 5, ev_accepts = [], ev_reads = []\<rparr>]]"


text \<open>
  C33. The server's descriptors are released on every path. Whichever call of \<open>start\<close> fails,
  or none, the destructor closes exactly the descriptors that had been opened, each once; and
  after a \<open>run\<close> that closed them it closes nothing a second time.
\<close>

theorem server_fds_released:
  "closes (sv_sys (AsyncHttpServer_dtor (snd (start r (AsyncHttpServer_ctor port)))))
     = opens (sv_sys (snd (start r (AsyncHttpServer_ctor port)))) \<and>
   sv_sys (AsyncHttpServer_dtor (close_all s)) = sv_sys (close_all s)"
  by (auto simp: start_def AsyncHttpServer_ctor_def AsyncHttpServer_dtor_def stop_def close_all_def close_fd_def
      opened_def Let_def)



end
