(* ===== verification/Ebpf_Loader.thy ===== *)
theory Ebpf_Loader
  imports Std_Text
begin

text \<open>
  \<open>src/src/ebpf_loader.h\<close>: the classes that own libbpf objects, links and ring buffers, over a
  small model of C++ actions: an action changes the world and ends in a value, an exception,
  a call that never returns, or \<open>std::terminate\<close>. \<open>scoped\<close> is an object with automatic
  storage: its destructor runs when the block is left, by the end of the block or by an
  exception. libbpf is not part of the repository: what its calls return is the record
  \<open>libbpf\<close>, with objects named by path, programs and maps by name; the world records what is
  acquired and released.
\<close>

section \<open>Actions\<close>

text \<open>\<open>ebpf::Error\<close>, and the other exceptions derived from \<open>std::exception\<close>.\<close>

datatype exn = Error string | Std_exception string

datatype 'a outcome = Ok 'a | Throw exn | Blocked | Terminated

type_synonym ('w, 'a) act = "'w \<Rightarrow> 'a outcome \<times> 'w"

definition andThen :: "('w, 'a) act \<Rightarrow> ('a \<Rightarrow> ('w, 'b) act) \<Rightarrow> ('w, 'b) act" where
  "andThen m f w =
     (case m w of
        (Ok a, w') \<Rightarrow> f a w'
      | (Throw e, w') \<Rightarrow> (Throw e, w')
      | (Blocked, w') \<Rightarrow> (Blocked, w')
      | (Terminated, w') \<Rightarrow> (Terminated, w'))"

definition scoped :: "('w, 'r) act \<Rightarrow> ('r \<Rightarrow> ('w, unit) act) \<Rightarrow> ('r \<Rightarrow> ('w, 'a) act) \<Rightarrow> ('w, 'a) act" where
  "scoped ctor dtor body =
     andThen ctor (\<lambda>r w.
       case body r w of
         (Ok a, w1) \<Rightarrow> andThen (dtor r) (\<lambda>_ w2. (Ok a, w2)) w1
       | (Throw e, w1) \<Rightarrow> andThen (dtor r) (\<lambda>_ w2. (Throw e, w2)) w1
       | (Blocked, w1) \<Rightarrow> (Blocked, w1)
       | (Terminated, w1) \<Rightarrow> (Terminated, w1))"

fun finished :: "'a outcome \<Rightarrow> bool" where
  "finished (Ok a) = True"
| "finished (Throw e) = True"
| "finished _ = False"

section \<open>Resources\<close>

datatype resource = Object string | Link string | Ring_buffer string | Http_server | Http_thread

datatype call = Acquire resource | Release resource

record world =
  w_calls :: "call list"

record libbpf =
  bpf_object_open :: "string \<Rightarrow> bool"
  bpf_object_load :: "string \<Rightarrow> int"
  find_program_by_name :: "string \<Rightarrow> string \<Rightarrow> bool"
  program_attach_kprobe :: "string \<Rightarrow> string \<Rightarrow> bool"
  program_attach_tracepoint :: "string \<Rightarrow> string \<Rightarrow> string \<Rightarrow> bool"
  find_map_by_name :: "string \<Rightarrow> string \<Rightarrow> bool"
  map_update_elem :: "string \<Rightarrow> u32 \<Rightarrow> u32 \<Rightarrow> int"
  ring_buffer_new :: "string \<Rightarrow> bool"
  strerror :: "int \<Rightarrow> string"

abbreviation log_call :: "call \<Rightarrow> ('z world_scheme, unit) act" where
  "log_call c w \<equiv> (Ok (), w\<lparr>w_calls := w_calls w @ [c]\<rparr>)"

section \<open>The owning classes\<close>

text \<open>
  An object of these classes holds a pointer that may be null: \<open>None\<close>, or what it points to, a
  BPF object named by its path, a link by its program, a ring buffer by its map. Passing a
  null object to libbpf is undefined behaviour; the model lets it end the program.
\<close>

type_synonym handle = "string option"

definition BpfObject_ctor :: "libbpf \<Rightarrow> string \<Rightarrow> ('z world_scheme, handle) act" where
  \<open>BpfObject_ctor lib path w =
     (if \<not> bpf_object_open lib path then (Throw (Error (''bpf_object__open("'' @ path @ ''") failed'')), w)
      else
        let w1 = w\<lparr>w_calls := w_calls w @ [Acquire (Object path)]\<rparr>; err = bpf_object_load lib path
        in if err \<noteq> 0 then (Throw (Error (''bpf_object__load failed: '' @ strerror lib (- err))), w1)
           else (Ok (Some path), w1))\<close>

definition BpfObject_dtor :: "handle \<Rightarrow> ('z world_scheme, unit) act" where
  "BpfObject_dtor obj w = (case obj of None \<Rightarrow> (Ok (), w) | Some path \<Rightarrow> log_call (Release (Object path)) w)"

text \<open>The move constructor: the new object, and what is left in the old one.\<close>

definition BpfObject_move :: "handle \<Rightarrow> handle \<times> handle" where
  "BpfObject_move obj = (obj, None)"

definition BpfObject_get :: "handle \<Rightarrow> handle" where
  "BpfObject_get obj = obj"

definition attach_kprobe :: "libbpf \<Rightarrow> handle \<Rightarrow> string \<Rightarrow> string \<Rightarrow> ('z world_scheme, handle) act" where
  "attach_kprobe lib obj func_name prog_name w =
     (case obj of
        None \<Rightarrow> (Terminated, w)
      | Some path \<Rightarrow>
          if \<not> find_program_by_name lib path prog_name then (Throw (Error (''Program not found: '' @ prog_name)), w)
          else if \<not> program_attach_kprobe lib prog_name func_name
          then (Throw (Error (''attach_kprobe failed for '' @ func_name)), w)
          else (Ok (Some prog_name), w\<lparr>w_calls := w_calls w @ [Acquire (Link prog_name)]\<rparr>))"

definition attach_tracepoint ::
  "libbpf \<Rightarrow> handle \<Rightarrow> string \<Rightarrow> string \<Rightarrow> string \<Rightarrow> ('z world_scheme, handle) act" where
  "attach_tracepoint lib obj category name prog_name w =
     (case obj of
        None \<Rightarrow> (Terminated, w)
      | Some path \<Rightarrow>
          if \<not> find_program_by_name lib path prog_name then (Throw (Error (''Program not found: '' @ prog_name)), w)
          else if \<not> program_attach_tracepoint lib prog_name category name
          then (Throw (Error ''attach_tracepoint failed''), w)
          else (Ok (Some prog_name), w\<lparr>w_calls := w_calls w @ [Acquire (Link prog_name)]\<rparr>))"

definition find_map :: "libbpf \<Rightarrow> handle \<Rightarrow> string \<Rightarrow> ('z world_scheme, string) act" where
  "find_map lib obj name w =
     (case obj of
        None \<Rightarrow> (Terminated, w)
      | Some path \<Rightarrow>
          if \<not> find_map_by_name lib path name then (Throw (Error (''Map not found: '' @ name)), w) else (Ok name, w))"

text \<open>\<open>BpfLink\<close> takes over the link that attaching returned.\<close>

definition BpfLink_ctor :: "handle \<Rightarrow> ('z world_scheme, handle) act" where
  "BpfLink_ctor link w = (Ok link, w)"

definition BpfLink_dtor :: "handle \<Rightarrow> ('z world_scheme, unit) act" where
  "BpfLink_dtor link w = (case link of None \<Rightarrow> (Ok (), w) | Some prog \<Rightarrow> log_call (Release (Link prog)) w)"

definition BpfLink_move :: "handle \<Rightarrow> handle \<times> handle" where
  "BpfLink_move link = (link, None)"

definition BpfLink_get :: "handle \<Rightarrow> handle" where
  "BpfLink_get link = link"

definition BpfRingBuffer_ctor :: "libbpf \<Rightarrow> string \<Rightarrow> ('z world_scheme, handle) act" where
  "BpfRingBuffer_ctor lib rmap w =
     (if \<not> ring_buffer_new lib rmap then (Throw (Error ''ring_buffer__new failed''), w)
      else (Ok (Some rmap), w\<lparr>w_calls := w_calls w @ [Acquire (Ring_buffer rmap)]\<rparr>))"

definition BpfRingBuffer_dtor :: "handle \<Rightarrow> ('z world_scheme, unit) act" where
  "BpfRingBuffer_dtor rb w =
     (case rb of None \<Rightarrow> (Ok (), w) | Some rmap \<Rightarrow> log_call (Release (Ring_buffer rmap)) w)"

text \<open>\<open>poll\<close> passes the samples that have arrived to the callback, which returns 0, one after another.\<close>

definition BpfRingBuffer_poll :: "('e \<Rightarrow> 'w \<Rightarrow> 'w) \<Rightarrow> 'e list \<Rightarrow> 'w \<Rightarrow> 'w" where
  "BpfRingBuffer_poll cb samples w = fold cb samples w"

section \<open>Bracketed traces\<close>

text \<open>
  A trace in which every resource is released after those acquired while it was held, as
  brackets match, apart from the leaks: resources acquired and never released.
\<close>

inductive bracketed :: "resource list \<Rightarrow> call list \<Rightarrow> bool" where
  br_Nil: "bracketed [] []"
| br_leak: "bracketed [r] [Acquire r]"
| br_append: "bracketed l t \<Longrightarrow> bracketed l' t' \<Longrightarrow> bracketed (l @ l') (t @ t')"
| br_wrap: "bracketed l t \<Longrightarrow> bracketed l (Acquire r # t @ [Release r])"

text \<open>An action that, however it ends, leaves nothing held but leaks from \<open>L\<close>.\<close>

definition neat :: "resource set \<Rightarrow> ('z world_scheme, 'a) act \<Rightarrow> bool" where
  "neat L m \<longleftrightarrow> (\<forall>w res w'. m w = (res, w') \<longrightarrow> finished res \<longrightarrow>
     (\<exists>l t. w_calls w' = w_calls w @ t \<and> bracketed l t \<and> set l \<subseteq> L))"

lemma neatI:
  assumes "\<And>w res w'. m w = (res, w') \<Longrightarrow> finished res \<Longrightarrow>
     \<exists>l t. w_calls w' = w_calls w @ t \<and> bracketed l t \<and> set l \<subseteq> L"
  shows "neat L m"
  using assms by (auto simp: neat_def)

lemma neatD:
  assumes "neat L m" and "m w = (res, w')" and "finished res"
  shows "\<exists>l t. w_calls w' = w_calls w @ t \<and> bracketed l t \<and> set l \<subseteq> L"
  using assms unfolding neat_def by blast

lemma neat_silent: "(\<And>w. w_calls (snd (m w)) = w_calls w) \<Longrightarrow> neat L m"
  by (rule neatI, intro exI [of _ "[]"]) (auto intro: br_Nil, metis snd_conv)

lemma neat_andThen:
  assumes "neat L m" and "\<And>a. neat L (f a)"
  shows "neat L (andThen m f)"
proof (rule neatI)
  fix w res w' assume run: "andThen m f w = (res, w')" and fin: "finished res"
  obtain res1 w1 where m: "m w = (res1, w1)" by fastforce
  show "\<exists>l t. w_calls w' = w_calls w @ t \<and> bracketed l t \<and> set l \<subseteq> L"
  proof (cases res1)
    case (Ok a)
    then have "f a w1 = (res, w')" using run m by (simp add: andThen_def)
    from neatD [OF assms(2) this fin] obtain l2 t2 where
      2: "w_calls w' = w_calls w1 @ t2" "bracketed l2 t2" "set l2 \<subseteq> L" by blast
    have "finished res1" using Ok by simp
    from neatD [OF assms(1) m this] obtain l1 t1 where
      1: "w_calls w1 = w_calls w @ t1" "bracketed l1 t1" "set l1 \<subseteq> L" by blast
    then show ?thesis
      using 2 br_append [OF 1(2) 2(2)] by (intro exI [of _ "l1 @ l2"] exI [of _ "t1 @ t2"]) simp
  next
    case (Throw e)
    then have "res = Throw e" "w' = w1" using run m by (simp_all add: andThen_def)
    then show ?thesis using neatD [OF assms(1) m] Throw by simp
  qed (use run m fin in \<open>auto simp: andThen_def\<close>)
qed

section \<open>The contract of an owning class\<close>

text \<open>
  A class whose constructor acquires the resource that the object then owns, or throws having
  acquired nothing but what it leaks, and whose destructor, if it returns, releases what the
  object owns.
\<close>

locale raii =
  fixes ctor :: "('z world_scheme, 'r) act"
    and dtor :: "'r \<Rightarrow> ('z world_scheme, unit) act"
    and owned :: "'r \<Rightarrow> resource option"
    and leaks :: "resource set"
  assumes ctor_ok: "ctor w = (Ok r, w') \<Longrightarrow> \<exists>x. owned r = Some x \<and> w_calls w' = w_calls w @ [Acquire x]"
    and ctor_throw: "ctor w = (Throw e, w') \<Longrightarrow>
      \<exists>l t. w_calls w' = w_calls w @ t \<and> bracketed l t \<and> set l \<subseteq> leaks"
    and dtor_ok: "dtor r w = (Ok u, w') \<Longrightarrow>
      w_calls w' = w_calls w @ (case owned r of None \<Rightarrow> [] | Some x \<Rightarrow> [Release x])"
    and dtor_noexcept: "dtor r w \<noteq> (Throw e, w')"
begin

text \<open>A block that holds such an object is as neat as what it does with it.\<close>

lemma neat_scoped:
  assumes "\<And>r. neat L (body r)" and "leaks \<subseteq> L"
  shows "neat L (scoped ctor dtor body)"
proof (rule neatI)
  fix w out w' assume run: "scoped ctor dtor body w = (out, w')" and fin: "finished out"
  obtain res1 w1 where c: "ctor w = (res1, w1)" by fastforce
  show "\<exists>l t. w_calls w' = w_calls w @ t \<and> bracketed l t \<and> set l \<subseteq> L"
  proof (cases res1)
    case (Ok r)
    obtain res2 w2 where b: "body r w1 = (res2, w2)" by fastforce
    obtain res3 w3 where d: "dtor r w2 = (res3, w3)" by fastforce
    have "finished res2 \<and> (\<exists>u. res3 = Ok u) \<and> w' = w3"
      using run fin c Ok b d dtor_noexcept [of r w2]
      by (cases res2; cases res3) (auto simp: scoped_def andThen_def)
    then obtain u where 3: "res3 = Ok u" "finished res2" "w' = w3" by blast
    from neatD [OF assms(1) b 3(2)] obtain l t where
      t: "w_calls w2 = w_calls w1 @ t" "bracketed l t" "set l \<subseteq> L" by blast
    obtain x where x: "owned r = Some x" "w_calls w1 = w_calls w @ [Acquire x]" using ctor_ok c Ok by blast
    have "w_calls w3 = w_calls w @ (Acquire x # t @ [Release x])" using x t(1) dtor_ok d 3(1) by simp
    then show ?thesis using 3(3) br_wrap [OF t(2)] t(3) by blast
  next
    case (Throw e)
    then have "w' = w1" using run c by (simp add: scoped_def andThen_def)
    with ctor_throw c Throw assms(2) show ?thesis by blast
  qed (use run c fin in \<open>auto simp: scoped_def andThen_def\<close>)
qed

end

text \<open>A class with a move constructor, which passes on what is owned and leaves nothing behind.\<close>

locale movable_raii = raii ctor dtor owned leaks
  for ctor :: "('z world_scheme, 'r) act" and dtor :: "'r \<Rightarrow> ('z world_scheme, unit) act"
    and owned :: "'r \<Rightarrow> resource option" and leaks :: "resource set" +
  fixes move :: "'r \<Rightarrow> 'r \<times> 'r"
  assumes move_owner: "owned (fst (move r)) = owned r"
    and move_rest: "owned (snd (move r)) = None"
begin

text \<open>
  An object made inside a block and moved into one made there too: both are destroyed at the
  end of the block, the newer first, and the resource is released once.
\<close>

lemma neat_moved:
  assumes "\<And>r. neat L (body r)" and "leaks \<subseteq> L" and "\<And>r v. \<exists>u v'. dtor r v = (Ok u, v')"
  shows "neat L (andThen ctor (\<lambda>r. scoped (\<lambda>w. (Ok (snd (move r)), w)) dtor
     (\<lambda>_. scoped (\<lambda>w. (Ok (fst (move r)), w)) dtor body)))"
proof (rule neatI)
  fix w out w'
  assume run: "andThen ctor (\<lambda>r. scoped (\<lambda>w. (Ok (snd (move r)), w)) dtor
     (\<lambda>_. scoped (\<lambda>w. (Ok (fst (move r)), w)) dtor body)) w = (out, w')" and fin: "finished out"
  obtain res1 w1 where c: "ctor w = (res1, w1)" by fastforce
  show "\<exists>l t. w_calls w' = w_calls w @ t \<and> bracketed l t \<and> set l \<subseteq> L"
  proof (cases res1)
    case (Ok r)
    obtain res2 w2 where b: "body (fst (move r)) w1 = (res2, w2)" by fastforce
    obtain u3 w3 where d: "dtor (fst (move r)) w2 = (Ok u3, w3)" using assms(3) by blast
    obtain u4 w4 where e: "dtor (snd (move r)) w3 = (Ok u4, w4)" using assms(3) by blast
    have "finished res2 \<and> w' = w4"
      using run fin c Ok b d e by (cases res2) (auto simp: scoped_def andThen_def)
    moreover from this neatD [OF assms(1) b] obtain l t where
      t: "w_calls w2 = w_calls w1 @ t" "bracketed l t" "set l \<subseteq> L" by blast
    moreover obtain x where "owned r = Some x" "w_calls w1 = w_calls w @ [Acquire x]" using ctor_ok c Ok by blast
    ultimately have "w_calls w' = w_calls w @ (Acquire x # t @ [Release x])"
      using t(1) dtor_ok [OF d] dtor_ok [OF e] by (simp add: move_owner move_rest)
    then show ?thesis using br_wrap [OF t(2)] t(3) by blast
  next
    case (Throw e)
    then have "w' = w1" using run c by (simp add: andThen_def)
    with ctor_throw c Throw assms(2) show ?thesis by blast
  qed (use run c fin in \<open>auto simp: andThen_def\<close>)
qed

end

text \<open>The only leak: an object that opens but does not load.\<close>

definition load_leak :: "libbpf \<Rightarrow> string \<Rightarrow> resource set" where
  "load_leak lib path =
     (if bpf_object_open lib path \<and> bpf_object_load lib path \<noteq> 0 then {Object path} else {})"

interpretation bpf_object: movable_raii "BpfObject_ctor lib path" BpfObject_dtor "map_option Object" "load_leak lib path"
  BpfObject_move for lib path
proof unfold_locales
  fix w :: "'a world_scheme" and e w'
  assume "BpfObject_ctor lib path w = (Throw e, w')"
  then consider "w' = w"
    | "w_calls w' = w_calls w @ [Acquire (Object path)]" "load_leak lib path = {Object path}"
    by (auto simp: BpfObject_ctor_def load_leak_def Let_def split: if_splits)
  then show "\<exists>l t. w_calls w' = w_calls w @ t \<and> bracketed l t \<and> set l \<subseteq> load_leak lib path"
  proof cases
    case 1
    then show ?thesis using br_Nil by (intro exI [of _ "[]"]) simp
  next
    case 2
    then show ?thesis using br_leak [of "Object path"]
      by (intro exI [of _ "[Object path]"] exI [of _ "[Acquire (Object path)]"]) simp
  qed
qed (auto simp: BpfObject_ctor_def BpfObject_dtor_def BpfObject_move_def Let_def split: if_splits option.splits)

interpretation kprobe_link: movable_raii "andThen (attach_kprobe lib obj func prog) BpfLink_ctor" BpfLink_dtor
  "map_option Link" "{}" BpfLink_move for lib obj func prog
  by unfold_locales
     (auto simp: attach_kprobe_def BpfLink_ctor_def BpfLink_dtor_def BpfLink_move_def andThen_def
       split: if_splits option.splits intro: br_Nil)

interpretation tracepoint_link: movable_raii "andThen (attach_tracepoint lib obj cat name prog) BpfLink_ctor" BpfLink_dtor
  "map_option Link" "{}" BpfLink_move for lib obj cat name prog
  by unfold_locales
     (auto simp: attach_tracepoint_def BpfLink_ctor_def BpfLink_dtor_def BpfLink_move_def andThen_def
       split: if_splits option.splits intro: br_Nil)

interpretation ring_buffer: raii "andThen (find_map lib obj name) (BpfRingBuffer_ctor lib)" BpfRingBuffer_dtor
  "map_option Ring_buffer" "{}" for lib obj name
  by unfold_locales
     (auto simp: find_map_def BpfRingBuffer_ctor_def BpfRingBuffer_dtor_def andThen_def
       split: if_splits option.splits intro: br_Nil)

end
