(* ===== verification/Tcp_Tracer.thy ===== *)
theory Tcp_Tracer
  imports Events
begin

text \<open>
  \<open>src/bpf/tcp_tracer.bpf.c\<close>: the two probes on \<open>tcp_connect\<close> and \<open>tcp_close\<close>. Their state is
  the map \<open>pending_connects\<close>; the array map \<open>filters\<close> is read only here, so it appears as what a
  lookup in it returns. \<open>rb\<close> is the result of \<open>bpf_ringbuf_reserve\<close>: \<open>None\<close> when the ring
  buffer is full, otherwise the reserved memory with whatever it held. A probe returns the
  events it submits and the new map.
\<close>

section \<open>Definitions\<close>

definition AF_INET :: u8 where
  "AF_INET = 2"

text \<open>The fields of the kernel's socket the program reads; \<open>skc_dport\<close> is in network order.\<close>

record sock =
  skc_dport :: u16
  skc_num :: u16
  skc_rcv_saddr :: u32
  skc_daddr :: u32
  bytes_sent :: u64
  bytes_received :: u64

definition pending_connects :: "((u32 \<times> tcp_event) list, u32, tcp_event) bpf_hash" where
  "pending_connects = hash_ops 4096"

text \<open>The array map \<open>filters\<close> as the kernel creates it: two entries, zero-filled.\<close>

definition filters_init :: "u32 \<Rightarrow> u32 option" where
  "filters_init = (\<lambda>i. if i < 2 then Some 0 else None)"

declare filters_init_def [simp]

definition should_filter :: "(u32 \<Rightarrow> u32 option) \<Rightarrow> u32 \<Rightarrow> u16 \<Rightarrow> bool" where
  "should_filter filters pid dport =
     (if (case filters 0 of None \<Rightarrow> False | Some fpid \<Rightarrow> fpid \<noteq> 0 \<and> fpid \<noteq> pid) then True
      else if (case filters 1 of None \<Rightarrow> False | Some fport \<Rightarrow> fport \<noteq> 0 \<and> ucast fport \<noteq> dport) then True
      else False)"

definition connect_event :: "kernel_ctx \<Rightarrow> sock \<Rightarrow> tcp_event" where
  "connect_event c sk =
     tcp_event_zero\<lparr>te_timestamp_ns := kc_ktime_ns c, te_pid := ctx_pid c, te_uid := ctx_uid c,
       te_action := TCP_ACTION_CONNECT, te_af := AF_INET, te_comm := kc_comm c,
       te_src_ip := skc_rcv_saddr sk, te_dst_ip := skc_daddr sk, te_src_port := skc_num sk,
       te_dst_port := bswap16 (skc_dport sk)\<rparr>"

definition trace_tcp_connect ::
  "('m, u32, tcp_event) bpf_hash \<Rightarrow> (u32 \<Rightarrow> u32 option) \<Rightarrow> kernel_ctx \<Rightarrow> sock \<Rightarrow> tcp_event option \<Rightarrow> 'm
     \<Rightarrow> tcp_event list \<times> 'm" where
  "trace_tcp_connect H filters c sk rb m =
     (let pid = ctx_pid c; dport = bswap16 (skc_dport sk)
      in if should_filter filters pid dport then ([], m)
         else let ev = connect_event c sk;
                  m' = snd (update_elem H m pid ev)
              in case rb of None \<Rightarrow> ([], m') | Some rbev \<Rightarrow> ([ev], m'))"

definition trace_tcp_close ::
  "('m, u32, tcp_event) bpf_hash \<Rightarrow> kernel_ctx \<Rightarrow> sock \<Rightarrow> tcp_event option \<Rightarrow> 'm \<Rightarrow> tcp_event list \<times> 'm" where
  "trace_tcp_close H c sk rb m =
     (let pid = ctx_pid c; pending = lookup_elem H m pid
      in case rb of
           None \<Rightarrow> ([], m)
         | Some rbev \<Rightarrow>
             (let (ev, m') = (case pending of
                  Some p \<Rightarrow> (p, snd (delete_elem H m pid))
                | None \<Rightarrow>
                    (rbev\<lparr>te_pid := pid, te_uid := ctx_uid c, te_af := AF_INET, te_comm := kc_comm c,
                       te_src_ip := skc_rcv_saddr sk, te_dst_ip := skc_daddr sk,
                       te_src_port := skc_num sk, te_dst_port := bswap16 (skc_dport sk)\<rparr>, m))
              in ([ev\<lparr>te_timestamp_ns := kc_ktime_ns c, te_action := TCP_ACTION_CLOSE,
                     te_bytes_tx := bytes_sent sk, te_bytes_rx := bytes_received sk\<rparr>], m')))"

text \<open>Probes firing one after another.\<close>

datatype probe =
    Connect kernel_ctx sock "tcp_event option"
  | Close kernel_ctx sock "tcp_event option"

fun probe_pid :: "probe \<Rightarrow> u32" where
  "probe_pid (Connect c sk rb) = ctx_pid c"
| "probe_pid (Close c sk rb) = ctx_pid c"

fun fire :: "('m, u32, tcp_event) bpf_hash \<Rightarrow> (u32 \<Rightarrow> u32 option) \<Rightarrow> probe \<Rightarrow> 'm \<Rightarrow> tcp_event list \<times> 'm" where
  "fire H filters (Connect c sk rb) m = trace_tcp_connect H filters c sk rb m"
| "fire H filters (Close c sk rb) m = trace_tcp_close H c sk rb m"

fun fire_all :: "('m, u32, tcp_event) bpf_hash \<Rightarrow> (u32 \<Rightarrow> u32 option) \<Rightarrow> probe list \<Rightarrow> 'm \<Rightarrow> tcp_event list \<times> 'm" where
  "fire_all H filters [] m = ([], m)"
| "fire_all H filters (p # ps) m =
     (let (evs, m') = fire H filters p m; (evs', m'') = fire_all H filters ps m' in (evs @ evs', m''))"

section \<open>Lemmas\<close>

lemma should_filter_iff:
  "should_filter filters pid dport \<longleftrightarrow>
     (\<exists>f. filters 0 = Some f \<and> f \<noteq> 0 \<and> f \<noteq> pid) \<or>
     (\<exists>f. filters 1 = Some f \<and> f \<noteq> 0 \<and> ucast f \<noteq> dport)"
  by (auto simp: should_filter_def split: option.splits)

lemma fire_all_Cons [simp]:
  "snd (fire_all H filters (p # ps) m) = snd (fire_all H filters ps (snd (fire H filters p m)))"
  by (simp add: Let_def case_prod_beta)

declare fire_all.simps(2) [simp del]

text \<open>The probes as clients of the map interface.\<close>

locale pending_map = bpf_hash_map H for H :: "('m, u32, tcp_event) bpf_hash"
begin

lemma fire_other:
  "probe_pid p \<noteq> pid \<Longrightarrow> lookup_elem H (snd (fire H filters p m)) pid = lookup_elem H m pid"
  by (cases p)
     (auto simp: trace_tcp_connect_def trace_tcp_close_def Let_def update_other delete_other
        split: option.splits)

lemma fire_all_other:
  "\<forall>p\<in>set ps. probe_pid p \<noteq> pid \<Longrightarrow>
     lookup_elem H (snd (fire_all H filters ps m)) pid = lookup_elem H m pid"
proof (induction ps arbitrary: m)
  case (Cons p ps)
  then have "lookup_elem H (snd (fire H filters p m)) pid = lookup_elem H m pid"
    by (intro fire_other) simp
  with Cons show ?case by simp
qed simp

lemma connect_stores:
  assumes "\<not> should_filter filters (ctx_pid c) (bswap16 (skc_dport sk))"
    and "fst (update_elem H m (ctx_pid c) (connect_event c sk)) = 0"
  shows "lookup_elem H (snd (trace_tcp_connect H filters c sk rb m)) (ctx_pid c)
           = Some (connect_event c sk)"
  using assms by (simp add: trace_tcp_connect_def Let_def update_same split: option.splits)

lemma close_pending:
  assumes "lookup_elem H m (ctx_pid c) = Some ev"
  shows "trace_tcp_close H c sk (Some junk) m =
     ([ev\<lparr>te_timestamp_ns := kc_ktime_ns c, te_action := TCP_ACTION_CLOSE,
          te_bytes_tx := bytes_sent sk, te_bytes_rx := bytes_received sk\<rparr>],
      snd (delete_elem H m (ctx_pid c)))"
  using assms by (simp add: trace_tcp_close_def)

text \<open>A connect, anything other processes do, then the close of the same process.\<close>

lemma connect_close:
  assumes pid: "ctx_pid c2 = ctx_pid c1"
    and pass: "\<not> should_filter filters (ctx_pid c1) (bswap16 (skc_dport sk1))"
    and stored: "fst (update_elem H m (ctx_pid c1) (connect_event c1 sk1)) = 0"
    and others: "\<forall>p\<in>set ps. probe_pid p \<noteq> ctx_pid c1"
    and m': "m' = snd (fire_all H filters (Connect c1 sk1 rb # ps) m)"
  shows "fst (trace_tcp_close H c2 sk2 (Some junk) m') =
     [(connect_event c1 sk1)\<lparr>te_timestamp_ns := kc_ktime_ns c2, te_action := TCP_ACTION_CLOSE,
        te_bytes_tx := bytes_sent sk2, te_bytes_rx := bytes_received sk2\<rparr>] \<and>
     lookup_elem H (snd (trace_tcp_close H c2 sk2 (Some junk) m')) (ctx_pid c1) = None"
proof -
  have "lookup_elem H m' (ctx_pid c1) = Some (connect_event c1 sk1)"
    using connect_stores [OF pass stored, of rb] fire_all_other [OF others] m'
    by simp
  then have "lookup_elem H m' (ctx_pid c2) = Some (connect_event c1 sk1)" by (simp add: pid)
  from close_pending [OF this, of sk2 junk] show ?thesis by (simp add: pid delete_same)
qed

end

interpretation pend: pending_map pending_connects
  unfolding pending_connects_def by (rule pending_map.intro) (rule hash_ops.bpf_hash_map_axioms)

section \<open>Properties\<close>

definition ctx_ex :: "u32 \<Rightarrow> kernel_ctx" where
  "ctx_ex pid = \<lparr>kc_pid_tgid = push_bit 32 (ucast pid), kc_uid_gid = 1000, kc_ktime_ns = 5,
     kc_comm = ''curl'' @ replicate 12 (CHR 0x00)\<rparr>"

definition sock_ex :: "u16 \<Rightarrow> u64 \<Rightarrow> sock" where
  "sock_ex dport n = \<lparr>skc_dport = bswap16 dport, skc_num = 54321, skc_rcv_saddr = 0x0100007F,
     skc_daddr = 0x08080808, bytes_sent = n, bytes_received = 2 * n\<rparr>"



text \<open>
  Filtering of connects. A connect is recorded and reported only if it passes both
  filters, a filter value 0 meaning any; a connect that passes is reported whenever the
  ring buffer has room, and a filtered one changes nothing.
\<close>

theorem connect_filtering:
  assumes "filters 0 = Some fpid" and "filters 1 = Some fport"
  shows "trace_tcp_connect H filters c sk rb m =
     (if (fpid = 0 \<or> fpid = ctx_pid c) \<and> (fport = 0 \<or> ucast fport = bswap16 (skc_dport sk))
      then (case rb of None \<Rightarrow> [] | Some _ \<Rightarrow> [connect_event c sk],
            snd (update_elem H m (ctx_pid c) (connect_event c sk)))
      else ([], m))"
  using assms
  by (auto simp: trace_tcp_connect_def should_filter_def Let_def split: option.splits)

theorem connect_filtering_witness:
  "trace_tcp_connect pending_connects [0 \<mapsto> 0, 1 \<mapsto> 443] (ctx_ex 7) (sock_ex 443 0) (Some tcp_event_zero) [] =
     ([connect_event (ctx_ex 7) (sock_ex 443 0)], [(7, connect_event (ctx_ex 7) (sock_ex 443 0))])"
proof -
  have "ctx_pid (ctx_ex 7) = 7" by code_simp
  then show ?thesis
    using connect_filtering [of "[0 \<mapsto> 0, 1 \<mapsto> 443]" 0 443 pending_connects "ctx_ex 7" "sock_ex 443 0"
        "Some tcp_event_zero" "[]"]
    by (simp add: sock_ex_def pending_connects_def hash_ops_def)
qed

text \<open>
  The close probe consults no filter: for a process that \<open>--filter-pid\<close> excludes, with
  no pending connect, a close still submits an event of that process.
\<close>

theorem close_ignores_filter:
  assumes "should_filter filters (ctx_pid c) (bswap16 (skc_dport sk))"
    and "lookup_elem H m (ctx_pid c) = None"
  shows "\<exists>ev. fire H filters (Close c sk (Some junk)) m = ([ev], m) \<and> te_pid ev = ctx_pid c \<and>
     te_dst_port ev = bswap16 (skc_dport sk) \<and> te_action ev = TCP_ACTION_CLOSE"
  using assms(2) by (simp add: trace_tcp_close_def)

theorem close_ignores_filter_witness:
  "should_filter [0 \<mapsto> 42] (ctx_pid (ctx_ex 7)) 443 \<and>
   (\<exists>ev. fire pending_connects [0 \<mapsto> 42] (Close (ctx_ex 7) (sock_ex 443 0) (Some tcp_event_zero)) [] = ([ev], []) \<and>
      te_pid ev = 7)"
proof -
  have pid: "ctx_pid (ctx_ex 7) = 7" by code_simp
  have f: "should_filter [0 \<mapsto> 42] (ctx_pid (ctx_ex 7)) (bswap16 (skc_dport (sock_ex 443 0)))"
    by (simp add: should_filter_def pid)
  have "lookup_elem pending_connects [] (ctx_pid (ctx_ex 7)) = None"
    by (simp add: pending_connects_def hash_ops_def)
  from close_ignores_filter [OF f this, of tcp_event_zero] f show ?thesis
    by (auto simp: pid sock_ex_def)
qed

text \<open>
  Pending connects are keyed by process only. After two connects of one process on
  different sockets, closing the first socket reports the second one's addresses and ports
  with the first one's byte counts.
\<close>

theorem second_connect_overwrites:
  assumes "bpf_hash_map H" and "ctx_pid c2 = ctx_pid c1" and "ctx_pid c3 = ctx_pid c1"
    and "\<not> should_filter filters (ctx_pid c2) (bswap16 (skc_dport sk2))"
    and "fst (update_elem H (snd (fire H filters (Connect c1 sk1 rb1) m)) (ctx_pid c2)
           (connect_event c2 sk2)) = 0"
    and "m' = snd (fire_all H filters [Connect c1 sk1 rb1, Connect c2 sk2 rb2] m)"
  shows "\<exists>ev. fst (trace_tcp_close H c3 sk1 (Some junk) m') = [ev] \<and>
     te_dst_ip ev = skc_daddr sk2 \<and> te_dst_port ev = bswap16 (skc_dport sk2) \<and>
     te_bytes_tx ev = bytes_sent sk1 \<and> te_bytes_rx ev = bytes_received sk1"
proof -
  have "m' = snd (fire_all H filters (Connect c2 sk2 rb2 # []) (snd (fire H filters (Connect c1 sk1 rb1) m)))"
    using assms(6) by simp
  moreover have "ctx_pid c3 = ctx_pid c2" using assms(2,3) by simp
  ultimately have "fst (trace_tcp_close H c3 sk1 (Some junk) m') =
     [(connect_event c2 sk2)\<lparr>te_timestamp_ns := kc_ktime_ns c3, te_action := TCP_ACTION_CLOSE,
        te_bytes_tx := bytes_sent sk1, te_bytes_rx := bytes_received sk1\<rparr>]"
    using pending_map.connect_close [OF pending_map.intro [OF assms(1)] _ assms(4,5), where ps = "[]"]
    by simp
  then show ?thesis by (simp add: connect_event_def)
qed

theorem second_connect_overwrites_witness:
  "let sk1 = sock_ex 443 9; sk2 = sock_ex 80 0;
       m' = snd (fire_all pending_connects (\<lambda>_. None) [Connect (ctx_ex 7) sk1 None, Connect (ctx_ex 7) sk2 None] [])
   in \<exists>ev. fst (trace_tcp_close pending_connects (ctx_ex 7) sk1 (Some tcp_event_zero) m') = [ev] \<and>
        te_dst_port ev = 80 \<and> te_bytes_tx ev = 9"
proof -
  let ?c = "ctx_ex 7" and ?sk1 = "sock_ex 443 9" and ?sk2 = "sock_ex 80 0"
  have H: "bpf_hash_map pending_connects"
    unfolding pending_connects_def by (rule hash_ops.bpf_hash_map_axioms)
  have f: "\<not> should_filter (\<lambda>_. None) (ctx_pid ?c) (bswap16 (skc_dport ?sk2))"
    by (simp add: should_filter_def)
  have u: "fst (update_elem pending_connects
      (snd (fire pending_connects (\<lambda>_. None) (Connect ?c ?sk1 None) [])) (ctx_pid ?c) (connect_event ?c ?sk2)) = 0"
    by (simp add: pending_connects_def hash_ops_def trace_tcp_connect_def should_filter_def)
  from second_connect_overwrites [OF H refl refl f u refl, of tcp_event_zero None]
  show ?thesis by (auto simp: sock_ex_def)
qed

end
