(* ===== verification/Syscall_Audit.thy ===== *)
theory Syscall_Audit
  imports Events
begin

text \<open>
  \<open>src/bpf/syscall_audit.bpf.c\<close>: the tracepoint on system call entry. It keeps no state of its
  own; the hash map \<open>uid_whitelist\<close> is filled from outside and only read here, so it appears as
  what a lookup in it returns. \<open>rb\<close> is the result of \<open>bpf_ringbuf_reserve\<close>.
\<close>

section \<open>Definitions\<close>

definition SYS_execve :: "64 word" where "SYS_execve = 59"
definition SYS_execveat :: "64 word" where "SYS_execveat = 322"
definition SYS_ptrace :: "64 word" where "SYS_ptrace = 101"
definition SYS_process_vm_readv :: "64 word" where "SYS_process_vm_readv = 310"
definition SYS_process_vm_writev :: "64 word" where "SYS_process_vm_writev = 311"
definition SYS_openat :: "64 word" where "SYS_openat = 257"
definition SYS_socket :: "64 word" where "SYS_socket = 41"
definition SYS_connect :: "64 word" where "SYS_connect = 42"

text \<open>The call number and the arguments the tracepoint passes.\<close>

record sys_enter =
  enter_id :: "64 word"
  enter_args :: "nat \<Rightarrow> u64"

definition is_suspicious :: "64 word \<Rightarrow> bool" where
  "is_suspicious nr \<longleftrightarrow> nr = SYS_execve \<or> nr = SYS_execveat \<or> nr = SYS_ptrace \<or>
     nr = SYS_process_vm_readv \<or> nr = SYS_process_vm_writev"

definition audit_syscall ::
  "(u32 \<Rightarrow> u8 option) \<Rightarrow> kernel_ctx \<Rightarrow> sys_enter \<Rightarrow> syscall_event option \<Rightarrow> syscall_event list" where
  "audit_syscall uid_whitelist c ctx rb =
     (let nr = enter_id ctx in
      if \<not> is_suspicious nr then []
      else let uid = ctx_uid c in
        if (case uid_whitelist uid of None \<Rightarrow> False | Some wl \<Rightarrow> wl \<noteq> 0) then []
        else (case rb of
                None \<Rightarrow> []
              | Some ev \<Rightarrow>
                  [ev\<lparr>se_timestamp_ns := kc_ktime_ns c, se_uid := uid, se_pid := ctx_pid c,
                      se_syscall_nr := nr, se_comm := kc_comm c,
                      se_args := [enter_args ctx 0, enter_args ctx 1, enter_args ctx 2]\<rparr>]))"

lemmas syscall_numbers = SYS_execve_def SYS_execveat_def SYS_ptrace_def SYS_process_vm_readv_def
  SYS_process_vm_writev_def SYS_openat_def SYS_socket_def SYS_connect_def

section \<open>Properties\<close>

text \<open>
  What is audited. An event is submitted exactly when the call is one of the five
  suspicious ones (numbers 59, 101, 310, 311, 322), the caller's uid is not whitelisted with
  a nonzero value, and the ring buffer has room; and then it is one event with the caller's
  identity, the call number and the first three arguments, whatever the reserved memory held.
\<close>

theorem audit_exact:
  "audit_syscall wl c ctx rb =
     (if enter_id ctx \<in> {59, 101, 310, 311, 322} \<and> wl (ctx_uid c) \<in> {None, Some 0} \<and> rb \<noteq> None
      then [\<lparr>se_timestamp_ns = kc_ktime_ns c, se_pid = ctx_pid c, se_uid = ctx_uid c,
             se_comm = kc_comm c, se_syscall_nr = enter_id ctx,
             se_args = [enter_args ctx 0, enter_args ctx 1, enter_args ctx 2]\<rparr>]
      else [])"
  by (auto simp: audit_syscall_def is_suspicious_def syscall_numbers Let_def split: option.splits
      intro!: syscall_event.equality)

text \<open>
  Root is not exempt from the whitelist: once uid 0 is in it with a nonzero value, no
  call of root is ever audited.
\<close>

theorem whitelisted_root_not_audited:
  assumes "ctx_uid c = 0" and "wl 0 = Some v" and "v \<noteq> 0"
  shows "audit_syscall wl c ctx rb = []"
  using assms by (simp add: audit_syscall_def Let_def)

theorem whitelisted_root_not_audited_witness:
  "let c = \<lparr>kc_pid_tgid = 0, kc_uid_gid = 0, kc_ktime_ns = 0, kc_comm = []\<rparr>;
       ctx = \<lparr>enter_id = SYS_execve, enter_args = (\<lambda>_. 0)\<rparr>
   in is_suspicious (enter_id ctx) \<and> audit_syscall [0 \<mapsto> 1] c ctx None = []"
  using whitelisted_root_not_audited [of "\<lparr>kc_pid_tgid = 0, kc_uid_gid = 0, kc_ktime_ns = 0, kc_comm = []\<rparr>"
      "[0 \<mapsto> 1]" 1]
  by (simp add: ctx_uid_def is_suspicious_def)

end
