(* ===== verification/Monitor.thy ===== *)
theory Monitor
  imports Http_Route Async_Server Ebpf_Loader Tcp_Tracer Syscall_Audit
begin

text \<open>
  \<open>src/src/monitor.cpp\<close>: command line, event handlers, set-up, main loop and shutdown of the
  daemon. The state \<open>monitor\<close> extends the trace of acquired and released resources by the
  HTTP server, the reporter, the filter map, the global flags and the two output streams.
  What the outside does is the record \<open>env\<close>: the results of libbpf and of the server's set-up
  calls, the batches of HTTP events (which depend on whether \<open>stop()\<close> was called), the
  contents of the reporter the HTTP thread sees when it answers a path, and the iterations of
  the main loop, each with the value of \<open>g_stop\<close>, the events the two polls deliver, and the
  clock. \<open>getopt_long\<close> is represented by the options it reports.
\<close>

section \<open>Command line\<close>

record Config =
  cfg_filter_pid :: u32
  cfg_filter_port :: u32
  cfg_http_port :: u16

definition Config_init :: Config where
  "Config_init = \<lparr>cfg_filter_pid = 0, cfg_filter_port = 0, cfg_http_port = 9090\<rparr>"

text \<open>
  \<open>std::stoul(s)\<close>: leading white space, an optional sign, decimal digits; what follows is
  ignored. A value of \<open>2 ^ 64\<close> or more is an error, a minus sign negates modulo \<open>2 ^ 64\<close>.
\<close>

definition is_space :: "char \<Rightarrow> bool" where
  "is_space c \<longleftrightarrow> c \<in> {CHR '' '', CHR 0x09, CHR 0x0A, CHR 0x0B, CHR 0x0C, CHR 0x0D}"

definition stoul :: "string \<Rightarrow> exn + u64" where
  "stoul s =
     (let s1 = dropWhile is_space s;
          neg = (s1 \<noteq> [] \<and> hd s1 = CHR ''-'');
          s2 = (if s1 \<noteq> [] \<and> hd s1 \<in> {CHR ''+'', CHR ''-''} then tl s1 else s1);
          d = takeWhile is_digit s2
      in if d = [] then Inl (Std_exception ''stoul'')
         else if dec_val d \<ge> 2 ^ 64 then Inl (Std_exception ''stoul'')
         else Inr (if neg then - of_nat (dec_val d) else of_nat (dec_val d)))"

record iteration =
  it_stop :: bool
  it_tcp :: "tcp_event list"
  it_audit :: "syscall_event list"
  it_now :: int

record env =
  en_lib :: libbpf
  en_start :: start_results
  en_errno :: string
  en_batches :: "bool \<Rightarrow> http_event list list"
  en_seen :: "string \<Rightarrow> StatsReporter"
  en_now_ms :: int
  en_sort :: sorter
  en_order :: "StatsReporter \<Rightarrow> StatsReporter"
  en_time :: int
  en_iterations :: "iteration list"

record monitor = world +
  mo_srv :: AsyncHttpServer
  mo_reporter :: StatsReporter
  mo_g_reporter :: bool
  mo_g_json :: bool
  mo_filters :: "u32 \<Rightarrow> u32 option"
  mo_last_print :: int
  mo_out :: string
  mo_err :: string

abbreviation out :: "string \<Rightarrow> monitor \<Rightarrow> monitor" where
  "out s w \<equiv> w\<lparr>mo_out := mo_out w @ s\<rparr>"

abbreviation err :: "string \<Rightarrow> monitor \<Rightarrow> monitor" where
  "err s w \<equiv> w\<lparr>mo_err := mo_err w @ s\<rparr>"

definition usage :: string where
  "usage = ''Usage: sudo ebpf-monitor [OPTIONS]'' @ [LF] @
     ''  --filter-pid N   trace only PID N'' @ [LF] @
     ''  --filter-port N  trace only port N'' @ [LF] @
     ''  --port N         HTTP metrics port (default: 9090)'' @ [LF] @
     ''  --json           emit JSON lines to stdout'' @ [LF]"

text \<open>The options \<open>getopt_long\<close> reports, each with its argument; \<open>?\<close> is an unknown option.\<close>

fun parse_args :: "(char \<times> string) list \<Rightarrow> Config \<Rightarrow> (monitor, int \<times> Config) act" where
  "parse_args [] cfg w = (Ok (0, cfg), w)"
| "parse_args ((opt, optarg) # opts) cfg w =
     (if opt = CHR ''p'' then
        (case stoul optarg of Inl e \<Rightarrow> (Throw e, w)
         | Inr v \<Rightarrow> parse_args opts (cfg\<lparr>cfg_filter_pid := ucast v\<rparr>) w)
      else if opt = CHR ''P'' then
        (case stoul optarg of Inl e \<Rightarrow> (Throw e, w)
         | Inr v \<Rightarrow> parse_args opts (cfg\<lparr>cfg_filter_port := ucast v\<rparr>) w)
      else if opt = CHR ''o'' then
        (case stoul optarg of Inl e \<Rightarrow> (Throw e, w)
         | Inr v \<Rightarrow> parse_args opts (cfg\<lparr>cfg_http_port := ucast v\<rparr>) w)
      else if opt = CHR ''j'' then parse_args opts cfg (w\<lparr>mo_g_json := True\<rparr>)
      else if opt = CHR ''h'' then (Ok (- 1, cfg), out usage w)
      else (Ok (1, cfg), w))"

section \<open>Event handlers\<close>

text \<open>\<open>%s\<close> with a character array that holds a NUL.\<close>

abbreviation c_str :: "char list \<Rightarrow> string" where
  "c_str buf \<equiv> takeWhile (\<lambda>c. c \<noteq> CHR 0x00) buf"

definition tcp_json :: "tcp_event \<Rightarrow> string" where
  \<open>tcp_json ev =
     ''{"ts":'' @ to_string (unat (te_timestamp_ns ev)) @ '',"pid":'' @ to_string (unat (te_pid ev)) @
     '',"comm":"'' @ c_str (te_comm ev) @
     ''","src":"'' @ inet_ntop (te_src_ip ev) @ '':'' @ to_string (unat (te_src_port ev)) @
     ''","dst":"'' @ inet_ntop (te_dst_ip ev) @ '':'' @ to_string (unat (te_dst_port ev)) @
     ''","action":'' @ to_string (unat (te_action ev)) @
     '',"tx":'' @ to_string (unat (te_bytes_tx ev)) @ '',"rx":'' @ to_string (unat (te_bytes_rx ev)) @ ''}'' @ [LF]\<close>

definition handle_tcp_event :: "tcp_event \<Rightarrow> monitor \<Rightarrow> monitor" where
  "handle_tcp_event ev w0 =
     (let w = (if mo_g_reporter w0 then w0\<lparr>mo_reporter := record_event ev (mo_reporter w0)\<rparr> else w0)
      in if mo_g_json w then out (tcp_json ev) w else w)"

definition handle_syscall_event :: "syscall_event \<Rightarrow> monitor \<Rightarrow> monitor" where
  "handle_syscall_event ev w =
     err (''[AUDIT] ts='' @ to_string (unat (se_timestamp_ns ev)) @ '' pid='' @ to_string (unat (se_pid ev)) @
       '' uid='' @ to_string (unat (se_uid ev)) @ '' comm='' @ c_str (se_comm ev) @
       '' syscall='' @ int_string (sint (se_syscall_nr ev)) @ [LF]) w"

definition set_filter :: "libbpf \<Rightarrow> string \<Rightarrow> u32 \<Rightarrow> u32 \<Rightarrow> monitor \<Rightarrow> monitor" where
  "set_filter lib fmap idx val w =
     (if map_update_elem lib fmap idx val \<noteq> 0 then err (''Warning: could not set filter'' @ [LF]) w
      else w\<lparr>mo_filters := (mo_filters w)(idx \<mapsto> val)\<rparr>)"

section \<open>Set-up, main loop and shutdown\<close>

definition PRINT_INTERVAL_SEC :: int where
  "PRINT_INTERVAL_SEC = 5"

definition configure_filters :: "libbpf \<Rightarrow> Config \<Rightarrow> handle \<Rightarrow> (monitor, unit) act" where
  "configure_filters lib cfg tcp_obj =
     (if cfg_filter_pid cfg \<noteq> 0 \<or> cfg_filter_port cfg \<noteq> 0 then
        andThen (find_map lib tcp_obj ''filters'') (\<lambda>fmap w.
          let w1 = (if cfg_filter_pid cfg \<noteq> 0 then set_filter lib fmap 0 (cfg_filter_pid cfg) w else w);
              w2 = (if cfg_filter_port cfg \<noteq> 0 then set_filter lib fmap 1 (cfg_filter_port cfg) w1 else w1)
          in (Ok (), w2))
      else (\<lambda>w. (Ok (), w)))"

text \<open>The HTTP server object, and \<open>what()\<close> of the exceptions of \<open>start\<close>.\<close>

definition server_ctor :: "u16 \<Rightarrow> (monitor, unit) act" where
  "server_ctor port w = log_call (Acquire Http_server) (w\<lparr>mo_srv := AsyncHttpServer_ctor port\<rparr>)"

definition server_dtor :: "unit \<Rightarrow> (monitor, unit) act" where
  "server_dtor u w = log_call (Release Http_server) (w\<lparr>mo_srv := AsyncHttpServer_dtor (mo_srv w)\<rparr>)"

fun http_what :: "string \<Rightarrow> http_error \<Rightarrow> string" where
  "http_what errno Socket_failed = ''socket() failed''"
| "http_what errno Bind_failed = ''bind() failed: '' @ errno"
| "http_what errno Listen_failed = ''listen() failed''"
| "http_what errno Epoll_create_failed = ''epoll_create1() failed''"
| "http_what errno Epoll_add_failed = ''epoll_ctl ADD: '' @ errno"
| "http_what errno Eventfd_failed = ''eventfd() failed''"
| "http_what errno Getfl_failed = ''fcntl F_GETFL failed''"
| "http_what errno Setfl_failed = ''fcntl F_SETFL O_NONBLOCK failed''"

definition server_start :: "env \<Rightarrow> (monitor, unit) act" where
  "server_start env w =
     (case start (en_start env) (mo_srv w) of
        (Inl e, s) \<Rightarrow> (Throw (Std_exception (http_what (en_errno env) e)), w\<lparr>mo_srv := s\<rparr>)
      | (Inr u, s) \<Rightarrow> (Ok (), w\<lparr>mo_srv := s\<rparr>))"

text \<open>
  \<open>std::jthread http_thread\<close> runs \<open>http_srv.run()\<close>; its destructor joins it. The stop
  descriptor is readable once \<open>stop()\<close> has written to it. An exception that leaves the thread
  function is \<open>std::terminate\<close>.
\<close>

definition stop_requested :: "AsyncHttpServer \<Rightarrow> bool" where
  "stop_requested s \<longleftrightarrow> list_ex (\<lambda>c. case c of Written fd b \<Rightarrow> fd = sv_stop_fd s | _ \<Rightarrow> False) (sv_sys s)"

definition thread_ctor :: "(monitor, unit) act" where
  "thread_ctor w = log_call (Acquire Http_thread) w"

definition route_handler :: "env \<Rightarrow> RouteHandler" where
  "route_handler env path = http_route (en_now_ms env) (en_order env) (en_seen env path) path"

definition thread_dtor :: "env \<Rightarrow> unit \<Rightarrow> (monitor, unit) act" where
  "thread_dtor env u w =
     (case run (Some (route_handler env)) (en_batches env (stop_requested (mo_srv w))) (mo_srv w) of
        None \<Rightarrow> (Blocked, w)
      | Some (Inl e, s) \<Rightarrow> (Terminated, w\<lparr>mo_srv := s\<rparr>)
      | Some (Inr v, s) \<Rightarrow> log_call (Release Http_thread) (w\<lparr>mo_srv := s\<rparr>))"

definition banner :: "Config \<Rightarrow> string" where
  "banner cfg =
     ''eBPF monitor running. HTTP metrics at http://localhost:'' @ to_string (unat (cfg_http_port cfg)) @
     ''/metrics'' @ [LF] @ ''Endpoints: /metrics  /connections  /health'' @ [LF] @
     ''Press Ctrl+C to stop.'' @ [LF] @
     (if cfg_filter_pid cfg \<noteq> 0 then ''  Filtering PID:  '' @ to_string (unat (cfg_filter_pid cfg)) @ [LF] else []) @
     (if cfg_filter_port cfg \<noteq> 0 then ''  Filtering Port: '' @ to_string (unat (cfg_filter_port cfg)) @ [LF] else [])"

definition loop_body :: "env \<Rightarrow> iteration \<Rightarrow> monitor \<Rightarrow> monitor" where
  "loop_body env it w0 =
     (let w1 = BpfRingBuffer_poll handle_tcp_event (it_tcp it) w0;
          w2 = BpfRingBuffer_poll handle_syscall_event (it_audit it) w1
      in if \<not> mo_g_json w2 \<and> (it_now it - mo_last_print w2) div 10 ^ 9 \<ge> PRINT_INTERVAL_SEC
         then (out (print_top (en_sort env) (en_order env) 10 (mo_reporter w2)) w2)\<lparr>mo_last_print := it_now it\<rparr>
         else w2)"

fun main_loop :: "env \<Rightarrow> iteration list \<Rightarrow> (monitor, unit) act" where
  "main_loop env [] w = (Blocked, w)"
| "main_loop env (it # its) w = (if it_stop it then (Ok (), w) else main_loop env its (loop_body env it w))"

definition shutdown :: "(monitor, unit) act" where
  "shutdown w0 =
     (let w = out ([LF] @ ''Shutting down.'' @ [LF]) w0
      in (Ok (), w\<lparr>mo_srv := stop (mo_srv w), mo_g_reporter := False\<rparr>))"

text \<open>From the banner to the end of the function, and with the HTTP thread around it.\<close>

definition event_loop :: "env \<Rightarrow> Config \<Rightarrow> handle \<Rightarrow> handle \<Rightarrow> (monitor, unit) act" where
  "event_loop env cfg tcp_obj audit_obj =
     andThen (\<lambda>w. (Ok (), out (banner cfg) w)) (\<lambda>_.
     scoped (andThen (find_map (en_lib env) tcp_obj ''tcp_events'') (BpfRingBuffer_ctor (en_lib env)))
       BpfRingBuffer_dtor (\<lambda>tcp_rb.
     scoped (andThen (find_map (en_lib env) audit_obj ''syscall_events'') (BpfRingBuffer_ctor (en_lib env)))
       BpfRingBuffer_dtor (\<lambda>audit_rb.
     andThen (\<lambda>w. main_loop env (en_iterations env) (w\<lparr>mo_last_print := en_time env\<rparr>)) (\<lambda>_.
     shutdown))))"

definition serve :: "env \<Rightarrow> Config \<Rightarrow> handle \<Rightarrow> handle \<Rightarrow> (monitor, unit) act" where
  "serve env cfg tcp_obj audit_obj =
     scoped thread_ctor (thread_dtor env) (\<lambda>http_thread. event_loop env cfg tcp_obj audit_obj)"

definition run_monitor :: "env \<Rightarrow> Config \<Rightarrow> (monitor, unit) act" where
  "run_monitor env cfg =
     scoped (BpfObject_ctor (en_lib env) ''bpf/tcp_tracer.bpf.o'') BpfObject_dtor (\<lambda>tcp_obj.
     scoped (BpfObject_ctor (en_lib env) ''bpf/syscall_audit.bpf.o'') BpfObject_dtor (\<lambda>audit_obj.
     andThen (configure_filters (en_lib env) cfg tcp_obj) (\<lambda>_.
     scoped (andThen (attach_kprobe (en_lib env) tcp_obj ''tcp_connect'' ''trace_tcp_connect'') BpfLink_ctor)
       BpfLink_dtor (\<lambda>tcp_connect_link.
     scoped (andThen (attach_kprobe (en_lib env) tcp_obj ''tcp_close'' ''trace_tcp_close'') BpfLink_ctor)
       BpfLink_dtor (\<lambda>tcp_close_link.
     scoped (andThen (attach_tracepoint (en_lib env) audit_obj ''raw_syscalls'' ''sys_enter'' ''audit_syscall'')
       BpfLink_ctor) BpfLink_dtor (\<lambda>audit_link.
     andThen (\<lambda>w. (Ok (), w\<lparr>mo_reporter := [], mo_g_reporter := True\<rparr>)) (\<lambda>_.
     scoped (server_ctor (cfg_http_port cfg)) server_dtor (\<lambda>http_srv.
     andThen (server_start env) (\<lambda>_. serve env cfg tcp_obj audit_obj)))))))))"

definition main :: "env \<Rightarrow> (char \<times> string) list \<Rightarrow> (monitor, int) act" where
  "main env opts w =
     (case parse_args opts Config_init w of
        (Ok (rc, cfg), w1) \<Rightarrow>
          (if rc \<noteq> 0 then (Ok (if rc < 0 then 0 else rc), w1)
           else case run_monitor env cfg w1 of
             (Ok u, w2) \<Rightarrow> (Ok 0, w2)
           | (Throw (Error e), w2) \<Rightarrow>
               (Ok 1, err (''eBPF error: '' @ e @ [LF] @
                 ''Tip: run as root (sudo) and ensure BTF is available'' @ [LF]) w2)
           | (Throw (Std_exception e), w2) \<Rightarrow> (Ok 1, err (''Error: '' @ e @ [LF]) w2)
           | (Blocked, w2) \<Rightarrow> (Blocked, w2)
           | (Terminated, w2) \<Rightarrow> (Terminated, w2))
      | (Throw e, w1) \<Rightarrow> (Terminated, w1)
      | (Blocked, w1) \<Rightarrow> (Blocked, w1)
      | (Terminated, w1) \<Rightarrow> (Terminated, w1))"

section \<open>Resources\<close>

declare BpfRingBuffer_poll_def [simp]

interpretation http_server: raii "server_ctor port" server_dtor "\<lambda>_. Some Http_server" "{}" for port
  by unfold_locales (auto simp: server_ctor_def server_dtor_def)

interpretation http_thread: raii thread_ctor "thread_dtor env" "\<lambda>_. Some Http_thread" "{}" for env
  by unfold_locales (auto simp: thread_ctor_def thread_dtor_def split: option.splits prod.splits sum.splits)

lemma handlers_silent [simp]:
  "w_calls (handle_tcp_event ev w) = w_calls w" "w_calls (handle_syscall_event se w) = w_calls w"
  "w_calls (set_filter lib m i v w) = w_calls w"
  by (simp_all add: handle_tcp_event_def handle_syscall_event_def set_filter_def Let_def)

lemma fold_tcp_silent [simp]: "w_calls (fold handle_tcp_event evs w) = w_calls w"
  by (induction evs arbitrary: w) auto

lemma fold_syscall_silent [simp]: "w_calls (fold handle_syscall_event ses w) = w_calls w"
  by (induction ses arbitrary: w) auto

lemma main_loop_silent [simp]: "w_calls (snd (main_loop env its w)) = w_calls w"
  by (induction env its w rule: main_loop.induct) (auto simp: loop_body_def Let_def)

lemma neat_configure: "neat L (configure_filters lib cfg obj)"
  by (rule neat_silent) (auto simp: configure_filters_def andThen_def find_map_def Let_def split: option.split)

lemma neat_server_start: "neat L (server_start env)"
  by (rule neat_silent) (auto simp: server_start_def split: prod.split sum.split)

lemma neat_update: "(\<And>w. w_calls (f w) = w_calls w) \<Longrightarrow> neat L (\<lambda>w. (Ok (), f w))"
  by (rule neat_silent) simp

lemma neat_shutdown: "neat L shutdown"
  by (rule neat_silent) (simp add: shutdown_def Let_def)

lemma neat_serve: "neat L (serve env cfg tcp_obj audit_obj)"
  unfolding serve_def event_loop_def
  by (intro http_thread.neat_scoped ring_buffer.neat_scoped neat_andThen neat_update neat_shutdown empty_subsetI
      neat_silent) simp_all

lemma neat_run_monitor:
  "neat (load_leak (en_lib env) ''bpf/tcp_tracer.bpf.o'' \<union> load_leak (en_lib env) ''bpf/syscall_audit.bpf.o'')
     (run_monitor env cfg)"
  unfolding run_monitor_def
  by (intro bpf_object.neat_scoped kprobe_link.neat_scoped tracepoint_link.neat_scoped http_server.neat_scoped
      neat_andThen neat_configure neat_server_start neat_serve neat_update empty_subsetI Un_upper1 Un_upper2) simp_all

section \<open>The run of the daemon\<close>

text \<open>What the program relies on for a start without errors.\<close>

definition setup_ok :: "libbpf \<Rightarrow> bool" where
  "setup_ok lib \<longleftrightarrow>
     bpf_object_open lib ''bpf/tcp_tracer.bpf.o'' \<and> bpf_object_load lib ''bpf/tcp_tracer.bpf.o'' = 0 \<and>
     bpf_object_open lib ''bpf/syscall_audit.bpf.o'' \<and> bpf_object_load lib ''bpf/syscall_audit.bpf.o'' = 0 \<and>
     find_map_by_name lib ''bpf/tcp_tracer.bpf.o'' ''filters'' \<and>
     find_program_by_name lib ''bpf/tcp_tracer.bpf.o'' ''trace_tcp_connect'' \<and>
     find_program_by_name lib ''bpf/tcp_tracer.bpf.o'' ''trace_tcp_close'' \<and>
     find_program_by_name lib ''bpf/syscall_audit.bpf.o'' ''audit_syscall'' \<and>
     program_attach_kprobe lib ''trace_tcp_connect'' ''tcp_connect'' \<and>
     program_attach_kprobe lib ''trace_tcp_close'' ''tcp_close'' \<and>
     program_attach_tracepoint lib ''audit_syscall'' ''raw_syscalls'' ''sys_enter''"

definition buffers_ok :: "libbpf \<Rightarrow> bool" where
  "buffers_ok lib \<longleftrightarrow>
     find_map_by_name lib ''bpf/tcp_tracer.bpf.o'' ''tcp_events'' \<and> ring_buffer_new lib ''tcp_events'' \<and>
     find_map_by_name lib ''bpf/syscall_audit.bpf.o'' ''syscall_events'' \<and> ring_buffer_new lib ''syscall_events''"

definition start_ok :: "start_results \<Rightarrow> bool" where
  "start_ok r \<longleftrightarrow> 0 \<le> st_socket r \<and> 0 \<le> st_bind r \<and> 0 \<le> st_listen r \<and> 0 \<le> st_epoll_create r \<and>
     0 \<le> st_add_listen r \<and> 0 \<le> st_eventfd r \<and> 0 \<le> st_add_stop r"

definition started :: "start_results \<Rightarrow> u16 \<Rightarrow> AsyncHttpServer" where
  "started r port = \<lparr>sv_listen_fd = st_socket r, sv_epoll_fd = st_epoll_create r, sv_stop_fd = st_eventfd r,
     sv_port = port, sv_running = True, sv_read_bufs = [],
     sv_sys = [Opened (st_socket r), Bound (st_socket r) port, Opened (st_epoll_create r),
       Epoll_Add (st_socket r), Opened (st_eventfd r), Epoll_Add (st_eventfd r)]\<rparr>"

lemma start_started: "start_ok r \<Longrightarrow> start r (AsyncHttpServer_ctor port) = (Inr (), started r port)"
  by (simp add: start_ok_def start_def AsyncHttpServer_ctor_def started_def opened_def Let_def)

lemma not_stop_requested [simp]: "\<not> stop_requested (started r port)"
  by (simp add: stop_requested_def started_def)

lemma stop_started:
  assumes "start_ok r"
  shows "stop (started r port) = emit [Written (st_eventfd r) (CHR 0x01 # replicate 7 (CHR 0x00))] (started r port)"
    and "stop_requested (stop (started r port))"
  using assms by (simp_all add: stop_def started_def start_ok_def stop_requested_def)

text \<open>The main loop as a fold over the iterations before \<open>g_stop\<close> is seen.\<close>

definition iterations_run :: "env \<Rightarrow> monitor \<Rightarrow> monitor" where
  "iterations_run env = fold (loop_body env) (takeWhile (\<lambda>it. \<not> it_stop it) (en_iterations env))"

lemma main_loop_fold:
  "\<exists>it\<in>set its. it_stop it \<Longrightarrow>
     main_loop env its w = (Ok (), fold (loop_body env) (takeWhile (\<lambda>it. \<not> it_stop it) its) w)"
  by (induction env its w rule: main_loop.induct) auto

definition delivered :: "env \<Rightarrow> tcp_event list" where
  "delivered env = concat (map it_tcp (takeWhile (\<lambda>it. \<not> it_stop it) (en_iterations env)))"

lemma tcp_handler_keeps:
  "mo_srv (fold handle_tcp_event evs w) = mo_srv w \<and> mo_g_reporter (fold handle_tcp_event evs w) = mo_g_reporter w \<and>
   (mo_g_reporter w \<longrightarrow> mo_reporter (fold handle_tcp_event evs w) = fold record_event evs (mo_reporter w))"
  by (induction evs arbitrary: w) (auto simp: handle_tcp_event_def Let_def)

lemma syscall_handler_keeps:
  "mo_srv (fold handle_syscall_event ses w) = mo_srv w \<and>
   mo_g_reporter (fold handle_syscall_event ses w) = mo_g_reporter w \<and>
   mo_reporter (fold handle_syscall_event ses w) = mo_reporter w"
  by (induction ses arbitrary: w) (auto simp: handle_syscall_event_def)

lemma loop_body_keeps:
  "mo_srv (loop_body env it w) = mo_srv w \<and> mo_g_reporter (loop_body env it w) = mo_g_reporter w \<and>
   w_calls (loop_body env it w) = w_calls w \<and>
   (mo_g_reporter w \<longrightarrow> mo_reporter (loop_body env it w) = fold record_event (it_tcp it) (mo_reporter w))"
  using tcp_handler_keeps [of "it_tcp it" w]
    syscall_handler_keeps [of "it_audit it" "fold handle_tcp_event (it_tcp it) w"]
  by (simp add: loop_body_def Let_def)

lemma iterations_run_keeps:
  "mo_srv (iterations_run env w) = mo_srv w" "w_calls (iterations_run env w) = w_calls w"
  "mo_g_reporter w \<Longrightarrow> mo_reporter (iterations_run env w) = fold record_event (delivered env) (mo_reporter w)"
proof -
  have "mo_srv (fold (loop_body env) its w) = mo_srv w \<and> w_calls (fold (loop_body env) its w) = w_calls w \<and>
      (mo_g_reporter w \<longrightarrow>
        mo_reporter (fold (loop_body env) its w) = fold record_event (concat (map it_tcp its)) (mo_reporter w))"
    for its
    by (induction its arbitrary: w) (use loop_body_keeps in auto)
  then show "mo_srv (iterations_run env w) = mo_srv w" "w_calls (iterations_run env w) = w_calls w"
    "mo_g_reporter w \<Longrightarrow> mo_reporter (iterations_run env w) = fold record_event (delivered env) (mo_reporter w)"
    by (simp_all add: iterations_run_def delivered_def)
qed


text \<open>\<open>serve\<close> on a started server: when the buffers exist and when they do not.\<close>

definition stop_delivered :: "env \<Rightarrow> bool" where
  "stop_delivered env \<longleftrightarrow>
     (\<exists>e\<in>set (concat (en_batches env True)). ev_fd e = st_eventfd (en_start env)) \<and>
     (\<forall>e\<in>set (before_stop (st_eventfd (en_start env)) (concat (en_batches env True))).
        event_ok (st_socket (en_start env)) e)"

definition clients_served :: "env \<Rightarrow> int list" where
  "clients_served env = client_fds (st_socket (en_start env))
     (before_stop (st_eventfd (en_start env)) (concat (en_batches env True)))"

lemma thread_joins:
  assumes "start_ok (en_start env)" and "stop_delivered env" and "mo_srv w = stop (started (en_start env) port)"
  shows "\<exists>s. thread_dtor env () w = log_call (Release Http_thread) (w\<lparr>mo_srv := s\<rparr>) \<and>
     sv_listen_fd s = - 1 \<and> sv_epoll_fd s = - 1 \<and> sv_stop_fd s = - 1 \<and> \<not> sv_running s \<and>
     closes (sv_sys s) = clients_served env @
       [st_socket (en_start env), st_epoll_create (en_start env), st_eventfd (en_start env)]"
proof -
  let ?s = "mo_srv w"
  have s: "sv_running ?s" "sv_stop_fd ?s = st_eventfd (en_start env)" "sv_listen_fd ?s = st_socket (en_start env)"
    "sv_epoll_fd ?s = st_epoll_create (en_start env)" "sv_read_bufs ?s = []" "closes (sv_sys ?s) = []" "stop_requested ?s"
    using stop_started [OF assms(1), of port] assms(3) by (simp_all add: started_def)
  obtain tr where tr: "run (Some (route_handler env)) (en_batches env True) ?s =
      Some (Inr (), close_all (?s\<lparr>sv_running := False, sv_sys := sv_sys ?s @ tr\<rparr>))"
    "closes tr = clients_served env"
    using run_effect [of ?s "en_batches env True" "Some (route_handler env)"] assms(2) s
    by (auto simp: stop_delivered_def clients_served_def)
  then show ?thesis
    using s assms(1)
    by (intro exI [of _ "close_all (?s\<lparr>sv_running := False, sv_sys := sv_sys ?s @ tr\<rparr>)"])
       (simp add: thread_dtor_def close_all_def close_fd_def start_ok_def)
qed

lemma thread_hangs:
  assumes "mo_srv w = started (en_start env) port"
    and "\<forall>e\<in>set (concat (en_batches env False)). ev_fd e \<noteq> st_eventfd (en_start env)"
  shows "\<not> finished (fst (thread_dtor env () w))"
proof -
  have "sv_running (mo_srv w)" "\<forall>e\<in>set (concat (en_batches env False)). ev_fd e \<noteq> sv_stop_fd (mo_srv w)"
    "\<not> stop_requested (mo_srv w)"
    using assms by (simp_all add: started_def stop_requested_def)
  then show ?thesis
    using run_without_stop [of "mo_srv w" "en_batches env False" "Some (route_handler env)"]
    by (auto simp: thread_dtor_def split: option.split prod.split sum.split)
qed

lemma scoped_dtor_hangs:
  assumes "ctor w = (Ok r, w1)" and "body r w1 = (res, w2)" and "\<not> finished (fst (dtor r w2))"
  shows "\<not> finished (fst (scoped ctor dtor body w))"
  using assms by (cases res; cases "dtor r w2"; cases "fst (dtor r w2)") (auto simp: scoped_def andThen_def)

lemma event_loop_ok:
  assumes "buffers_ok (en_lib env)" and "\<exists>it\<in>set (en_iterations env). it_stop it"
    and "mo_g_reporter w" and "mo_reporter w = []"
  shows "\<exists>w'. event_loop env cfg (Some ''bpf/tcp_tracer.bpf.o'') (Some ''bpf/syscall_audit.bpf.o'') w = (Ok (), w') \<and>
     mo_srv w' = stop (mo_srv w) \<and> mo_reporter w' = fold record_event (delivered env) [] \<and> \<not> mo_g_reporter w'"
proof -
  have "main_loop env (en_iterations env) v = (Ok (), iterations_run env v)" for v
    using main_loop_fold [OF assms(2)] by (simp add: iterations_run_def)
  then show ?thesis
    using assms(1,3,4) iterations_run_keeps
    by (simp add: event_loop_def buffers_ok_def scoped_def andThen_def find_map_def BpfRingBuffer_ctor_def
        BpfRingBuffer_dtor_def shutdown_def Let_def)
qed

lemma event_loop_fails:
  assumes "\<not> (find_map_by_name (en_lib env) ''bpf/tcp_tracer.bpf.o'' ''tcp_events'' \<and>
      ring_buffer_new (en_lib env) ''tcp_events'' \<and>
      find_map_by_name (en_lib env) ''bpf/syscall_audit.bpf.o'' ''syscall_events'' \<and>
      ring_buffer_new (en_lib env) ''syscall_events'')"
  shows "\<exists>e w'. event_loop env cfg (Some ''bpf/tcp_tracer.bpf.o'') (Some ''bpf/syscall_audit.bpf.o'') w = (Throw (Error e), w') \<and>
     mo_srv w' = mo_srv w"
  using assms
  by (auto simp: event_loop_def scoped_def andThen_def find_map_def BpfRingBuffer_ctor_def BpfRingBuffer_dtor_def)

text \<open>A server that has been closed.\<close>

definition released :: "AsyncHttpServer \<Rightarrow> bool" where
  "released s \<longleftrightarrow> sv_listen_fd s = - 1 \<and> sv_epoll_fd s = - 1 \<and> sv_stop_fd s = - 1 \<and> \<not> sv_running s"

lemma released_dtor: "released s \<Longrightarrow> AsyncHttpServer_dtor s = s"
  by (cases s) (simp add: released_def AsyncHttpServer_dtor_def stop_def close_all_def close_fd_def)

lemma serve_ok:
  assumes "buffers_ok (en_lib env)" and "start_ok (en_start env)" and "stop_delivered env"
    and "\<exists>it\<in>set (en_iterations env). it_stop it"
    and "mo_srv w = started (en_start env) port" and "mo_g_reporter w" and "mo_reporter w = []"
  shows "\<exists>w'. serve env cfg (Some ''bpf/tcp_tracer.bpf.o'') (Some ''bpf/syscall_audit.bpf.o'') w = (Ok (), w') \<and>
     mo_reporter w' = fold record_event (delivered env) [] \<and> \<not> mo_g_reporter w' \<and> released (mo_srv w') \<and>
     closes (sv_sys (mo_srv w')) = clients_served env @
       [st_socket (en_start env), st_epoll_create (en_start env), st_eventfd (en_start env)]"
proof -
  define w1 where "w1 = w\<lparr>w_calls := w_calls w @ [Acquire Http_thread]\<rparr>"
  from event_loop_ok [OF assms(1,4), of w1 cfg] assms(5,6,7) obtain w2 where
    w2: "event_loop env cfg (Some ''bpf/tcp_tracer.bpf.o'') (Some ''bpf/syscall_audit.bpf.o'') w1 = (Ok (), w2)"
      "mo_srv w2 = stop (started (en_start env) port)"
      "mo_reporter w2 = fold record_event (delivered env) []" "\<not> mo_g_reporter w2"
    by (auto simp: w1_def)
  from thread_joins [OF assms(2,3) w2(2)] obtain s where
    s: "thread_dtor env () w2 = log_call (Release Http_thread) (w2\<lparr>mo_srv := s\<rparr>)" "released s"
      "closes (sv_sys s) = clients_served env @
         [st_socket (en_start env), st_epoll_create (en_start env), st_eventfd (en_start env)]"
    by (auto simp: released_def)
  have "serve env cfg (Some ''bpf/tcp_tracer.bpf.o'') (Some ''bpf/syscall_audit.bpf.o'') w =
      log_call (Release Http_thread) (w2\<lparr>mo_srv := s\<rparr>)"
    using w2(1) s(1) by (simp add: serve_def scoped_def andThen_def thread_ctor_def w1_def)
  then show ?thesis using w2 s by simp
qed

lemma serve_hangs:
  assumes "\<not> buffers_ok (en_lib env)"
    and "\<forall>e\<in>set (concat (en_batches env False)). ev_fd e \<noteq> st_eventfd (en_start env)"
    and "mo_srv w = started (en_start env) port"
  shows "\<not> finished (fst (serve env cfg (Some ''bpf/tcp_tracer.bpf.o'') (Some ''bpf/syscall_audit.bpf.o'') w))"
proof -
  define w1 where "w1 = w\<lparr>w_calls := w_calls w @ [Acquire Http_thread]\<rparr>"
  from event_loop_fails [of env cfg w1] assms(1,3) obtain e w2 where
    w2: "event_loop env cfg (Some ''bpf/tcp_tracer.bpf.o'') (Some ''bpf/syscall_audit.bpf.o'') w1 = (Throw (Error e), w2)"
      "mo_srv w2 = started (en_start env) port"
    by (auto simp: w1_def buffers_ok_def)
  have "thread_ctor w = (Ok (), w1)" by (simp add: thread_ctor_def w1_def)
  then show ?thesis
    unfolding serve_def
    by (rule scoped_dtor_hangs) (rule w2(1), rule thread_hangs [OF w2(2) assms(2)])
qed

text \<open>The set-up before \<open>serve\<close>, and the destructors after it.\<close>

definition before_serve :: "Config \<Rightarrow> start_results \<Rightarrow> monitor \<Rightarrow> bool" where
  "before_serve cfg r w \<longleftrightarrow>
     mo_srv w = started r (cfg_http_port cfg) \<and> mo_g_reporter w \<and> mo_reporter w = []"

lemma configure_ok:
  "find_map_by_name lib obj ''filters'' \<Longrightarrow> \<exists>w'. configure_filters lib cfg (Some obj) w = (Ok (), w')"
  by (simp add: configure_filters_def find_map_def andThen_def Let_def)

lemma run_monitor_serves:
  assumes "setup_ok (en_lib env)" and "start_ok (en_start env)"
  shows "\<exists>w1. before_serve cfg (en_start env) w1 \<and>
     (\<exists>w0 wf. mo_filters w0 = mo_filters w \<and> mo_filters w1 = mo_filters wf \<and>
        configure_filters (en_lib env) cfg (Some ''bpf/tcp_tracer.bpf.o'') w0 = (Ok (), wf)) \<and>
     (\<forall>u w2. serve env cfg (Some ''bpf/tcp_tracer.bpf.o'') (Some ''bpf/syscall_audit.bpf.o'') w1 = (Ok u, w2) \<longrightarrow>
        (\<exists>calls. run_monitor env cfg w =
          (Ok (), w2\<lparr>mo_srv := AsyncHttpServer_dtor (mo_srv w2), w_calls := calls\<rparr>))) \<and>
     (\<not> finished (fst (serve env cfg (Some ''bpf/tcp_tracer.bpf.o'') (Some ''bpf/syscall_audit.bpf.o'') w1)) \<longrightarrow>
        \<not> finished (fst (run_monitor env cfg w)))"
proof -
  define w0 where "w0 = w\<lparr>w_calls := w_calls w @ [Acquire (Object ''bpf/tcp_tracer.bpf.o''),
     Acquire (Object ''bpf/syscall_audit.bpf.o'')]\<rparr>"
  obtain wf where wf: "configure_filters (en_lib env) cfg (Some ''bpf/tcp_tracer.bpf.o'') w0 = (Ok (), wf)"
    using configure_ok [of "en_lib env" "''bpf/tcp_tracer.bpf.o''" cfg w0] assms(1) by (auto simp: setup_ok_def)
  define w1 where "w1 = wf\<lparr>mo_reporter := [], mo_g_reporter := True,
     w_calls := w_calls wf @ [Acquire (Link ''trace_tcp_connect''), Acquire (Link ''trace_tcp_close''),
       Acquire (Link ''audit_syscall''), Acquire Http_server],
     mo_srv := started (en_start env) (cfg_http_port cfg)\<rparr>"
  obtain res w2 where serve: "serve env cfg (Some ''bpf/tcp_tracer.bpf.o'') (Some ''bpf/syscall_audit.bpf.o'') w1 = (res, w2)"
    by fastforce
  have "\<exists>w0 wf. mo_filters w0 = mo_filters w \<and> mo_filters w1 = mo_filters wf \<and>
      configure_filters (en_lib env) cfg (Some ''bpf/tcp_tracer.bpf.o'') w0 = (Ok (), wf)"
    using wf by (intro exI [of _ w0] exI [of _ wf]) (simp add: w0_def w1_def)
  moreover have "before_serve cfg (en_start env) w1" by (simp add: before_serve_def w1_def)
  ultimately show ?thesis
    using assms wf serve
    by (intro exI [of _ w1], cases res)
       (auto simp: w0_def w1_def run_monitor_def scoped_def andThen_def setup_ok_def
         BpfObject_ctor_def BpfObject_dtor_def attach_kprobe_def attach_tracepoint_def BpfLink_ctor_def
         BpfLink_dtor_def server_ctor_def server_dtor_def server_start_def start_started)
qed

end
