(* ===== verification/Event_Delivery.thy ===== *)
theory Event_Delivery
  imports Event_Layout Monitor Tcp_Tracer Syscall_Audit
begin

text \<open>
  From the probes to the handlers through memory: what \<open>src/bpf/tcp_tracer.bpf.c\<close> and
  \<open>src/bpf/syscall_audit.bpf.c\<close> write into the ring buffers is what the handlers of
  \<open>src/src/monitor.cpp\<close>, which cast the address of each sample, work on.
\<close>

section \<open>Definitions\<close>

definition handle_tcp_data :: "u8 list \<Rightarrow> monitor \<Rightarrow> monitor" where
  "handle_tcp_data sample = handle_tcp_event (tcp_event_read sample)"

definition handle_syscall_data :: "u8 list \<Rightarrow> monitor \<Rightarrow> monitor" where
  "handle_syscall_data sample = handle_syscall_event (syscall_event_read sample)"

text \<open>
  The kernel fills all 16 bytes of \<open>comm\<close>, and the memory a reservation returns has the size of
  the structure.
\<close>

fun probe_wf :: "probe \<Rightarrow> bool" where
  "probe_wf (Connect c sk rb) \<longleftrightarrow> length (kc_comm c) = 16"
| "probe_wf (Close c sk rb) \<longleftrightarrow> length (kc_comm c) = 16 \<and> (case rb of None \<Rightarrow> True | Some ev \<Rightarrow> tcp_event_wf ev)"

section \<open>Lemmas\<close>

lemma connect_event_wf: "length (kc_comm c) = 16 \<Longrightarrow> tcp_event_wf (connect_event c sk)"
  by (simp add: connect_event_def tcp_event_zero_def tcp_event_wf_def)

lemma audit_event_wf:
  "length (kc_comm c) = 16 \<Longrightarrow> \<forall>ev\<in>set (audit_syscall wl c ctx rb). syscall_event_wf ev"
  by (auto simp: audit_syscall_def syscall_event_wf_def Let_def split: option.splits)

context pending_map
begin

lemma fire_wf:
  assumes "\<forall>k v. lookup_elem H m k = Some v \<longrightarrow> tcp_event_wf v" and "probe_wf p"
  shows "(\<forall>ev\<in>set (fst (fire H filters p m)). tcp_event_wf ev) \<and>
     (\<forall>k v. lookup_elem H (snd (fire H filters p m)) k = Some v \<longrightarrow> tcp_event_wf v)"
proof (cases p)
  case (Connect c sk rb)
  have ev: "tcp_event_wf (connect_event c sk)" using assms(2) Connect by (simp add: connect_event_wf)
  have "tcp_event_wf v" if "lookup_elem H (snd (update_elem H m (ctx_pid c) (connect_event c sk))) k = Some v" for k v
  proof (cases "fst (update_elem H m (ctx_pid c) (connect_event c sk)) = 0")
    case True
    then show ?thesis using that update_same update_other assms(1) ev by (metis option.inject)
  next
    case False
    then show ?thesis using that update_fails assms(1) by (metis prod.collapse)
  qed
  with assms(1) ev Connect show ?thesis by (auto simp: trace_tcp_connect_def Let_def split: option.splits)
next
  case (Close c sk rb)
  have "tcp_event_wf v" if "lookup_elem H (snd (delete_elem H m (ctx_pid c))) k = Some v" for k v
    using that assms(1) by (auto simp: delete_elem_lookup split: if_splits)
  with assms Close show ?thesis
    by (auto simp: trace_tcp_close_def Let_def tcp_event_wf_def split: option.splits)
qed

lemma fire_all_wf:
  assumes "\<forall>k v. lookup_elem H m k = Some v \<longrightarrow> tcp_event_wf v" and "\<forall>p\<in>set ps. probe_wf p"
  shows "\<forall>ev\<in>set (fst (fire_all H filters ps m)). tcp_event_wf ev"
  using assms
proof (induction ps arbitrary: m)
  case (Cons p ps)
  have p: "probe_wf p" using Cons.prems by simp
  have "\<forall>ev\<in>set (fst (fire_all H filters ps (snd (fire H filters p m)))). tcp_event_wf ev"
    using fire_wf [OF Cons.prems(1) p] Cons.prems(2) by (intro Cons.IH) auto
  with fire_wf [OF Cons.prems(1) p, of filters] show ?case
    by (auto simp: fire_all.simps(2) Let_def case_prod_beta)
qed simp

end

lemma poll_bytes:
  assumes "\<forall>ev\<in>set evs. rd (wr ev) = ev"
  shows "BpfRingBuffer_poll (\<lambda>sample. cb (rd sample)) (map wr evs) w = BpfRingBuffer_poll cb evs w"
  using assms by (induction evs arbitrary: w) (simp_all add: BpfRingBuffer_poll_def)

section \<open>Properties\<close>


definition delivery_ex :: "probe list" where
  "delivery_ex = [Connect (ctx_ex 7) (sock_ex 443 9) (Some tcp_event_zero), Close (ctx_ex 7) (sock_ex 443 9) (Some tcp_event_zero)]"


end
