(* ===== verification/Monitor_Run.thy ===== *)
theory Monitor_Run
  imports Monitor
begin

text \<open>
  Properties of the daemon of \<open>src/src/monitor.cpp\<close>: what the command line means, how \<open>main\<close>
  ends, release of resources on every path, clean shutdown, what a late failure does, filters
  and ports across user space and kernel, and the well-formedness every run keeps.
\<close>

section \<open>The command line\<close>

lemma takeWhile_digits: "takeWhile is_digit (to_string n) = to_string n"
  using to_string_digits by (auto simp: takeWhile_eq_all_conv)

lemma hd_to_string: "is_digit (hd (to_string n))"
  using to_string_digits [of "hd (to_string n)" n] by simp

lemma digit_not_sign: "is_digit c \<Longrightarrow> c \<noteq> CHR ''+'' \<and> c \<noteq> CHR ''-'' \<and> \<not> is_space c"
  by (auto simp: is_digit_def is_space_def)

lemma stoul_to_string: "n < 2 ^ 64 \<Longrightarrow> stoul (to_string n) = Inr (of_nat n)"
proof -
  assume "n < 2 ^ 64"
  have "dropWhile is_space (to_string n) = to_string n"
    using digit_not_sign [OF hd_to_string [of n]] by (cases "to_string n") auto
  then show ?thesis
    using \<open>n < 2 ^ 64\<close> digit_not_sign [OF hd_to_string [of n]] by (simp add: stoul_def takeWhile_digits Let_def)
qed

lemma ucast_of_nat_32: "(ucast (of_nat n :: u64) :: u32) = of_nat n"
  by (simp add: unsigned_of_nat word_of_nat_eq_iff)

lemma ucast_of_nat_16: "(ucast (of_nat n :: u64) :: u16) = of_nat n"
  by (simp add: unsigned_of_nat word_of_nat_eq_iff)

lemma parse_args_append:
  "parse_args pre cfg w = (Ok (0, cfg'), w') \<Longrightarrow> parse_args (pre @ post) cfg w = parse_args post cfg' w'"
  by (induction pre cfg w rule: parse_args.induct) (auto split: if_splits sum.splits)

text \<open>The number given with an option: the last one wins.\<close>

definition last_number :: "char \<Rightarrow> nat \<Rightarrow> (char \<times> string) list \<Rightarrow> nat" where
  "last_number c d opts = fold (\<lambda>(opt, optarg) n. if opt = c then dec_val optarg else n) opts d"

fun well_formed :: "char \<times> string \<Rightarrow> bool" where
  "well_formed (opt, optarg) \<longleftrightarrow> opt = CHR ''j'' \<or>
     opt \<in> {CHR ''p'', CHR ''P'', CHR ''o''} \<and> to_string (dec_val optarg) = optarg \<and> dec_val optarg < 2 ^ 64"

lemma stoul_well_formed: "to_string (dec_val a) = a \<Longrightarrow> dec_val a < 2 ^ 64 \<Longrightarrow> stoul a = Inr (of_nat (dec_val a))"
  using stoul_to_string [of "dec_val a"] by simp

lemma parse_args_numbers:
  assumes "list_all well_formed opts"
  shows "parse_args opts \<lparr>cfg_filter_pid = of_nat p, cfg_filter_port = of_nat q, cfg_http_port = of_nat h\<rparr> w =
     (Ok (0, \<lparr>cfg_filter_pid = of_nat (last_number (CHR ''p'') p opts),
        cfg_filter_port = of_nat (last_number (CHR ''P'') q opts),
        cfg_http_port = of_nat (last_number (CHR ''o'') h opts)\<rparr>),
      w\<lparr>mo_g_json := (mo_g_json w \<or> CHR ''j'' \<in> fst ` set opts)\<rparr>)"
  using assms
proof (induction opts arbitrary: p q h w)
  case (Cons x opts)
  obtain c a where x: "x = (c, a)" by fastforce
  have "c = CHR ''j'' \<or> c \<in> {CHR ''p'', CHR ''P'', CHR ''o''} \<and> stoul a = Inr (of_nat (dec_val a))"
    using Cons.prems x stoul_well_formed by auto
  then show ?case
    using Cons.prems x by (auto simp: Cons.IH last_number_def ucast_of_nat_32 ucast_of_nat_16)
qed (simp add: last_number_def)

text \<open>
  C34. Command line. When every option carries a decimal number below \<open>2 ^ 64\<close>, parsing
  succeeds; each setting is the last number given for it, or its default, reduced modulo the
  width of its field (so \<open>--port 70000\<close> becomes port 4464), and \<open>--json\<close> is the only option
  that changes the output mode.
\<close>

theorem parse_args_exact:
  assumes "list_all well_formed opts"
  shows "\<exists>cfg. parse_args opts Config_init w =
       (Ok (0, cfg), w\<lparr>mo_g_json := (mo_g_json w \<or> CHR ''j'' \<in> fst ` set opts)\<rparr>) \<and>
     unat (cfg_filter_pid cfg) = last_number (CHR ''p'') 0 opts mod 2 ^ 32 \<and>
     unat (cfg_filter_port cfg) = last_number (CHR ''P'') 0 opts mod 2 ^ 32 \<and>
     unat (cfg_http_port cfg) = last_number (CHR ''o'') 9090 opts mod 2 ^ 16"
  using parse_args_numbers [OF assms, of 0 0 9090 w] by (simp add: Config_init_def unsigned_of_nat take_bit_eq_mod)

definition monitor_ex :: monitor where
  "monitor_ex = \<lparr>w_calls = [], mo_srv = AsyncHttpServer_ctor 0, mo_reporter = [], mo_g_reporter = False,
     mo_g_json = False, mo_filters = (\<lambda>_. Some 0), mo_last_print = 0, mo_out = [], mo_err = []\<rparr>"

theorem parse_args_exact_witness:
  "\<exists>cfg. parse_args [(CHR ''o'', ''80''), (CHR ''j'', []), (CHR ''o'', ''70000'')] Config_init monitor_ex =
       (Ok (0, cfg), monitor_ex\<lparr>mo_g_json := True\<rparr>) \<and> unat (cfg_http_port cfg) = 4464"
proof -
  have "dec_val ''80'' = 80" "dec_val ''70000'' = 70000" "to_string 80 = ''80''" "to_string 70000 = ''70000''"
    by (simp_all add: dec_val_def to_string.simps digit_def char_of_def bit_0)
  then show ?thesis
    using parse_args_exact [of "[(CHR ''o'', ''80''), (CHR ''j'', []), (CHR ''o'', ''70000'')]" monitor_ex]
    by (auto simp: last_number_def)
qed

text \<open>
  How \<open>main\<close> ends without starting anything. After any well-formed options, \<open>--help\<close>
  prints the usage and exits with 0, an unknown option exits with 1, and an argument that is
  not a number, or too large, ends the program by an exception nobody catches.
\<close>

theorem main_early_exits:
  assumes "parse_args pre Config_init w = (Ok (0, cfg), w1)"
  shows "main env (pre @ (CHR ''h'', a) # post) w = (Ok 0, out usage w1) \<and>
     (c \<notin> {CHR ''p'', CHR ''P'', CHR ''o'', CHR ''j'', CHR ''h''} \<longrightarrow>
        main env (pre @ (c, a) # post) w = (Ok 1, w1)) \<and>
     (c \<in> {CHR ''p'', CHR ''P'', CHR ''o''} \<and> stoul a = Inl e \<longrightarrow>
        main env (pre @ (c, a) # post) w = (Terminated, w1))"
  using parse_args_append [OF assms] by (auto simp: main_def)


definition lib_ex :: libbpf where
  "lib_ex = \<lparr>bpf_object_open = \<lambda>_. True, bpf_object_load = \<lambda>_. 0, find_program_by_name = \<lambda>_ _. True,
     program_attach_kprobe = \<lambda>_ _. True, program_attach_tracepoint = \<lambda>_ _ _. True,
     find_map_by_name = \<lambda>_ _. True, map_update_elem = \<lambda>_ _ _. 0, ring_buffer_new = \<lambda>_. True,
     strerror = \<lambda>_. ''Permission denied''\<rparr>"

definition env_ex :: env where
  "env_ex = \<lparr>en_lib = lib_ex,
     en_start = \<lparr>st_socket = 3, st_bind = 0, st_listen = 0, st_epoll_create = 4, st_add_listen = 0,
       st_eventfd = 5, st_add_stop = 0\<rparr>,
     en_errno = [], en_batches = (\<lambda>told. if told then batches_ex else []), en_seen = (\<lambda>_. []), en_now_ms = 0,
     en_sort = insertion_sort, en_order = rev, en_time = 0,
     en_iterations = [\<lparr>it_stop = False, it_tcp = [event_ex 1 0 0, event_ex 2 0 0], it_audit = [], it_now = 1\<rparr>,
       \<lparr>it_stop = False, it_tcp = [event_ex 1 1 100], it_audit = [], it_now = 2\<rparr>,
       \<lparr>it_stop = True, it_tcp = [], it_audit = [], it_now = 3\<rparr>]\<rparr>"

theorem main_early_exits_witness:
  "main env_ex [(CHR ''j'', []), (CHR ''h'', [])] monitor_ex = (Ok 0, out usage (monitor_ex\<lparr>mo_g_json := True\<rparr>)) \<and>
   main env_ex [(CHR ''j'', []), (CHR ''?'', [])] monitor_ex = (Ok 1, monitor_ex\<lparr>mo_g_json := True\<rparr>) \<and>
   main env_ex [(CHR ''j'', []), (CHR ''o'', ''http'')] monitor_ex = (Terminated, monitor_ex\<lparr>mo_g_json := True\<rparr>)"
proof -
  have pre: "parse_args [(CHR ''j'', [])] Config_init monitor_ex = (Ok (0, Config_init), monitor_ex\<lparr>mo_g_json := True\<rparr>)"
    by simp
  have "stoul ''http'' = Inl (Std_exception ''stoul'')"
    by (simp add: stoul_def is_space_def is_digit_def)
  then show ?thesis
    using main_early_exits [OF pre, of env_ex "[]" "[]" "CHR ''?''"]
      main_early_exits [OF pre, of env_ex "''http''" "[]" "CHR ''o''"]
    by simp
qed

section \<open>Properties of a run\<close>

text \<open>
  C17. Resources. However \<open>run_monitor\<close> comes to an end, by returning or by an exception from
  any call of the set-up, the objects, links, ring buffers, the HTTP server and its thread
  that it acquired are released, in the reverse order of their acquisition; the only ones left
  over are BPF objects that open but do not load.
\<close>

theorem monitor_releases:
  assumes "run_monitor env cfg w = (res, w')" and "finished res"
  shows "\<exists>leaked t. w_calls w' = w_calls w @ t \<and> bracketed leaked t \<and>
     set leaked \<subseteq> {Object path |path. path \<in> {''bpf/tcp_tracer.bpf.o'', ''bpf/syscall_audit.bpf.o''} \<and>
       bpf_object_open (en_lib env) path \<and> bpf_object_load (en_lib env) path \<noteq> 0}"
proof -
  obtain leaked t where t: "w_calls w' = w_calls w @ t" "bracketed leaked t"
    "set leaked \<subseteq> load_leak (en_lib env) ''bpf/tcp_tracer.bpf.o'' \<union> load_leak (en_lib env) ''bpf/syscall_audit.bpf.o''"
    using neatD [OF neat_run_monitor assms] by blast
  have "set leaked \<subseteq> {Object path |path. path \<in> {''bpf/tcp_tracer.bpf.o'', ''bpf/syscall_audit.bpf.o''} \<and>
       bpf_object_open (en_lib env) path \<and> bpf_object_load (en_lib env) path \<noteq> 0}"
    by (rule subset_trans [OF t(3)]) (auto simp: load_leak_def)
  with t(1,2) show ?thesis by blast
qed

text \<open>At an example where the second object does not load: it leaks, the first is closed.\<close>

definition env_no_load :: env where
  "env_no_load = env_ex\<lparr>en_lib := lib_ex\<lparr>bpf_object_load :=
     \<lambda>path. if path = ''bpf/syscall_audit.bpf.o'' then - 13 else 0\<rparr>\<rparr>"

theorem monitor_releases_witness:
  "fst (run_monitor env_no_load Config_init monitor_ex) = Throw (Error ''bpf_object__load failed: Permission denied'') \<and>
   (\<exists>leaked t. w_calls (snd (run_monitor env_no_load Config_init monitor_ex)) = t \<and> bracketed leaked t \<and>
      set leaked \<subseteq> {Object ''bpf/syscall_audit.bpf.o''})"
proof -
  let ?run = "run_monitor env_no_load Config_init monitor_ex"
  have thrown: "fst ?run = Throw (Error ''bpf_object__load failed: Permission denied'')"
    by (simp add: run_monitor_def scoped_def andThen_def BpfObject_ctor_def BpfObject_dtor_def env_no_load_def env_ex_def
        lib_ex_def Let_def)
  then have "finished (fst ?run)" by simp
  from monitor_releases [OF surjective_pairing this] thrown show ?thesis
    by (fastforce simp: monitor_ex_def env_no_load_def env_ex_def lib_ex_def split: if_splits)
qed



lemma env_ex_served: "clients_served env_ex = [7]" and env_ex_stop: "stop_delivered env_ex"
proof -
  have "before_stop 5 (concat batches_ex) = take 2 (concat batches_ex)"
    by (simp add: before_stop_def batches_ex_def)
  then show "clients_served env_ex = [7]" "stop_delivered env_ex"
    by (simp_all add: clients_served_def stop_delivered_def env_ex_def client_fds_def batches_ex_def event_ok_def)
qed

lemma lib_ex_ok: "setup_ok lib_ex" "buffers_ok lib_ex" "start_ok (en_start env_ex)"
  by (simp_all add: setup_ok_def buffers_ok_def start_ok_def lib_ex_def env_ex_def)


text \<open>
  C35. A failure after the HTTP thread has started is never reported. If a ring buffer's map is
  missing or the ring buffer cannot be made, \<open>run_monitor\<close> does not end by the exception: the
  destructor of the thread waits for a server nobody has told to stop, whatever its clients
  do.
\<close>

theorem late_failure_hangs:
  assumes "setup_ok (en_lib env)" and "start_ok (en_start env)" and "\<not> buffers_ok (en_lib env)"
    and "\<forall>e\<in>set (concat (en_batches env False)). ev_fd e \<noteq> st_eventfd (en_start env)"
  shows "\<not> finished (fst (run_monitor env cfg w)) \<and> (\<forall>rc. fst (main env [] w) \<noteq> Ok rc)"
proof -
  have hangs: "\<not> finished (fst (run_monitor env cfg w))" for cfg w
    using run_monitor_serves [OF assms(1,2), of cfg w] serve_hangs [OF assms(3,4)] by (auto simp: before_serve_def)
  show ?thesis
    using hangs [of cfg w] hangs [of Config_init w]
    by (auto simp: main_def split: prod.splits outcome.splits exn.splits)
qed

definition env_no_buffer :: env where
  "env_no_buffer = env_ex\<lparr>en_lib := lib_ex\<lparr>ring_buffer_new := \<lambda>_. False\<rparr>\<rparr>"

theorem late_failure_hangs_witness:
  "\<not> finished (fst (run_monitor env_no_buffer Config_init monitor_ex))"
proof -
  have "setup_ok (en_lib env_no_buffer)" "start_ok (en_start env_no_buffer)" "\<not> buffers_ok (en_lib env_no_buffer)"
    "en_batches env_no_buffer False = []"
    by (simp_all add: env_no_buffer_def env_ex_def setup_ok_def buffers_ok_def start_ok_def lib_ex_def)
  then show ?thesis using late_failure_hangs [of env_no_buffer Config_init monitor_ex] by simp
qed

lemma configure_filters_writes:
  assumes "find_map_by_name lib obj ''filters''" and "\<forall>i v. map_update_elem lib ''filters'' i v = 0"
    and "mo_filters w = filters_init"
  shows "configure_filters lib cfg (Some obj) w =
     (Ok (), w\<lparr>mo_filters := (mo_filters w)(0 \<mapsto> cfg_filter_pid cfg, 1 \<mapsto> cfg_filter_port cfg)\<rparr>)"
proof -
  have "(mo_filters w)(0 \<mapsto> 0) = mo_filters w" "(mo_filters w)(1 \<mapsto> 0) = mo_filters w"
    "(mo_filters w)(0 \<mapsto> v, 1 \<mapsto> 0) = (mo_filters w)(0 \<mapsto> v)" for v
    using assms(3) by (auto simp: fun_eq_iff)
  then show ?thesis
    using assms(1,2)
    by (cases "cfg_filter_pid cfg = 0"; cases "cfg_filter_port cfg = 0")
       (simp_all add: configure_filters_def andThen_def find_map_def set_filter_def Let_def)
qed

text \<open>
  C30. Filters from the command line to the kernel. With the filter map found and its updates
  accepted, starting from the zero-filled map, the connect probe then reports and remembers
  exactly the connects whose process is the one given with \<open>--filter-pid\<close> and whose port is
  the low 16 bits of the number given with \<open>--filter-port\<close>, 0 meaning any.
\<close>

theorem filters_reach_probe:
  assumes "find_map_by_name lib obj ''filters''" and "\<forall>i v. map_update_elem lib ''filters'' i v = 0"
    and "mo_filters w = filters_init"
  shows "\<exists>w'. configure_filters lib cfg (Some obj) w = (Ok (), w') \<and>
     trace_tcp_connect H (mo_filters w') c sk rb m =
       (if (cfg_filter_pid cfg = 0 \<or> cfg_filter_pid cfg = ctx_pid c) \<and>
           (cfg_filter_port cfg = 0 \<or> ucast (cfg_filter_port cfg) = bswap16 (skc_dport sk))
        then (case rb of None \<Rightarrow> [] | Some _ \<Rightarrow> [connect_event c sk],
              snd (update_elem H m (ctx_pid c) (connect_event c sk)))
        else ([], m))"
proof -
  let ?w = "w\<lparr>mo_filters := (mo_filters w)(0 \<mapsto> cfg_filter_pid cfg, 1 \<mapsto> cfg_filter_port cfg)\<rparr>"
  have "configure_filters lib cfg (Some obj) w = (Ok (), ?w)" using assms by (rule configure_filters_writes)
  then show ?thesis
    by (intro exI [of _ ?w])
       (auto simp: trace_tcp_connect_def should_filter_def Let_def split: option.split)
qed

theorem filters_reach_probe_witness:
  "\<exists>w'. configure_filters lib_ex (Config_init\<lparr>cfg_filter_pid := 7, cfg_filter_port := 443\<rparr>) (Some ''bpf/tcp_tracer.bpf.o'')
       (monitor_ex\<lparr>mo_filters := filters_init\<rparr>) = (Ok (), w') \<and>
     trace_tcp_connect pending_connects (mo_filters w') (ctx_ex 8) (sock_ex 443 0) (Some tcp_event_zero) [] = ([], [])"
proof -
  have "ctx_pid (ctx_ex 8) = 8" by code_simp
  then show ?thesis
    using filters_reach_probe [of lib_ex "''bpf/tcp_tracer.bpf.o''"
        "monitor_ex\<lparr>mo_filters := filters_init\<rparr>"
        "Config_init\<lparr>cfg_filter_pid := 7, cfg_filter_port := 443\<rparr>" pending_connects "ctx_ex 8" "sock_ex 443 0"
        "Some tcp_event_zero" "[]"]
    by (simp add: lib_ex_def)
qed



section \<open>Well-formed states\<close>

text \<open>
  One entry per connection, process names of at most 16 characters without NUL, and the two
  slots of the filter map, which is an array of two entries.
\<close>

definition monitor_wf :: "monitor \<Rightarrow> bool" where
  "monitor_wf w \<longleftrightarrow> distinct (map fst (mo_reporter w)) \<and>
     (\<forall>x\<in>set (mo_reporter w). length (cs_comm (snd x)) \<le> 16 \<and> CHR 0x00 \<notin> set (cs_comm (snd x))) \<and>
     dom (mo_filters w) = {0, 1}"

definition preserves :: "('w \<Rightarrow> bool) \<Rightarrow> ('w, 'a) act \<Rightarrow> bool" where
  "preserves P m \<longleftrightarrow> (\<forall>w. P w \<longrightarrow> P (snd (m w)))"

lemma preservesI: "(\<And>w. P w \<Longrightarrow> P (snd (m w))) \<Longrightarrow> preserves P m"
  by (simp add: preserves_def)

lemma preservesD: "preserves P m \<Longrightarrow> P w \<Longrightarrow> m w = (res, w') \<Longrightarrow> P w'"
  by (metis preserves_def snd_conv)

lemma preserves_andThen:
  assumes "preserves P m" and "\<And>a. preserves P (f a)"
  shows "preserves P (andThen m f)"
proof (rule preservesI)
  fix w assume "P w"
  obtain res w1 where m: "m w = (res, w1)" by fastforce
  with \<open>P w\<close> have "P w1" using preservesD [OF assms(1)] by blast
  then show "P (snd (andThen m f w))" using m assms(2) by (cases res) (simp_all add: andThen_def preserves_def)
qed

lemma preserves_scoped:
  assumes "preserves P ctor" and "\<And>r. preserves P (dtor r)" and "\<And>r. preserves P (body r)"
  shows "preserves P (scoped ctor dtor body)"
  unfolding scoped_def
proof (rule preserves_andThen [OF assms(1)], rule preservesI)
  fix r w assume "P w"
  obtain res w1 where b: "body r w = (res, w1)" by fastforce
  with \<open>P w\<close> have "P w1" using preservesD [OF assms(3)] by blast
  obtain res2 w2 where d: "dtor r w1 = (res2, w2)" by fastforce
  with \<open>P w1\<close> have "P w2" using preservesD [OF assms(2)] by blast
  with \<open>P w1\<close> b d show "P (snd (case body r w of
         (Ok a, w1) \<Rightarrow> andThen (dtor r) (\<lambda>_ w2. (Ok a, w2)) w1
       | (Throw e, w1) \<Rightarrow> andThen (dtor r) (\<lambda>_ w2. (Throw e, w2)) w1
       | (Blocked, w1) \<Rightarrow> (Blocked, w1)
       | (Terminated, w1) \<Rightarrow> (Terminated, w1)))"
    by (cases res; cases res2) (simp_all add: andThen_def)
qed

lemma monitor_wf_irrelevant [simp]:
  "monitor_wf (w\<lparr>w_calls := c\<rparr>) = monitor_wf w" "monitor_wf (w\<lparr>mo_srv := s\<rparr>) = monitor_wf w"
  "monitor_wf (w\<lparr>mo_g_reporter := b\<rparr>) = monitor_wf w" "monitor_wf (w\<lparr>mo_g_json := b\<rparr>) = monitor_wf w"
  "monitor_wf (w\<lparr>mo_last_print := t\<rparr>) = monitor_wf w" "monitor_wf (out x w) = monitor_wf w"
  "monitor_wf (err x w) = monitor_wf w"
  by (simp_all add: monitor_wf_def)

lemma upsert_values:
  "(\<And>v. Q (f v)) \<Longrightarrow> \<forall>x\<in>set m. Q (snd x) \<Longrightarrow> \<forall>x\<in>set (upsert k d f m). Q (snd x)"
  by (induction k d f m rule: upsert.induct) auto

lemma update_stats_comm: "cs_comm (update_stats ev s) = strn 16 (te_comm ev)"
  by (simp add: update_stats_def Let_def)

lemma strn_no_NUL: "CHR 0x00 \<notin> set (strn n buf)"
  using set_takeWhileD by (fastforce simp: strn_def)

lemma record_event_wf:
  assumes "monitor_wf w"
  shows "monitor_wf (w\<lparr>mo_reporter := record_event ev (mo_reporter w)\<rparr>)"
proof -
  have "\<forall>x\<in>set (record_event ev (mo_reporter w)). length (cs_comm (snd x)) \<le> 16 \<and> CHR 0x00 \<notin> set (cs_comm (snd x))"
    using assms unfolding record_event_def
    by (intro upsert_values) (simp_all add: update_stats_comm length_strn strn_no_NUL monitor_wf_def)
  then show ?thesis using assms by (simp add: monitor_wf_def record_event_def distinct_upsert)
qed

lemma handlers_wf:
  "monitor_wf w \<Longrightarrow> monitor_wf (handle_tcp_event ev w)" "monitor_wf w \<Longrightarrow> monitor_wf (handle_syscall_event se w)"
  by (simp_all add: handle_tcp_event_def handle_syscall_event_def record_event_wf Let_def)

lemma fold_wf: "(\<And>x w. monitor_wf w \<Longrightarrow> monitor_wf (f x w)) \<Longrightarrow> monitor_wf w \<Longrightarrow> monitor_wf (fold f xs w)"
  by (induction xs arbitrary: w) auto

lemma loop_body_wf: "monitor_wf w \<Longrightarrow> monitor_wf (loop_body env it w)"
  using fold_wf [of handle_syscall_event, OF handlers_wf(2)] fold_wf [of handle_tcp_event, OF handlers_wf(1)]
  by (simp add: loop_body_def Let_def)

lemma main_loop_wf: "preserves monitor_wf (main_loop env its)"
proof (rule preservesI)
  show "monitor_wf w \<Longrightarrow> monitor_wf (snd (main_loop env its w))" for w
    by (induction env its w rule: main_loop.induct) (auto simp: loop_body_wf)
qed

lemma set_filter_wf: "i \<in> {0, 1} \<Longrightarrow> monitor_wf w \<Longrightarrow> monitor_wf (set_filter lib fmap i v w)"
  by (auto simp: set_filter_def monitor_wf_def)

lemma leaves_wf:
  "preserves monitor_wf (BpfObject_ctor lib path)" "preserves monitor_wf (BpfObject_dtor obj)"
  "preserves monitor_wf (attach_kprobe lib obj fn prog)" "preserves monitor_wf (attach_tracepoint lib obj ca na prog)"
  "preserves monitor_wf (find_map lib obj na)" "preserves monitor_wf (BpfLink_ctor link)"
  "preserves monitor_wf (BpfLink_dtor link)" "preserves monitor_wf (BpfRingBuffer_ctor lib rmap)"
  "preserves monitor_wf (BpfRingBuffer_dtor rb)" "preserves monitor_wf (server_ctor port)"
  "preserves monitor_wf (server_dtor u)" "preserves monitor_wf thread_ctor" "preserves monitor_wf shutdown"
  by (rule preservesI, simp add: BpfObject_ctor_def BpfObject_dtor_def attach_kprobe_def attach_tracepoint_def
      find_map_def BpfLink_ctor_def BpfLink_dtor_def BpfRingBuffer_ctor_def BpfRingBuffer_dtor_def server_ctor_def
      server_dtor_def thread_ctor_def shutdown_def Let_def split: option.split)+

lemma steps_wf:
  "preserves monitor_wf (thread_dtor env u)" "preserves monitor_wf (server_start env)"
  "preserves monitor_wf (configure_filters lib cfg obj)"
  by (rule preservesI, simp add: thread_dtor_def split: option.split prod.split sum.split)
     (rule preservesI, simp add: server_start_def split: prod.split sum.split,
      rule preservesI, simp add: configure_filters_def andThen_def find_map_def set_filter_wf Let_def split: option.split)

lemma run_monitor_wf: "preserves monitor_wf (run_monitor env cfg)"
proof -
  have "preserves monitor_wf (\<lambda>w. main_loop env (en_iterations env) (w\<lparr>mo_last_print := en_time env\<rparr>))"
    using main_loop_wf by (simp add: preserves_def)
  moreover have "preserves monitor_wf (\<lambda>w. (Ok (), out x w))"
    and "preserves monitor_wf (\<lambda>w. (Ok (), w\<lparr>mo_reporter := [], mo_g_reporter := True\<rparr>))" for x
    by (simp_all add: preserves_def monitor_wf_def)
  ultimately show ?thesis
    unfolding run_monitor_def serve_def event_loop_def
    by (intro preserves_scoped preserves_andThen leaves_wf steps_wf)
qed

text \<open>
  C25. The state stays well-formed. Whatever the options, the events and the way \<open>main\<close> ends,
  the reporter has one entry per connection, every process name in it has at most 16
  characters and no NUL, and the filter map has its two slots and no others.
\<close>

theorem main_keeps_wf:
  assumes "monitor_wf w"
  shows "monitor_wf (snd (main env opts w))"
proof -
  have "monitor_wf (snd (parse_args opts cfg w))" for cfg
    using assms by (induction opts cfg w rule: parse_args.induct) (auto split: sum.split)
  then show ?thesis
    using run_monitor_wf
    by (auto simp: main_def preserves_def split: prod.split outcome.split exn.split) (metis snd_conv)+
qed

theorem main_keeps_wf_witness:
  "monitor_wf (snd (main env_ex [(CHR ''j'', [])] (monitor_ex\<lparr>mo_filters := [0 \<mapsto> 0, 1 \<mapsto> 0]\<rparr>)))"
  by (rule main_keeps_wf) (auto simp: monitor_wf_def monitor_ex_def)

section \<open>The filter map during a run\<close>

text \<open>After the set-up nothing writes the filter map.\<close>

lemma tcp_handlers_filters: "mo_filters (fold handle_tcp_event evs w) = mo_filters w"
  by (induction evs arbitrary: w) (simp_all add: handle_tcp_event_def Let_def)

lemma syscall_handlers_filters: "mo_filters (fold handle_syscall_event ses w) = mo_filters w"
  by (induction ses arbitrary: w) (simp_all add: handle_syscall_event_def)

lemma main_loop_filters: "mo_filters (snd (main_loop env its w)) = mo_filters w"
  by (induction env its w rule: main_loop.induct)
     (simp_all add: loop_body_def tcp_handlers_filters syscall_handlers_filters Let_def)

lemma leaves_filters:
  "preserves (\<lambda>w. mo_filters w = F) (find_map lib obj na)" "preserves (\<lambda>w. mo_filters w = F) (BpfRingBuffer_ctor lib rmap)"
  "preserves (\<lambda>w. mo_filters w = F) (BpfRingBuffer_dtor rb)" "preserves (\<lambda>w. mo_filters w = F) thread_ctor"
  "preserves (\<lambda>w. mo_filters w = F) shutdown" "preserves (\<lambda>w. mo_filters w = F) (\<lambda>w. (Ok (), out x w))"
  by (rule preservesI, simp add: find_map_def BpfRingBuffer_ctor_def BpfRingBuffer_dtor_def thread_ctor_def
      shutdown_def Let_def split: option.split)+

lemma serve_filters: "preserves (\<lambda>w. mo_filters w = F) (serve env cfg t a)"
proof -
  have "preserves (\<lambda>w. mo_filters w = F) (\<lambda>w. main_loop env (en_iterations env) (w\<lparr>mo_last_print := en_time env\<rparr>))"
    by (rule preservesI) (simp add: main_loop_filters)
  moreover have "preserves (\<lambda>w. mo_filters w = F) (thread_dtor env u)" for u
    by (rule preservesI) (simp add: thread_dtor_def split: option.split prod.split sum.split)
  ultimately show ?thesis
    unfolding serve_def event_loop_def by (intro preserves_scoped preserves_andThen leaves_filters)
qed

lemma run_monitor_ok:
  assumes "setup_ok (en_lib env)" and "buffers_ok (en_lib env)" and "start_ok (en_start env)"
    and "\<exists>it\<in>set (en_iterations env). it_stop it" and "stop_delivered env"
    and "\<forall>i v. map_update_elem (en_lib env) ''filters'' i v = 0"
    and "mo_filters w = filters_init"
  shows "\<exists>w'. run_monitor env cfg w = (Ok (), w') \<and> mo_reporter w' = fold record_event (delivered env) [] \<and>
     mo_filters w' 0 = Some (cfg_filter_pid cfg) \<and> mo_filters w' 1 = Some (cfg_filter_port cfg)"
proof -
  let ?serve = "serve env cfg (Some ''bpf/tcp_tracer.bpf.o'') (Some ''bpf/syscall_audit.bpf.o'')"
  obtain w1 w0 wf where w1: "before_serve cfg (en_start env) w1"
    and f: "mo_filters w0 = mo_filters w" "mo_filters w1 = mo_filters wf"
      "configure_filters (en_lib env) cfg (Some ''bpf/tcp_tracer.bpf.o'') w0 = (Ok (), wf)"
    and run: "\<And>u w2. ?serve w1 = (Ok u, w2) \<Longrightarrow>
      \<exists>calls. run_monitor env cfg w = (Ok (), w2\<lparr>mo_srv := AsyncHttpServer_dtor (mo_srv w2), w_calls := calls\<rparr>)"
    using run_monitor_serves [OF assms(1,3), of cfg w] by blast
  have "mo_filters w1 0 = Some (cfg_filter_pid cfg)" "mo_filters w1 1 = Some (cfg_filter_port cfg)"
    using configure_filters_writes [of "en_lib env" "''bpf/tcp_tracer.bpf.o''" w0 cfg] assms(1,6,7) f
    by (auto simp: setup_ok_def)
  moreover obtain w2 where w2: "?serve w1 = (Ok (), w2)" "mo_reporter w2 = fold record_event (delivered env) []"
    using serve_ok [OF assms(2,3,5,4), of w1 "cfg_http_port cfg" cfg] w1 unfolding before_serve_def by blast
  moreover have "mo_filters w2 = mo_filters w1"
    using preservesD [OF serve_filters refl w2(1)] by simp
  ultimately show ?thesis using run [OF w2(1)] by auto
qed

end
