(* ===== verification/Spec2Isabelle.thy ===== *)
theory Spec2Isabelle
  imports Pipeline_Threads Net_Stats Served_Requests Reporter_Threads Event_Delivery Monitor_Run
begin

text \<open>
  Verification of the eBPF system monitor.

  The program has a kernel side, three BPF programs under \<open>src/bpf\<close>, and a user side, the
  daemon of \<open>src/src/monitor.cpp\<close>, which loads two of them, reads their ring buffers in its
  main loop, aggregates TCP events per connection and serves the result over HTTP from a
  second thread. Beside them stand a packet-processing pipeline (\<open>src/src/dpdk_sim\<close>), whose
  counters can be exported in the same format, a thread pool and request statistics.

  \<^bold>\<open>Shared theories.\<close> \<open>Prelude\<close> has the machine words, lists, and the collections of
  facts. \<open>Interfaces\<close> has the locales \<open>bounded_fifo\<close>, \<open>burst_fifo\<close> (queues) and
  \<open>step_invariant\<close> (invariants of transition systems). \<open>Std_Text\<close> has the text functions of
  the standard library with their inverses. \<open>Aggregation\<close> has the locales of a map that sums
  up events per key, \<open>aggregator\<close> and \<open>commutative_aggregator\<close>.

  \<^bold>\<open>Packet pipeline.\<close> \<open>Spsc_Ring\<close> models \<open>spsc_ring.h\<close> call by call, with 64-bit wrapping
  indices, and shows that the ring refines a bounded FIFO queue and that bursts equal single
  calls. \<open>Spsc_Concurrent\<close> splits the same operations into loads and stores of a producer and
  a consumer thread that interleave, a load of the other side's index returning any value it
  has had since the last look; FIFO order and freedom from data races are invariants by
  induction over the steps, and they bound what \<open>size\<close> returns to each thread. \<open>Memory_Pool\<close> (\<open>memory_pool.h\<close>) and \<open>Packet_Processor\<close>
  (\<open>packet_processor.h\<close>) build on the queue interface: no block is lost or held twice, packets
  are conserved, bursts drain the queue. \<open>Pipeline_Threads\<close> puts the two rings of the pipeline
  together with a sending and a processing thread, load by load and store by store, with the
  synchronisation that acquire and release give across the rings: with a queue at least as
  large as the pool no packet is dropped or lost, the handler sees the packets as they were
  sent, and the two threads refine a machine that moves blocks between four places in atomic
  transfers.

  \<^bold>\<open>Kernel side.\<close> \<open>Events\<close> has the records of \<open>common.h\<close> and the contract of BPF hash maps
  (\<open>bpf_hash_map\<close>). \<open>Tcp_Tracer\<close>, \<open>Syscall_Audit\<close> and \<open>Net_Stats\<close> model the three programs,
  one function per BPF program, with the kernel's data as arguments: the current process, the
  socket, whether a ring-buffer reservation succeeds, the packet's bytes. Their lemmas say
  which events are submitted and what the maps hold. \<open>Net_Stats\<close> checks every load against the
  end of the packet. \<open>Event_Layout\<close> lays the shared structures out in bytes, by the C ABI's rule,
  and reads them back; \<open>Event_Delivery\<close> takes the samples the probes write through memory to the
  daemon's handlers.

  \<^bold>\<open>User side.\<close> \<open>Stats_Reporter\<close> and \<open>Request_Stats\<close> interpret \<open>aggregator\<close>: their tables are
  exact whatever the order of iteration. \<open>Thread_Pool\<close> models workers, submitters and the
  destructor as interleaved steps with spurious wake-ups: every accepted task runs once and
  the destructor returns. \<open>Served_Requests\<close> runs timed requests on that pool: the statistics
  are exact whatever the schedule. \<open>Async_Server\<close> is the epoll server as a state machine over the
  results of its system calls, which it logs. \<open>Metrics\<close> and \<open>Http_Route\<close> produce the exposition
  text and the JSON, and are shown against readers of the two formats. \<open>Ebpf_Loader\<close> has
  actions that return, throw, block or terminate the program, objects with automatic storage
  (\<open>scoped\<close>), the owning classes of \<open>ebpf_loader.h\<close>, null handles and moves included, and their
  contracts (\<open>raii\<close>, \<open>movable_raii\<close>). \<open>Monitor\<close> puts these together into \<open>run_monitor\<close> and \<open>main\<close>,
  statement by statement; \<open>Monitor_Run\<close> has the properties of whole runs. There the HTTP
  thread's run is placed where it is joined, and what it sees of the reporter is an argument;
  \<open>Reporter_Threads\<close> is the concurrent view of the same two threads: the lockings of the
  reporter's mutex, the stores of \<open>record\<close> and the callbacks of \<open>for_each\<close> are steps that
  interleave, every answer shows the table of one moment, and neither thread stops the other
  for good. This theory holds the property that runs from the command line
  through the kernel to the statistics.

  \<^bold>\<open>Representation.\<close> Classes are records, with one field per member; machine integers are words
  of their width; an unordered map is an association list with one entry per key, and the
  order in which it is iterated is an argument; \<open>std::sort\<close> is an argument with its contract.
  Exceptions and error returns are values of sum types or of \<open>outcome\<close>. What the kernel, libbpf
  and the clock return are arguments or fields of the records \<open>libbpf\<close>, \<open>start_results\<close>,
  \<open>http_event\<close> and \<open>env\<close>.

  \<^bold>\<open>Loops.\<close> There is no fuel. Loops over data recurse on it. The loops that end only when the
  outside says so, \<open>handle_client\<close>'s reads, \<open>run\<close> and the daemon's main loop, recurse on the list
  of what the outside does, and the list running out is a value of its own, \<open>None\<close> or \<open>Blocked\<close>:
  the loop is still waiting. That they do return is stated as such (\<open>server_stops\<close>,
  \<open>monitor_shuts_down\<close>), under hypotheses on the outside only. The steps of the thread pool
  and those of the two threads on the reporter decrease a measure (\<open>pool_finishes\<close>,
  \<open>threads_finish\<close>).

  \<^bold>\<open>Not modelled.\<close> Memory orders weaker than what the stale loads of \<open>Spsc_Concurrent\<close> cover;
  cache-line alignment; short writes to a client, which the code ignores; the parsing inside
  \<open>getopt_long\<close>; the registration of the signal handlers and \<open>libbpf_set_strict_mode\<close>; the poll
  timeouts and the sizes of the kernel's ring buffers (whether a reservation succeeds is an
  argument); tests, build files and dashboards. The lines of the sources that no definition
  stands for are comments, includes, the declarations around the members (namespaces, access
  specifiers, deleted copy operations, licences) and these constants.
\<close>

section \<open>From the kernel to the endpoints\<close>

text \<open>The connects of one connection that a configuration is meant to trace.\<close>

fun traced :: "Config \<Rightarrow> ConnectionKey \<Rightarrow> probe \<Rightarrow> bool" where
  "traced cfg k (Connect c sk rb) \<longleftrightarrow> rb \<noteq> None \<and> event_key (connect_event c sk) = k \<and>
     (cfg_filter_pid cfg = 0 \<or> cfg_filter_pid cfg = ctx_pid c) \<and>
     (cfg_filter_port cfg = 0 \<or> ucast (cfg_filter_port cfg) = bswap16 (skc_dport sk))"
| "traced cfg k (Close c sk rb) \<longleftrightarrow> False"

lemma fire_connects:
  assumes "filters 0 = Some (cfg_filter_pid cfg)" and "filters 1 = Some (cfg_filter_port cfg)"
  shows "length (filter (\<lambda>e. te_action e = TCP_ACTION_CONNECT) (of_key k (fst (fire H filters p m)))) =
     (if traced cfg k p then 1 else 0)"
  using assms
  by (cases p)
     (auto simp: trace_tcp_connect_def trace_tcp_close_def should_filter_def of_key_def connect_event_def
       TCP_ACTION_CONNECT_def TCP_ACTION_CLOSE_def Let_def split: option.split prod.split)

lemma fire_all_connects:
  assumes "filters 0 = Some (cfg_filter_pid cfg)" and "filters 1 = Some (cfg_filter_port cfg)"
  shows "length (filter (\<lambda>e. te_action e = TCP_ACTION_CONNECT) (of_key k (fst (fire_all H filters ps m)))) =
     length (filter (traced cfg k) ps)"
proof (induction ps arbitrary: m)
  case (Cons p ps)
  have "fst (fire_all H filters (p # ps) m) =
      fst (fire H filters p m) @ fst (fire_all H filters ps (snd (fire H filters p m)))"
    by (simp add: fire_all.simps Let_def case_prod_beta)
  then show ?case
    using fire_connects [of filters cfg k H p m] assms Cons.IH [of "snd (fire H filters p m)"] by (simp add: of_key_def)
qed (simp add: fire_all.simps of_key_def)

lemma recorded_connects:
  "cs_connects (entry (fold record_event es []) k ConnectionStats_init) =
     of_nat (length (filter (\<lambda>e. te_action e = TCP_ACTION_CONNECT) (of_key k es)))"
proof -
  have "k \<in> event_key ` set es \<longleftrightarrow> of_key k es \<noteq> []"
    by (auto simp: of_key_def filter_empty_conv)
  then have "map_of (fold record_event es []) k =
      (if of_key k es = [] then None else Some (fold update_stats (of_key k es) ConnectionStats_init))"
    using reporter.runs_lookup [of es "[]" k] by (simp add: of_key_def)
  then show ?thesis by (simp add: fold_update_stats ConnectionStats_init_def)
qed

text \<open>
  C7. From the command line through the kernel to the statistics. Suppose the set-up calls
  succeed, the filter map starts zero-filled, and the events the daemon's polls deliver before
  the stop signal are those the probes submit with the filters of the configuration. Then
  \<open>run_monitor\<close> returns with these filters in the map, and the connect count of every
  connection is, modulo \<open>2 ^ 64\<close>, the number of its connects that match the filters and found
  room in the ring buffer, however connects and closes of all processes interleave.
\<close>

theorem traced_connects_counted:
  assumes "setup_ok (en_lib env)" and "buffers_ok (en_lib env)" and "start_ok (en_start env)"
    and "\<exists>it\<in>set (en_iterations env). it_stop it" and "stop_delivered env"
    and "\<forall>i v. map_update_elem (en_lib env) ''filters'' i v = 0"
    and "mo_filters w = filters_init"
    and "filters 0 = Some (cfg_filter_pid cfg)" and "filters 1 = Some (cfg_filter_port cfg)"
    and "delivered env = fst (fire_all H filters probes m)"
  shows "\<exists>w'. run_monitor env cfg w = (Ok (), w') \<and> mo_filters w' 0 = filters 0 \<and> mo_filters w' 1 = filters 1 \<and>
     (\<forall>k. cs_connects (entry (mo_reporter w') k ConnectionStats_init) = of_nat (length (filter (traced cfg k) probes)))"
proof -
  obtain w' where w': "run_monitor env cfg w = (Ok (), w')" "mo_reporter w' = fold record_event (delivered env) []"
    "mo_filters w' 0 = Some (cfg_filter_pid cfg)" "mo_filters w' 1 = Some (cfg_filter_port cfg)"
    using run_monitor_ok [OF assms(1-7)] by blast
  then show ?thesis
    using assms(8-10) fire_all_connects [of filters cfg _ H probes m]
    by (intro exI [of _ w']) (simp add: recorded_connects)
qed

text \<open>Two processes connect to port 443 and one closes; only process 7 is to be traced.\<close>

definition probes_ex :: "probe list" where
  "probes_ex = [Connect (ctx_ex 7) (sock_ex 443 0) (Some tcp_event_zero),
     Connect (ctx_ex 8) (sock_ex 443 0) (Some tcp_event_zero),
     Close (ctx_ex 7) (sock_ex 443 9) (Some tcp_event_zero),
     Connect (ctx_ex 7) (sock_ex 443 0) (Some tcp_event_zero)]"

definition env_probes :: env where
  "env_probes = env_ex\<lparr>en_iterations :=
     [\<lparr>it_stop = False, it_tcp = fst (fire_all pending_connects [0 \<mapsto> 7, 1 \<mapsto> 0] probes_ex []), it_audit = [],
       it_now = 1\<rparr>, \<lparr>it_stop = True, it_tcp = [], it_audit = [], it_now = 2\<rparr>]\<rparr>"

theorem traced_connects_counted_witness:
  "\<exists>w'. run_monitor env_probes (Config_init\<lparr>cfg_filter_pid := 7\<rparr>)
      (monitor_ex\<lparr>mo_filters := filters_init\<rparr>) = (Ok (), w') \<and>
    cs_connects (entry (mo_reporter w') (event_key (connect_event (ctx_ex 7) (sock_ex 443 0))) ConnectionStats_init) = 2"
proof -
  let ?k = "event_key (connect_event (ctx_ex 7) (sock_ex 443 0))"
  have env: "en_lib env_probes = lib_ex" "en_start env_probes = en_start env_ex"
    "stop_delivered env_probes \<longleftrightarrow> stop_delivered env_ex" "\<exists>it\<in>set (en_iterations env_probes). it_stop it"
    "\<forall>i v. map_update_elem lib_ex ''filters'' i v = 0"
    by (simp_all add: env_probes_def env_ex_def stop_delivered_def lib_ex_def)
  have "ctx_pid (ctx_ex 7) = 7" "ctx_pid (ctx_ex 8) = 8" by code_simp+
  then have "length (filter (traced (Config_init\<lparr>cfg_filter_pid := 7\<rparr>) ?k) probes_ex) = 2"
    by (simp add: probes_ex_def Config_init_def)
  moreover have "delivered env_probes = fst (fire_all pending_connects [0 \<mapsto> 7, 1 \<mapsto> 0] probes_ex [])"
    by (simp add: delivered_def env_probes_def)
  ultimately show ?thesis
    using traced_connects_counted [of env_probes "monitor_ex\<lparr>mo_filters := filters_init\<rparr>"
        "[0 \<mapsto> 7, 1 \<mapsto> 0]" "Config_init\<lparr>cfg_filter_pid := 7\<rparr>" pending_connects probes_ex "[]"]
      lib_ex_ok env env_ex_stop
    by (auto simp: Config_init_def)
qed

end
